theory Spec2Isabelle
  imports Main "HOL-Library.Word"
begin

unbundle bit_operations_syntax

section \<open>Basic types\<close>

type_synonym u8 = "8 word"
type_synonym u32 = "32 word"
type_synonym u64 = "64 word"

text \<open>
  The ways a C function of \<^verbatim>\<open>migration-postcopy.c\<close> can stop without returning:
  \<^verbatim>\<open>abort()\<close> or a failed \<^verbatim>\<open>assert\<close>, a read through a NULL or out-of-range
  pointer, a shift by a negative count, and a loop that never ends.
\<close>

datatype stop = Abort | BadDeref | BadShift | Diverges

section \<open>Wire codec: requests of the umem daemon to the source\<close>

text \<open>
  The command byte of a request. The numeric values of \<^verbatim>\<open>QEMU_UMEM_REQ_*\<close> come from
  \<^verbatim>\<open>migration/postcopy.h\<close>, which is not part of the sources at hand; the functions that
  put or peek the byte take the coding as a parameter (\<open>enc\<close>, \<open>dec\<close>). Any other byte is
  \<open>QEMU_UMEM_REQ_OTHER\<close>, the \<^verbatim>\<open>default:\<close> branch of every \<^verbatim>\<open>switch\<close>.
\<close>

datatype umem_cmd =
    QEMU_UMEM_REQ_EOC
  | QEMU_UMEM_REQ_PAGE
  | QEMU_UMEM_REQ_PAGE_CONT
  | QEMU_UMEM_REQ_OTHER u8

text \<open>
  \<^verbatim>\<open>QEMUUMemReq\<close>. The C pair \<^verbatim>\<open>(nr, pgoffs)\<close> is one list: \<^verbatim>\<open>nr\<close> is its length.
  \<^verbatim>\<open>idstr\<close> is the NUL-terminated name without its terminator, so \<^verbatim>\<open>strlen(idstr)\<close>
  is the length of the list.
\<close>

record QEMUUMemReq =
  req_cmd :: umem_cmd
  req_idstr :: "u8 list"
  req_pgoffs :: "u64 list"

definition req_nr :: "QEMUUMemReq \<Rightarrow> nat" where
  "req_nr req = length (req_pgoffs req)"

definition put_be32 :: "u32 \<Rightarrow> u8 list" where
  "put_be32 w = [ucast (drop_bit 24 w), ucast (drop_bit 16 w), ucast (drop_bit 8 w), ucast w]"

definition put_be64 :: "u64 \<Rightarrow> u8 list" where
  "put_be64 w =
     [ucast (drop_bit 56 w), ucast (drop_bit 48 w), ucast (drop_bit 40 w), ucast (drop_bit 32 w),
      ucast (drop_bit 24 w), ucast (drop_bit 16 w), ucast (drop_bit 8 w), ucast w]"

text \<open>\<^verbatim>\<open>postcopy_incoming_send_req_idstr\<close>: one length byte, then the name.\<close>

definition postcopy_incoming_send_req_idstr :: "u8 list \<Rightarrow> u8 list" where
  "postcopy_incoming_send_req_idstr ids = (of_nat (length ids) :: u8) # ids"

text \<open>\<^verbatim>\<open>postcopy_incoming_send_req_pgoffs\<close>: the count as be32, then each offset as be64.\<close>

definition postcopy_incoming_send_req_pgoffs :: "u64 list \<Rightarrow> u8 list" where
  "postcopy_incoming_send_req_pgoffs pgs =
     put_be32 (of_nat (length pgs)) @ concat (map put_be64 pgs)"

text \<open>
  A message on the write side of the stream: the request handed to one call of
  \<^verbatim>\<open>postcopy_incoming_send_req_one\<close> and the bytes that call puts. The write side
  \<open>f\<close> is the list of messages put so far, oldest first.
\<close>

type_synonym frame = "QEMUUMemReq \<times> u8 list"

definition postcopy_incoming_send_req_one ::
  "(umem_cmd \<Rightarrow> u8) \<Rightarrow> frame list \<Rightarrow> QEMUUMemReq \<Rightarrow> stop + frame list" where
  "postcopy_incoming_send_req_one enc f req =
     (case req_cmd req of
        QEMU_UMEM_REQ_EOC \<Rightarrow> Inr (f @ [(req, [enc (req_cmd req)])])
      | QEMU_UMEM_REQ_PAGE \<Rightarrow>
          Inr (f @ [(req, enc (req_cmd req) # postcopy_incoming_send_req_idstr (req_idstr req)
                            @ postcopy_incoming_send_req_pgoffs (req_pgoffs req))])
      | QEMU_UMEM_REQ_PAGE_CONT \<Rightarrow>
          Inr (f @ [(req, enc (req_cmd req) # postcopy_incoming_send_req_pgoffs (req_pgoffs req))])
      | QEMU_UMEM_REQ_OTHER b \<Rightarrow> Inl Abort)"

definition MAX_PAGE_NR :: nat where
  "MAX_PAGE_NR = (32 * 1024 - 1 - 1 - 256 - 2) div 8"

text \<open>
  The \<^verbatim>\<open>while (nr > 0)\<close> loop of \<^verbatim>\<open>postcopy_file_incoming_send_req\<close>. \<open>tmp\<close> holds the
  offsets not yet sent (\<^verbatim>\<open>tmp.pgoffs\<close> advanced, \<^verbatim>\<open>nr\<close> of them left).
\<close>

function send_req_loop ::
  "(umem_cmd \<Rightarrow> u8) \<Rightarrow> frame list \<Rightarrow> QEMUUMemReq \<Rightarrow> stop + frame list" where
  "send_req_loop enc f tmp =
     (if 0 < length (req_pgoffs tmp) then
        (let n = min (length (req_pgoffs tmp)) MAX_PAGE_NR in
         case postcopy_incoming_send_req_one enc f (tmp\<lparr>req_pgoffs := take n (req_pgoffs tmp)\<rparr>) of
           Inl e \<Rightarrow> Inl e
         | Inr f' \<Rightarrow> send_req_loop enc f' (tmp\<lparr>req_pgoffs := drop n (req_pgoffs tmp)\<rparr>))
      else Inr f)"
  by pat_completeness auto
termination
  by (relation "measure (\<lambda>(enc, f, tmp). length (req_pgoffs tmp))")
     (auto simp: MAX_PAGE_NR_def)

definition postcopy_file_incoming_send_req ::
  "(umem_cmd \<Rightarrow> u8) \<Rightarrow> frame list \<Rightarrow> QEMUUMemReq \<Rightarrow> stop + frame list" where
  "postcopy_file_incoming_send_req enc f req =
     (case req_cmd req of
        QEMU_UMEM_REQ_EOC \<Rightarrow> postcopy_incoming_send_req_one enc f req
      | QEMU_UMEM_REQ_PAGE \<Rightarrow>
          (let n = min (length (req_pgoffs req)) MAX_PAGE_NR in
           case postcopy_incoming_send_req_one enc f (req\<lparr>req_pgoffs := take n (req_pgoffs req)\<rparr>) of
             Inl e \<Rightarrow> Inl e
           | Inr f' \<Rightarrow>
               send_req_loop enc f'
                 (req\<lparr>req_cmd := QEMU_UMEM_REQ_PAGE_CONT, req_pgoffs := drop n (req_pgoffs req)\<rparr>))
      | QEMU_UMEM_REQ_PAGE_CONT \<Rightarrow> send_req_loop enc f req
      | QEMU_UMEM_REQ_OTHER b \<Rightarrow> Inl Abort)"

subsection \<open>What the splitting emits\<close>

text \<open>
  The framed message of a request, in the words of the wire format: the command byte;
  for \<^verbatim>\<open>PAGE\<close> then \<^verbatim>\<open>u8 idlen\<close>, the \<^verbatim>\<open>idlen\<close> bytes of the name, \<^verbatim>\<open>u32 n\<close> and
  \<^verbatim>\<open>n\<close> times \<^verbatim>\<open>u64 pgoff\<close>; for \<^verbatim>\<open>PAGE_CONT\<close> then \<^verbatim>\<open>u32 n\<close> and \<^verbatim>\<open>n\<close> times
  \<^verbatim>\<open>u64 pgoff\<close>; for \<^verbatim>\<open>EOC\<close> nothing more. Integers are big-endian.
\<close>

definition framed :: "(umem_cmd \<Rightarrow> u8) \<Rightarrow> QEMUUMemReq \<Rightarrow> u8 list" where
  "framed enc r =
     enc (req_cmd r) #
     (case req_cmd r of
        QEMU_UMEM_REQ_PAGE \<Rightarrow>
          of_nat (length (req_idstr r)) # req_idstr r
            @ put_be32 (of_nat (length (req_pgoffs r))) @ concat (map put_be64 (req_pgoffs r))
      | QEMU_UMEM_REQ_PAGE_CONT \<Rightarrow>
          put_be32 (of_nat (length (req_pgoffs r))) @ concat (map put_be64 (req_pgoffs r))
      | _ \<Rightarrow> [])"

text \<open>A list cut into pieces of \<open>n\<close> elements, the last piece being what is left.\<close>

function chunks :: "nat \<Rightarrow> 'a list \<Rightarrow> 'a list list" where
  "chunks n xs = (if n = 0 \<or> xs = [] then [] else take n xs # chunks n (drop n xs))"
  by pat_completeness auto
termination
  by (relation "measure (\<lambda>(n, xs). length xs)") auto

declare chunks.simps [simp del]

lemma chunks_Nil [simp]: "chunks n [] = []"
  by (simp add: chunks.simps)

lemma chunks_short: "0 < n \<Longrightarrow> xs \<noteq> [] \<Longrightarrow> length xs \<le> n \<Longrightarrow> chunks n xs = [xs]"
  by (subst chunks.simps) simp

lemma chunks_step: "0 < n \<Longrightarrow> xs \<noteq> [] \<Longrightarrow> chunks n xs = take n xs # chunks n (drop n xs)"
  by (subst chunks.simps) simp

lemma concat_chunks: "0 < n \<Longrightarrow> concat (chunks n xs) = xs"
proof (induction n xs rule: chunks.induct)
  case (1 n xs)
  show ?case
  proof (cases "xs = []")
    case True
    then show ?thesis by simp
  next
    case False
    with 1 show ?thesis by (simp add: chunks_step)
  qed
qed

lemma chunks_bounds: "list_all (\<lambda>c. 0 < length c \<and> length c \<le> n) (chunks n xs)"
proof (induction n xs rule: chunks.induct)
  case (1 n xs)
  show ?case
  proof (cases "n = 0 \<or> xs = []")
    case True
    then show ?thesis by (subst chunks.simps) simp
  next
    case False
    with 1 show ?thesis by (subst chunks.simps) simp
  qed
qed

lemma MAX_PAGE_NR_value: "MAX_PAGE_NR = 4063"
  by (simp add: MAX_PAGE_NR_def)

lemma length_put_be64 [simp]: "length (put_be64 w) = 8"
  by (simp add: put_be64_def)

lemma length_put_be32 [simp]: "length (put_be32 w) = 4"
  by (simp add: put_be32_def)

lemma length_concat_put_be64 [simp]: "length (concat (map put_be64 pgs)) = 8 * length pgs"
  by (induction pgs) simp_all

lemma length_send_req_pgoffs [simp]:
  "length (postcopy_incoming_send_req_pgoffs pgs) = 4 + 8 * length pgs"
  by (simp add: postcopy_incoming_send_req_pgoffs_def)

lemma length_send_req_idstr [simp]:
  "length (postcopy_incoming_send_req_idstr ids) = 1 + length ids"
  by (simp add: postcopy_incoming_send_req_idstr_def)

text \<open>One call puts the framed message of the request it is given.\<close>

lemma send_req_one_framed:
  "postcopy_incoming_send_req_one enc f r =
     (case req_cmd r of QEMU_UMEM_REQ_OTHER b \<Rightarrow> Inl Abort | _ \<Rightarrow> Inr (f @ [(r, framed enc r)]))"
  by (simp add: postcopy_incoming_send_req_one_def framed_def postcopy_incoming_send_req_idstr_def
        postcopy_incoming_send_req_pgoffs_def split: umem_cmd.splits)

lemma length_framed:
  "length (framed enc r) =
     (case req_cmd r of
        QEMU_UMEM_REQ_PAGE \<Rightarrow> 6 + length (req_idstr r) + 8 * length (req_pgoffs r)
      | QEMU_UMEM_REQ_PAGE_CONT \<Rightarrow> 5 + 8 * length (req_pgoffs r)
      | _ \<Rightarrow> 1)"
  by (simp add: framed_def split: umem_cmd.splits)

text \<open>The loop puts one \<^verbatim>\<open>PAGE_CONT\<close> message for each piece of \<open>MAX_PAGE_NR\<close> offsets.\<close>

lemma send_req_loop_chunks:
  "req_cmd tmp = QEMU_UMEM_REQ_PAGE_CONT \<Longrightarrow>
   send_req_loop enc f tmp =
     Inr (f @ map (\<lambda>c. (tmp\<lparr>req_pgoffs := c\<rparr>, framed enc (tmp\<lparr>req_pgoffs := c\<rparr>)))
                (chunks MAX_PAGE_NR (req_pgoffs tmp)))"
proof (induction enc f tmp rule: send_req_loop.induct)
  case (1 enc f tmp)
  show ?case
  proof (cases "0 < length (req_pgoffs tmp)")
    case False
    then show ?thesis by (subst send_req_loop.simps) simp
  next
    case True
    define n where "n = min (length (req_pgoffs tmp)) MAX_PAGE_NR"
    let ?r = "tmp\<lparr>req_pgoffs := take n (req_pgoffs tmp)\<rparr>"
    let ?t = "tmp\<lparr>req_pgoffs := drop n (req_pgoffs tmp)\<rparr>"
    have one: "postcopy_incoming_send_req_one enc f ?r = Inr (f @ [(?r, framed enc ?r)])"
      using "1.prems" by (simp add: send_req_one_framed)
    have tk: "take n (req_pgoffs tmp) = take MAX_PAGE_NR (req_pgoffs tmp)"
      and dr: "drop n (req_pgoffs tmp) = drop MAX_PAGE_NR (req_pgoffs tmp)"
      by (simp_all add: n_def min_def)
    have "req_cmd ?t = QEMU_UMEM_REQ_PAGE_CONT" using "1.prems" by simp
    from "1.IH"[OF True n_def one this]
    have ih: "send_req_loop enc (f @ [(?r, framed enc ?r)]) ?t =
        Inr ((f @ [(?r, framed enc ?r)]) @
             map (\<lambda>c. (tmp\<lparr>req_pgoffs := c\<rparr>, framed enc (tmp\<lparr>req_pgoffs := c\<rparr>)))
               (chunks MAX_PAGE_NR (drop n (req_pgoffs tmp))))"
      by simp
    have ch: "chunks MAX_PAGE_NR (req_pgoffs tmp)
              = take n (req_pgoffs tmp) # chunks MAX_PAGE_NR (drop n (req_pgoffs tmp))"
      using True unfolding tk dr by (intro chunks_step) (simp_all add: MAX_PAGE_NR_def)
    show ?thesis
      using True one ih unfolding ch
      by (subst send_req_loop.simps) (simp add: n_def[symmetric] Let_def)
  qed
qed

text \<open>What \<^verbatim>\<open>postcopy_file_incoming_send_req\<close> puts, for each command.\<close>

definition split_requests :: "QEMUUMemReq \<Rightarrow> QEMUUMemReq list" where
  "split_requests req =
     (case req_cmd req of
        QEMU_UMEM_REQ_EOC \<Rightarrow> [req]
      | QEMU_UMEM_REQ_PAGE \<Rightarrow>
          req\<lparr>req_pgoffs := take MAX_PAGE_NR (req_pgoffs req)\<rparr>
          # map (\<lambda>c. req\<lparr>req_cmd := QEMU_UMEM_REQ_PAGE_CONT, req_pgoffs := c\<rparr>)
              (chunks MAX_PAGE_NR (drop MAX_PAGE_NR (req_pgoffs req)))
      | QEMU_UMEM_REQ_PAGE_CONT \<Rightarrow>
          map (\<lambda>c. req\<lparr>req_pgoffs := c\<rparr>) (chunks MAX_PAGE_NR (req_pgoffs req))
      | QEMU_UMEM_REQ_OTHER b \<Rightarrow> [])"

lemma send_req_split:
  "postcopy_file_incoming_send_req enc f req =
     (case req_cmd req of
        QEMU_UMEM_REQ_OTHER b \<Rightarrow> Inl Abort
      | _ \<Rightarrow> Inr (f @ map (\<lambda>r. (r, framed enc r)) (split_requests req)))"
proof (cases "req_cmd req")
  case QEMU_UMEM_REQ_EOC
  then show ?thesis
    by (simp add: postcopy_file_incoming_send_req_def send_req_one_framed split_requests_def)
next
  case c: QEMU_UMEM_REQ_PAGE
  define n where "n = min (length (req_pgoffs req)) MAX_PAGE_NR"
  let ?r = "req\<lparr>req_pgoffs := take n (req_pgoffs req)\<rparr>"
  let ?t = "req\<lparr>req_cmd := QEMU_UMEM_REQ_PAGE_CONT, req_pgoffs := drop n (req_pgoffs req)\<rparr>"
  have tk: "take n (req_pgoffs req) = take MAX_PAGE_NR (req_pgoffs req)"
    and dr: "drop n (req_pgoffs req) = drop MAX_PAGE_NR (req_pgoffs req)"
    by (simp_all add: n_def min_def)
  have one: "postcopy_incoming_send_req_one enc f ?r = Inr (f @ [(?r, framed enc ?r)])"
    using c by (simp add: send_req_one_framed)
  have "req_cmd ?t = QEMU_UMEM_REQ_PAGE_CONT" by simp
  from send_req_loop_chunks[OF this, of enc "f @ [(?r, framed enc ?r)]"]
  have loop: "send_req_loop enc (f @ [(?r, framed enc ?r)]) ?t =
      Inr ((f @ [(?r, framed enc ?r)]) @
           map (\<lambda>c. (req\<lparr>req_cmd := QEMU_UMEM_REQ_PAGE_CONT, req_pgoffs := c\<rparr>,
                      framed enc (req\<lparr>req_cmd := QEMU_UMEM_REQ_PAGE_CONT, req_pgoffs := c\<rparr>)))
             (chunks MAX_PAGE_NR (drop n (req_pgoffs req))))"
    by simp
  have "postcopy_file_incoming_send_req enc f req = send_req_loop enc (f @ [(?r, framed enc ?r)]) ?t"
    using c one by (simp add: postcopy_file_incoming_send_req_def n_def[symmetric] Let_def)
  then show ?thesis using c loop unfolding tk dr
    by (simp add: split_requests_def comp_def)
next
  case c: QEMU_UMEM_REQ_PAGE_CONT
  from send_req_loop_chunks[OF c, of enc f] c show ?thesis
    by (simp add: postcopy_file_incoming_send_req_def split_requests_def comp_def)
next
  case (QEMU_UMEM_REQ_OTHER b)
  then show ?thesis by (simp add: postcopy_file_incoming_send_req_def)
qed

section \<open>Source side: peek-then-skip parsing of a request\<close>

text \<open>The errno values the file names; \<open>ERRNO n\<close> is any other return of \<open>-n\<close>.\<close>

datatype errno = EAGAIN | EINVAL | ENOSYS | ERRNO int

text \<open>
  What a C function that returns \<^verbatim>\<open>0\<close> or \<^verbatim>\<open>-errno\<close> and fills an out parameter gives:
  \<open>Ok\<close> with the value, \<open>Error\<close> with the errno, or \<open>Stop\<close> when it does not return.
\<close>

datatype 'a result = Ok 'a | Error errno | Stop stop

text \<open>
  Modelled from the spec: \<^verbatim>\<open>qemu_peek_byte\<close>, \<^verbatim>\<open>qemu_peek_buffer\<close> and
  \<^verbatim>\<open>qemu_file_skip\<close> belong to the QEMUFile layer, which is not part of the sources at
  hand. The read side of a connection is its buffered bytes, \<open>peek(len, offset)\<close> gives
  the bytes at the offset cursor or fewer when the buffer is short, and \<open>skip(n)\<close>
  consumes. A byte that is not there peeks as 0.
\<close>

definition qemu_peek_buffer :: "u8 list \<Rightarrow> nat \<Rightarrow> nat \<Rightarrow> u8 list" where
  "qemu_peek_buffer f sz offset = take sz (drop offset f)"

definition qemu_peek_byte :: "u8 list \<Rightarrow> nat \<Rightarrow> u8" where
  "qemu_peek_byte f offset = (if offset < length f then f ! offset else 0)"

definition qemu_file_skip :: "u8 list \<Rightarrow> nat \<Rightarrow> u8 list" where
  "qemu_file_skip f n = drop n f"

definition be32_to_cpu :: "u8 list \<Rightarrow> u32" where
  "be32_to_cpu bs = (case bs of [a, b, c, d] \<Rightarrow>
      push_bit 24 (ucast a) OR push_bit 16 (ucast b) OR push_bit 8 (ucast c) OR ucast d
    | _ \<Rightarrow> 0)"

definition be64_to_cpu :: "u8 list \<Rightarrow> u64" where
  "be64_to_cpu bs = (case bs of [a, b, c, d, e, f, g, h] \<Rightarrow>
      push_bit 56 (ucast a) OR push_bit 48 (ucast b) OR push_bit 40 (ucast c) OR
      push_bit 32 (ucast d) OR push_bit 24 (ucast e) OR push_bit 16 (ucast f) OR
      push_bit 8 (ucast g) OR ucast h
    | _ \<Rightarrow> 0)"

text \<open>
  \<^verbatim>\<open>postcopy_outgoing_recv_req_idstr\<close>. The result is the name peeked (or the errno) and
  the advanced offset cursor.
\<close>

definition postcopy_outgoing_recv_req_idstr :: "u8 list \<Rightarrow> nat \<Rightarrow> (errno + u8 list) \<times> nat" where
  "postcopy_outgoing_recv_req_idstr f offset =
     (let len = qemu_peek_byte f offset; offset1 = offset + 1 in
      if len = 0 then (Inl EAGAIN, offset1)
      else
        let got = qemu_peek_buffer f (unat len) offset1; offset2 = offset1 + length got in
        if length got \<noteq> unat len then (Inl EAGAIN, offset2) else (Inr got, offset2))"

text \<open>The \<^verbatim>\<open>for (i = 0; i < req->nr; i++)\<close> loop of \<^verbatim>\<open>postcopy_outgoing_recv_req_pgoffs\<close>.\<close>

fun recv_req_pgoffs_loop :: "u8 list \<Rightarrow> nat \<Rightarrow> nat \<Rightarrow> (errno + u64 list) \<times> nat" where
  "recv_req_pgoffs_loop f 0 offset = (Inr [], offset)"
| "recv_req_pgoffs_loop f (Suc n) offset =
     (let got = qemu_peek_buffer f 8 offset; offset1 = offset + 8 in
      if length got \<noteq> 8 then (Inl EAGAIN, offset1)
      else case recv_req_pgoffs_loop f n offset1 of
             (Inl e, offset2) \<Rightarrow> (Inl e, offset2)
           | (Inr pgs, offset2) \<Rightarrow> (Inr (be64_to_cpu got # pgs), offset2))"

text \<open>
  \<^verbatim>\<open>g_new(uint64_t, n)\<close> of GLib does not return when the memory cannot be had: the
  process aborts. Whether an array of \<open>n\<close> offsets can be had is for the surroundings to
  say (\<open>avail\<close>); an array of no element is \<^verbatim>\<open>NULL\<close> and is always had.
\<close>

definition g_new :: "(nat \<Rightarrow> bool) \<Rightarrow> nat \<Rightarrow> bool" where
  "g_new avail n \<longleftrightarrow> n = 0 \<or> avail n"

text \<open>
  \<^verbatim>\<open>postcopy_outgoing_recv_req_pgoffs\<close>: the count is peeked, the array for that many
  offsets is allocated, and only then are the offsets peeked.
\<close>

definition postcopy_outgoing_recv_req_pgoffs ::
  "(nat \<Rightarrow> bool) \<Rightarrow> u8 list \<Rightarrow> nat \<Rightarrow> u64 list result \<times> nat" where
  "postcopy_outgoing_recv_req_pgoffs avail f offset =
     (let got = qemu_peek_buffer f 4 offset; offset1 = offset + 4 in
      if length got \<noteq> 4 then (Error EAGAIN, offset1)
      else
        let nr = unat (be32_to_cpu got) in
        if \<not> g_new avail nr then (Stop Abort, offset1)
        else case recv_req_pgoffs_loop f nr offset1 of
               (Inl e, offset2) \<Rightarrow> (Error e, offset2)
             | (Inr pgs, offset2) \<Rightarrow> (Ok pgs, offset2))"

text \<open>
  \<^verbatim>\<open>postcopy_outgoing_recv_req\<close>: the request parsed into \<open>req\<close> (or why not) and the read
  side afterwards.
\<close>

definition postcopy_outgoing_recv_req ::
  "(u8 \<Rightarrow> umem_cmd) \<Rightarrow> (nat \<Rightarrow> bool) \<Rightarrow> u8 list \<Rightarrow> QEMUUMemReq \<Rightarrow> QEMUUMemReq result \<times> u8 list" where
  "postcopy_outgoing_recv_req dec avail f req =
     (let got = qemu_peek_buffer f 1 0 in
      if length got \<le> 0 then (Error EAGAIN, f)
      else
        let c = dec (hd got); offset = 1 in
        case c of
          QEMU_UMEM_REQ_EOC \<Rightarrow> (Ok (req\<lparr>req_cmd := c\<rparr>), qemu_file_skip f offset)
        | QEMU_UMEM_REQ_PAGE \<Rightarrow>
            (case postcopy_outgoing_recv_req_idstr f offset of
               (Inl e, offset1) \<Rightarrow> (Error e, f)
             | (Inr ids, offset1) \<Rightarrow>
                 (case postcopy_outgoing_recv_req_pgoffs avail f offset1 of
                    (Error e, offset2) \<Rightarrow> (Error e, f)
                  | (Stop x, offset2) \<Rightarrow> (Stop x, f)
                  | (Ok pgs, offset2) \<Rightarrow>
                      (Ok (req\<lparr>req_cmd := c, req_idstr := ids, req_pgoffs := pgs\<rparr>),
                       qemu_file_skip f offset2)))
        | QEMU_UMEM_REQ_PAGE_CONT \<Rightarrow>
            (case postcopy_outgoing_recv_req_pgoffs avail f offset of
               (Error e, offset1) \<Rightarrow> (Error e, f)
             | (Stop x, offset1) \<Rightarrow> (Stop x, f)
             | (Ok pgs, offset1) \<Rightarrow>
                 (Ok (req\<lparr>req_cmd := c, req_pgoffs := pgs\<rparr>), qemu_file_skip f offset1))
        | QEMU_UMEM_REQ_OTHER b \<Rightarrow> (Stop Abort, f))"

subsection \<open>The parser consumes a whole request or nothing\<close>

text \<open>
  \<open>try_again dec avail f req k\<close>: with only the first \<open>k\<close> bytes of \<open>f\<close> buffered, the parser
  returns \<^verbatim>\<open>-EAGAIN\<close> and leaves the read side as it was.
\<close>

definition try_again ::
  "(u8 \<Rightarrow> umem_cmd) \<Rightarrow> (nat \<Rightarrow> bool) \<Rightarrow> u8 list \<Rightarrow> QEMUUMemReq \<Rightarrow> nat \<Rightarrow> bool" where
  "try_again dec avail f req k \<longleftrightarrow>
     postcopy_outgoing_recv_req dec avail (take k f) req = (Error EAGAIN, take k f)"

lemma len8: "length bs = 8 \<Longrightarrow> \<exists>a b c d e f g h. bs = [a, b, c, d, e, f, g, h]"
  by (auto simp: length_Suc_conv numeral_eq_Suc)

lemma len4: "length bs = 4 \<Longrightarrow> \<exists>a b c d. bs = [a, b, c, d]"
  by (auto simp: length_Suc_conv numeral_eq_Suc)

lemma put_be32_be32_to_cpu: "length bs = 4 \<Longrightarrow> put_be32 (be32_to_cpu bs) = bs"
proof -
  assume "length bs = 4"
  then obtain a b c d where bs: "bs = [a, b, c, d]" using len4 by blast
  show ?thesis unfolding bs put_be32_def be32_to_cpu_def
    apply simp
    apply (intro conjI bit_word_eqI)
       apply (auto simp: bit_simps dest: bit_imp_le_length)
    done
qed

lemma put_be64_be64_to_cpu: "length bs = 8 \<Longrightarrow> put_be64 (be64_to_cpu bs) = bs"
proof -
  assume "length bs = 8"
  then obtain a b c d e f g h where bs: "bs = [a, b, c, d, e, f, g, h]" using len8 by blast
  show ?thesis unfolding bs put_be64_def be64_to_cpu_def
    apply simp
    apply (intro conjI bit_word_eqI)
       apply (auto simp: bit_simps dest: bit_imp_le_length)
    done
qed

lemma recv_loop_ok:
  "recv_req_pgoffs_loop f n off = (Inr pgs, off') \<Longrightarrow> off \<le> length f \<Longrightarrow>
   off' = off + 8 * n \<and> off' \<le> length f \<and> length pgs = n \<and>
   concat (map put_be64 pgs) = take (8 * n) (drop off f)"
proof (induction n arbitrary: off pgs)
  case 0
  then show ?case by auto
next
  case (Suc n)
  let ?got = "qemu_peek_buffer f 8 off"
  from Suc.prems have len: "length ?got = 8"
    by (auto simp: Let_def split: if_splits)
  with Suc.prems obtain ps where ps: "recv_req_pgoffs_loop f n (off + 8) = (Inr ps, off')"
    and pgs: "pgs = be64_to_cpu ?got # ps"
    by (auto simp: Let_def split: prod.splits sum.splits)
  have "off + 8 \<le> length f" using len by (simp add: qemu_peek_buffer_def)
  from Suc.IH[OF ps this] have ih: "off' = off + 8 + 8 * n" "off' \<le> length f" "length ps = n"
    "concat (map put_be64 ps) = take (8 * n) (drop (off + 8) f)" by simp_all
  have "take (8 * Suc n) (drop off f) = take 8 (drop off f) @ take (8 * n) (drop (off + 8) f)"
    by (simp add: take_add add.commute)
  then show ?case using ih pgs put_be64_be64_to_cpu[OF len]
    by (simp add: qemu_peek_buffer_def)
qed

lemma recv_loop_short:
  "length g < off + 8 * n \<Longrightarrow> off \<le> length g \<Longrightarrow>
   fst (recv_req_pgoffs_loop g n off) = Inl EAGAIN"
proof (induction n arbitrary: off)
  case 0
  then show ?case by simp
next
  case (Suc n)
  show ?case
  proof (cases "length (qemu_peek_buffer g 8 off) = 8")
    case False
    then show ?thesis by (simp add: Let_def)
  next
    case True
    have "length g < (off + 8) + 8 * n" using Suc.prems by simp
    moreover have "off + 8 \<le> length g" using True by (simp add: qemu_peek_buffer_def)
    ultimately have "fst (recv_req_pgoffs_loop g n (off + 8)) = Inl EAGAIN" by (rule Suc.IH)
    then obtain off2 where "recv_req_pgoffs_loop g n (off + 8) = (Inl EAGAIN, off2)"
      by (cases "recv_req_pgoffs_loop g n (off + 8)") auto
    with True show ?thesis by (simp add: Let_def)
  qed
qed

lemma recv_loop_error: "recv_req_pgoffs_loop f n off = (Inl e, off') \<Longrightarrow> e = EAGAIN"
  by (induction n arbitrary: off) (auto simp: Let_def split: if_splits prod.splits sum.splits)

lemma recv_loop_prefix:
  "off + 8 * n \<le> k \<Longrightarrow> recv_req_pgoffs_loop (take k f) n off = recv_req_pgoffs_loop f n off"
proof (induction n arbitrary: off)
  case 0
  then show ?case by simp
next
  case (Suc n)
  have "qemu_peek_buffer (take k f) 8 off = qemu_peek_buffer f 8 off"
    using Suc.prems by (simp add: qemu_peek_buffer_def drop_take min_def)
  moreover have "recv_req_pgoffs_loop (take k f) n (off + 8) = recv_req_pgoffs_loop f n (off + 8)"
    using Suc.prems by (intro Suc.IH) simp
  ultimately show ?case by (simp add: Let_def)
qed

lemma recv_pgoffs_ok:
  assumes "postcopy_outgoing_recv_req_pgoffs avail f off = (Ok pgs, off')"
  shows "off' = off + 4 + 8 * length pgs \<and> off' \<le> length f \<and>
         postcopy_incoming_send_req_pgoffs pgs = take (4 + 8 * length pgs) (drop off f) \<and>
         g_new avail (length pgs)"
proof -
  let ?got = "qemu_peek_buffer f 4 off"
  from assms have len: "length ?got = 4" and g: "g_new avail (unat (be32_to_cpu ?got))"
    by (auto simp: postcopy_outgoing_recv_req_pgoffs_def Let_def split: if_splits)
  with assms have loop: "recv_req_pgoffs_loop f (unat (be32_to_cpu ?got)) (off + 4) = (Inr pgs, off')"
    by (auto simp: postcopy_outgoing_recv_req_pgoffs_def Let_def split: prod.splits sum.splits)
  have "off + 4 \<le> length f" using len by (simp add: qemu_peek_buffer_def)
  from recv_loop_ok[OF loop this]
  have r: "off' = off + 4 + 8 * length pgs" "off' \<le> length f"
    "length pgs = unat (be32_to_cpu ?got)"
    "concat (map put_be64 pgs) = take (8 * length pgs) (drop (off + 4) f)" by simp_all
  have "put_be32 (of_nat (length pgs)) = ?got"
    using r(3) put_be32_be32_to_cpu[OF len] by simp
  moreover have "take (4 + 8 * length pgs) (drop off f)
                 = take 4 (drop off f) @ take (8 * length pgs) (drop (off + 4) f)"
    by (simp add: take_add add.commute)
  ultimately show ?thesis using r g
    by (simp add: postcopy_incoming_send_req_pgoffs_def qemu_peek_buffer_def)
qed

lemma recv_pgoffs_error:
  "postcopy_outgoing_recv_req_pgoffs avail f off = (Error e, off') \<Longrightarrow> e = EAGAIN"
  by (auto simp: postcopy_outgoing_recv_req_pgoffs_def Let_def
           split: if_splits prod.splits sum.splits dest: recv_loop_error)

text \<open>The one way the offsets stop the parser: the count is buffered and its array cannot be had.\<close>

lemma recv_pgoffs_stop:
  "postcopy_outgoing_recv_req_pgoffs avail f off = (Stop x, off') \<longleftrightarrow>
     x = Abort \<and> off' = off + 4 \<and> off + 4 \<le> length f \<and>
     \<not> g_new avail (unat (be32_to_cpu (take 4 (drop off f))))"
  by (auto simp: postcopy_outgoing_recv_req_pgoffs_def qemu_peek_buffer_def Let_def
           split: if_splits prod.splits sum.splits)

lemma recv_pgoffs_short:
  assumes "postcopy_outgoing_recv_req_pgoffs avail f off = (Ok pgs, off')" "k < off'" "off \<le> k"
  shows "fst (postcopy_outgoing_recv_req_pgoffs avail (take k f) off) = Error EAGAIN"
proof (cases "k < off + 4")
  case True
  then have "length (qemu_peek_buffer (take k f) 4 off) \<noteq> 4"
    by (simp add: qemu_peek_buffer_def)
  then show ?thesis by (simp add: postcopy_outgoing_recv_req_pgoffs_def Let_def)
next
  case False
  let ?got = "qemu_peek_buffer f 4 off"
  from assms have len: "length ?got = 4" and g: "g_new avail (unat (be32_to_cpu ?got))"
    by (auto simp: postcopy_outgoing_recv_req_pgoffs_def Let_def split: if_splits)
  with assms have loop: "recv_req_pgoffs_loop f (unat (be32_to_cpu ?got)) (off + 4) = (Inr pgs, off')"
    by (auto simp: postcopy_outgoing_recv_req_pgoffs_def Let_def split: prod.splits sum.splits)
  have le: "off + 4 \<le> length f" using len by (simp add: qemu_peek_buffer_def)
  from recv_loop_ok[OF loop le]
  have r: "off' = off + 4 + 8 * unat (be32_to_cpu ?got)" "off' \<le> length f" by simp_all
  have same: "qemu_peek_buffer (take k f) 4 off = ?got"
    using False by (simp add: qemu_peek_buffer_def drop_take min_def)
  have "length (take k f) < (off + 4) + 8 * unat (be32_to_cpu ?got)" "off + 4 \<le> length (take k f)"
    using assms(2) r False by simp_all
  from recv_loop_short[OF this]
  obtain o2 where "recv_req_pgoffs_loop (take k f) (unat (be32_to_cpu ?got)) (off + 4) = (Inl EAGAIN, o2)"
    by (cases "recv_req_pgoffs_loop (take k f) (unat (be32_to_cpu ?got)) (off + 4)") auto
  then show ?thesis
    using len same g by (simp add: postcopy_outgoing_recv_req_pgoffs_def Let_def)
qed

lemma recv_pgoffs_prefix:
  assumes "postcopy_outgoing_recv_req_pgoffs avail f off = (Ok pgs, off')" "off' \<le> k"
  shows "postcopy_outgoing_recv_req_pgoffs avail (take k f) off = (Ok pgs, off')"
proof -
  let ?got = "qemu_peek_buffer f 4 off"
  from assms have len: "length ?got = 4" and g: "g_new avail (unat (be32_to_cpu ?got))"
    by (auto simp: postcopy_outgoing_recv_req_pgoffs_def Let_def split: if_splits)
  with assms have loop: "recv_req_pgoffs_loop f (unat (be32_to_cpu ?got)) (off + 4) = (Inr pgs, off')"
    by (auto simp: postcopy_outgoing_recv_req_pgoffs_def Let_def split: prod.splits sum.splits)
  have le: "off + 4 \<le> length f" using len by (simp add: qemu_peek_buffer_def)
  from recv_loop_ok[OF loop le]
  have r: "off' = off + 4 + 8 * unat (be32_to_cpu ?got)" by simp
  have same: "qemu_peek_buffer (take k f) 4 off = ?got"
    using r assms(2) by (simp add: qemu_peek_buffer_def drop_take min_def)
  have "recv_req_pgoffs_loop (take k f) (unat (be32_to_cpu ?got)) (off + 4) = (Inr pgs, off')"
    using recv_loop_prefix[of "off + 4" "unat (be32_to_cpu ?got)" k f] r assms(2) loop by simp
  then show ?thesis using len same g by (simp add: postcopy_outgoing_recv_req_pgoffs_def Let_def)
qed


lemma recv_idstr_ok:
  assumes "postcopy_outgoing_recv_req_idstr f off = (Inr ids, off')"
  shows "off' = off + 1 + length ids \<and> off' \<le> length f \<and>
         postcopy_incoming_send_req_idstr ids = take (1 + length ids) (drop off f)"
proof -
  let ?len = "qemu_peek_byte f off"
  let ?got = "qemu_peek_buffer f (unat ?len) (off + 1)"
  from assms have nz: "?len \<noteq> 0" and len: "length ?got = unat ?len" and ids: "ids = ?got"
    and off': "off' = off + 1 + length ?got"
    by (auto simp: postcopy_outgoing_recv_req_idstr_def Let_def split: if_splits)
  have "0 < unat ?len" using nz by (simp add: unat_gt_0)
  with len have le: "off + 1 + unat ?len \<le> length f"
    by (simp add: qemu_peek_buffer_def min_def split: if_splits)
  then have lt: "off < length f" by simp
  have byte: "f ! off = ?len" using lt by (simp add: qemu_peek_byte_def)
  have "take (1 + length ids) (drop off f) = f ! off # take (length ids) (drop (off + 1) f)"
    using lt by (simp add: take_Suc_conv_app_nth Cons_nth_drop_Suc[symmetric])
  moreover have "(of_nat (length ids) :: u8) = ?len" using ids len by simp
  moreover have "take (length ids) (drop (off + 1) f) = ids"
    using ids len by (simp add: qemu_peek_buffer_def)
  ultimately show ?thesis using off' ids len le byte
    by (simp add: postcopy_incoming_send_req_idstr_def)
qed

lemma recv_idstr_error:
  "postcopy_outgoing_recv_req_idstr f off = (Inl e, off') \<Longrightarrow> e = EAGAIN"
  by (auto simp: postcopy_outgoing_recv_req_idstr_def Let_def split: if_splits)

lemma recv_idstr_prefix:
  assumes "postcopy_outgoing_recv_req_idstr f off = (Inr ids, off')" "off' \<le> k"
  shows "postcopy_outgoing_recv_req_idstr (take k f) off = (Inr ids, off')"
proof -
  from recv_idstr_ok[OF assms(1)] have r: "off' = off + 1 + length ids" "off' \<le> length f" by simp_all
  let ?len = "qemu_peek_byte f off"
  from assms(1) have nz: "?len \<noteq> 0"
    and len: "length (qemu_peek_buffer f (unat ?len) (off + 1)) = unat ?len"
    and ids: "ids = qemu_peek_buffer f (unat ?len) (off + 1)"
    by (auto simp: postcopy_outgoing_recv_req_idstr_def Let_def split: if_splits)
  have b: "qemu_peek_byte (take k f) off = ?len"
    using r assms(2) by (simp add: qemu_peek_byte_def)
  have "qemu_peek_buffer (take k f) (unat ?len) (off + 1) = ids"
    using r assms(2) ids len by (simp add: qemu_peek_buffer_def drop_take min_def)
  with b nz len ids r show ?thesis
    by (simp add: postcopy_outgoing_recv_req_idstr_def Let_def)
qed

lemma recv_idstr_short:
  assumes "postcopy_outgoing_recv_req_idstr f off = (Inr ids, off')" "k < off'"
  shows "fst (postcopy_outgoing_recv_req_idstr (take k f) off) = Inl EAGAIN"
proof (cases "k \<le> off")
  case True
  then have "qemu_peek_byte (take k f) off = 0" by (simp add: qemu_peek_byte_def)
  then show ?thesis by (simp add: postcopy_outgoing_recv_req_idstr_def Let_def)
next
  case False
  from recv_idstr_ok[OF assms(1)] have r: "off' = off + 1 + length ids" "off' \<le> length f" by simp_all
  let ?len = "qemu_peek_byte f off"
  from assms(1) have len: "length (qemu_peek_buffer f (unat ?len) (off + 1)) = unat ?len"
    and ids: "ids = qemu_peek_buffer f (unat ?len) (off + 1)"
    by (auto simp: postcopy_outgoing_recv_req_idstr_def Let_def split: if_splits)
  have b: "qemu_peek_byte (take k f) off = ?len"
    using r False by (simp add: qemu_peek_byte_def)
  have "length (qemu_peek_buffer (take k f) (unat ?len) (off + 1)) \<noteq> unat ?len"
    using r assms(2) False ids len by (simp add: qemu_peek_buffer_def min_def)
  with b show ?thesis
    by (simp add: postcopy_outgoing_recv_req_idstr_def Let_def)
qed

lemma recv_req_unfold:
  "f \<noteq> [] \<Longrightarrow> postcopy_outgoing_recv_req dec avail f req =
     (case dec (hd f) of
          QEMU_UMEM_REQ_EOC \<Rightarrow> (Ok (req\<lparr>req_cmd := dec (hd f)\<rparr>), drop 1 f)
        | QEMU_UMEM_REQ_PAGE \<Rightarrow>
            (case postcopy_outgoing_recv_req_idstr f 1 of
               (Inl e, offset1) \<Rightarrow> (Error e, f)
             | (Inr ids, offset1) \<Rightarrow>
                 (case postcopy_outgoing_recv_req_pgoffs avail f offset1 of
                    (Error e, offset2) \<Rightarrow> (Error e, f)
                  | (Stop x, offset2) \<Rightarrow> (Stop x, f)
                  | (Ok pgs, offset2) \<Rightarrow>
                      (Ok (req\<lparr>req_cmd := dec (hd f), req_idstr := ids, req_pgoffs := pgs\<rparr>),
                       drop offset2 f)))
        | QEMU_UMEM_REQ_PAGE_CONT \<Rightarrow>
            (case postcopy_outgoing_recv_req_pgoffs avail f 1 of
               (Error e, offset1) \<Rightarrow> (Error e, f)
             | (Stop x, offset1) \<Rightarrow> (Stop x, f)
             | (Ok pgs, offset1) \<Rightarrow>
                 (Ok (req\<lparr>req_cmd := dec (hd f), req_pgoffs := pgs\<rparr>), drop offset1 f))
        | QEMU_UMEM_REQ_OTHER b \<Rightarrow> (Stop Abort, f))"
proof -
  assume "f \<noteq> []"
  then have "\<not> length (qemu_peek_buffer f 1 0) \<le> 0" and "hd (qemu_peek_buffer f 1 0) = hd f"
    by (cases f; simp add: qemu_peek_buffer_def)+
  then show ?thesis
    by (simp add: postcopy_outgoing_recv_req_def qemu_file_skip_def Let_def
          split: umem_cmd.split prod.split sum.split result.split)
qed

lemma recv_req_nil: "postcopy_outgoing_recv_req dec avail [] req = (Error EAGAIN, [])"
  by (simp add: postcopy_outgoing_recv_req_def qemu_peek_buffer_def)

lemma take_split: "a \<le> b \<Longrightarrow> take b f = take a f @ take (b - a) (drop a f)"
  using take_add[of a "b - a" f] by simp

lemma recv_req_page_ok:
  assumes ne: "f \<noteq> []" and c: "dec (hd f) = QEMU_UMEM_REQ_PAGE"
    and i: "postcopy_outgoing_recv_req_idstr f 1 = (Inr ids, o1)"
    and p: "postcopy_outgoing_recv_req_pgoffs avail f o1 = (Ok pgs, o2)"
  shows "f = (hd f # postcopy_incoming_send_req_idstr ids @ postcopy_incoming_send_req_pgoffs pgs)
             @ drop o2 f"
    and "o2 = length (hd f # postcopy_incoming_send_req_idstr ids
                        @ postcopy_incoming_send_req_pgoffs pgs)"
    and "k < o2 \<Longrightarrow> try_again dec avail f req k"
proof -
  from recv_idstr_ok[OF i] have ri: "o1 = 2 + length ids" "o1 \<le> length f"
    "postcopy_incoming_send_req_idstr ids = take (1 + length ids) (drop 1 f)" by simp_all
  from recv_pgoffs_ok[OF p] have rp: "o2 = o1 + 4 + 8 * length pgs" "o2 \<le> length f"
    "postcopy_incoming_send_req_pgoffs pgs = take (4 + 8 * length pgs) (drop o1 f)" by simp_all
  have "take o2 f = take 1 f @ take (o1 - 1) (drop 1 f) @ take (o2 - o1) (drop o1 f)"
    using ri(1) rp(1) take_split[of 1 o2 f] take_split[of "o1 - 1" "o2 - 1" "drop 1 f"]
    by simp
  moreover have "take 1 f = [hd f]" using ne by (cases f) simp_all
  ultimately have t: "take o2 f = hd f # postcopy_incoming_send_req_idstr ids
                          @ postcopy_incoming_send_req_pgoffs pgs"
    using ri rp by simp
  show "f = (hd f # postcopy_incoming_send_req_idstr ids @ postcopy_incoming_send_req_pgoffs pgs)
             @ drop o2 f"
    using t append_take_drop_id[of o2 f] by simp
  show "o2 = length (hd f # postcopy_incoming_send_req_idstr ids
                        @ postcopy_incoming_send_req_pgoffs pgs)"
    using ri(1) rp(1) by simp
  show "try_again dec avail f req k" if k: "k < o2"
  proof (cases "k = 0")
    case True
    then show ?thesis by (simp add: try_again_def recv_req_nil)
  next
    case False
    then have ne': "take k f \<noteq> []" and hd': "hd (take k f) = hd f"
      using ne by (cases f; cases k; simp)+
    show ?thesis
    proof (cases "k < o1")
      case True
      from recv_idstr_short[OF i True]
      obtain x where "postcopy_outgoing_recv_req_idstr (take k f) 1 = (Inl EAGAIN, x)"
        by (cases "postcopy_outgoing_recv_req_idstr (take k f) 1") auto
      then show ?thesis using c hd' by (simp add: try_again_def recv_req_unfold[OF ne'])
    next
      case False
      then have le: "o1 \<le> k" by simp
      from recv_pgoffs_short[OF p k le]
      obtain x where "postcopy_outgoing_recv_req_pgoffs avail (take k f) o1 = (Error EAGAIN, x)"
        by (cases "postcopy_outgoing_recv_req_pgoffs avail (take k f) o1") auto
      then show ?thesis using c hd' recv_idstr_prefix[OF i le]
        by (simp add: try_again_def recv_req_unfold[OF ne'])
    qed
  qed
qed

lemma recv_req_cont_ok:
  assumes ne: "f \<noteq> []" and c: "dec (hd f) = QEMU_UMEM_REQ_PAGE_CONT"
    and p: "postcopy_outgoing_recv_req_pgoffs avail f 1 = (Ok pgs, o2)"
  shows "f = (hd f # postcopy_incoming_send_req_pgoffs pgs) @ drop o2 f"
    and "o2 = length (hd f # postcopy_incoming_send_req_pgoffs pgs)"
    and "k < o2 \<Longrightarrow> try_again dec avail f req k"
proof -
  from recv_pgoffs_ok[OF p] have rp: "o2 = 5 + 8 * length pgs" "o2 \<le> length f"
    "postcopy_incoming_send_req_pgoffs pgs = take (4 + 8 * length pgs) (drop 1 f)" by simp_all
  have "take o2 f = take 1 f @ take (o2 - 1) (drop 1 f)"
    using rp(1) take_split[of 1 o2 f] by simp
  moreover have "take 1 f = [hd f]" using ne by (cases f) simp_all
  ultimately have t: "take o2 f = hd f # postcopy_incoming_send_req_pgoffs pgs"
    using rp by simp
  show "f = (hd f # postcopy_incoming_send_req_pgoffs pgs) @ drop o2 f"
    using t append_take_drop_id[of o2 f] by simp
  show "o2 = length (hd f # postcopy_incoming_send_req_pgoffs pgs)"
    using rp(1) by simp
  show "try_again dec avail f req k" if k: "k < o2"
  proof (cases "k = 0")
    case True
    then show ?thesis by (simp add: try_again_def recv_req_nil)
  next
    case False
    then have ne': "take k f \<noteq> []" and hd': "hd (take k f) = hd f"
      using ne by (cases f; cases k; simp)+
    from False have le: "1 \<le> k" by simp
    from recv_pgoffs_short[OF p k le]
    obtain x where "postcopy_outgoing_recv_req_pgoffs avail (take k f) 1 = (Error EAGAIN, x)"
      by (cases "postcopy_outgoing_recv_req_pgoffs avail (take k f) 1") auto
    then show ?thesis using c hd'
      by (simp add: try_again_def recv_req_unfold[OF ne'])
  qed
qed

subsection \<open>What was put is what is parsed\<close>


lemma byte_bit:
  fixes a :: u64
  assumes "k \<le> n" "n < k + 8"
  shows "bit (ucast (drop_bit k a) :: u8) (n - k) = bit a n"
proof -
  from assms have "n - k < 8" by linarith
  with assms show ?thesis by (simp add: bit_simps)
qed

lemma put_be64_inj:
  assumes "put_be64 a = put_be64 b"
  shows "a = b"
proof (rule bit_word_eqI)
  fix n assume "n < LENGTH(64)"
  then have n: "n < 64" by simp
  from assms have e:
    "(ucast (drop_bit 56 a) :: u8) = ucast (drop_bit 56 b)"
    "(ucast (drop_bit 48 a) :: u8) = ucast (drop_bit 48 b)"
    "(ucast (drop_bit 40 a) :: u8) = ucast (drop_bit 40 b)"
    "(ucast (drop_bit 32 a) :: u8) = ucast (drop_bit 32 b)"
    "(ucast (drop_bit 24 a) :: u8) = ucast (drop_bit 24 b)"
    "(ucast (drop_bit 16 a) :: u8) = ucast (drop_bit 16 b)"
    "(ucast (drop_bit 8 a) :: u8) = ucast (drop_bit 8 b)"
    "(ucast (drop_bit 0 a) :: u8) = ucast (drop_bit 0 b)"
    by (simp_all add: put_be64_def)
  have step: "bit a n = bit b n"
    if "(ucast (drop_bit k a) :: u8) = ucast (drop_bit k b)" "k \<le> n" "n < k + 8" for k
    using byte_bit[OF that(2,3), of a] byte_bit[OF that(2,3), of b] that(1) by simp
  consider "n < 8" | "8 \<le> n \<and> n < 16" | "16 \<le> n \<and> n < 24" | "24 \<le> n \<and> n < 32"
    | "32 \<le> n \<and> n < 40" | "40 \<le> n \<and> n < 48" | "48 \<le> n \<and> n < 56" | "56 \<le> n \<and> n < 64"
    using n by linarith
  then show "bit a n = bit b n"
  proof cases
    case 1 then show ?thesis using step[OF e(8)] by simp
  next
    case 2 then show ?thesis using step[OF e(7)] by simp
  next
    case 3 then show ?thesis using step[OF e(6)] by simp
  next
    case 4 then show ?thesis using step[OF e(5)] by simp
  next
    case 5 then show ?thesis using step[OF e(4)] by simp
  next
    case 6 then show ?thesis using step[OF e(3)] by simp
  next
    case 7 then show ?thesis using step[OF e(2)] by simp
  next
    case 8 then show ?thesis using step[OF e(1)] by simp
  qed
qed

lemma byte_bit32:
  fixes a :: u32
  assumes "k \<le> n" "n < k + 8"
  shows "bit (ucast (drop_bit k a) :: u8) (n - k) = bit a n"
proof -
  from assms have "n - k < 8" by linarith
  with assms show ?thesis by (simp add: bit_simps)
qed

lemma put_be32_inj:
  assumes "put_be32 a = put_be32 b"
  shows "a = b"
proof (rule bit_word_eqI)
  fix n assume "n < LENGTH(32)"
  then have n: "n < 32" by simp
  from assms have e:
    "(ucast (drop_bit 24 a) :: u8) = ucast (drop_bit 24 b)"
    "(ucast (drop_bit 16 a) :: u8) = ucast (drop_bit 16 b)"
    "(ucast (drop_bit 8 a) :: u8) = ucast (drop_bit 8 b)"
    "(ucast (drop_bit 0 a) :: u8) = ucast (drop_bit 0 b)"
    by (simp_all add: put_be32_def)
  have step: "bit a n = bit b n"
    if "(ucast (drop_bit k a) :: u8) = ucast (drop_bit k b)" "k \<le> n" "n < k + 8" for k
    using byte_bit32[OF that(2,3), of a] byte_bit32[OF that(2,3), of b] that(1) by simp
  consider "n < 8" | "8 \<le> n \<and> n < 16" | "16 \<le> n \<and> n < 24" | "24 \<le> n \<and> n < 32"
    using n by linarith
  then show "bit a n = bit b n"
  proof cases
    case 1 then show ?thesis using step[OF e(4)] by simp
  next
    case 2 then show ?thesis using step[OF e(3)] by simp
  next
    case 3 then show ?thesis using step[OF e(2)] by simp
  next
    case 4 then show ?thesis using step[OF e(1)] by simp
  qed
qed

lemma be64_to_cpu_put_be64 [simp]: "be64_to_cpu (put_be64 w) = w"
proof -
  have "put_be64 (be64_to_cpu (put_be64 w)) = put_be64 w"
    by (rule put_be64_be64_to_cpu) simp
  then show ?thesis by (rule put_be64_inj)
qed

lemma be32_to_cpu_put_be32 [simp]: "be32_to_cpu (put_be32 w) = w"
proof -
  have "put_be32 (be32_to_cpu (put_be32 w)) = put_be32 w"
    by (rule put_be32_be32_to_cpu) simp
  then show ?thesis by (rule put_be32_inj)
qed

text \<open>What was put is parsed: the offsets, the count with them, the name.\<close>

lemma recv_loop_put:
  "drop off f = concat (map put_be64 pgs) @ rest \<Longrightarrow> off \<le> length f \<Longrightarrow>
   recv_req_pgoffs_loop f (length pgs) off = (Inr pgs, off + 8 * length pgs)"
proof (induction pgs arbitrary: off)
  case Nil
  then show ?case by simp
next
  case (Cons p ps)
  have d: "drop off f = put_be64 p @ (concat (map put_be64 ps) @ rest)"
    using Cons.prems(1) by simp
  then have got: "qemu_peek_buffer f 8 off = put_be64 p"
    by (simp add: qemu_peek_buffer_def)
  have "drop (off + 8) f = drop 8 (drop off f)" by (simp add: add.commute)
  with d have d8: "drop (off + 8) f = concat (map put_be64 ps) @ rest" by simp
  have "length (drop off f) \<ge> 8" using d by simp
  then have le: "off + 8 \<le> length f" by simp
  from Cons.IH[OF d8 le] got show ?case by (simp add: Let_def)
qed

lemma recv_pgoffs_put:
  assumes d: "drop off f = postcopy_incoming_send_req_pgoffs pgs @ rest"
    and n: "length pgs < 2 ^ 32" and g: "g_new avail (length pgs)"
  shows "postcopy_outgoing_recv_req_pgoffs avail f off = (Ok pgs, off + 4 + 8 * length pgs)"
proof -
  have d': "drop off f = put_be32 (of_nat (length pgs)) @ (concat (map put_be64 pgs) @ rest)"
    using d by (simp add: postcopy_incoming_send_req_pgoffs_def)
  then have got: "qemu_peek_buffer f 4 off = put_be32 (of_nat (length pgs))"
    by (simp add: qemu_peek_buffer_def)
  have nr: "unat (of_nat (length pgs) :: u32) = length pgs"
    using n by (simp add: unat_of_nat)
  have "drop (off + 4) f = drop 4 (drop off f)" by (simp add: add.commute)
  with d' have d4: "drop (off + 4) f = concat (map put_be64 pgs) @ rest" by simp
  have "length (drop off f) \<ge> 4" using d' by simp
  then have le: "off + 4 \<le> length f" by simp
  from recv_loop_put[OF d4 le] got nr g show ?thesis
    by (simp add: postcopy_outgoing_recv_req_pgoffs_def Let_def)
qed

lemma recv_idstr_put:
  assumes d: "drop off f = postcopy_incoming_send_req_idstr ids @ rest"
    and n: "0 < length ids" "length ids < 256"
  shows "postcopy_outgoing_recv_req_idstr f off = (Inr ids, off + 1 + length ids)"
proof -
  have d': "drop off f = of_nat (length ids) # (ids @ rest)"
    using d by (simp add: postcopy_incoming_send_req_idstr_def)
  then have lt: "off < length f" by (metis drop_eq_Nil2 list.distinct(1) not_le)
  from d' have byte: "f ! off = of_nat (length ids)"
    by (metis Cons_nth_drop_Suc list.inject lt)
  have len: "unat (of_nat (length ids) :: u8) = length ids"
    using n(2) by (simp add: unat_of_nat)
  then have nz: "(of_nat (length ids) :: u8) \<noteq> 0" using n(1) by (metis unat_0 less_irrefl)
  have "drop (off + 1) f = drop 1 (drop off f)" by (simp add: add.commute)
  with d' have "drop (off + 1) f = ids @ rest" by simp
  then have got: "qemu_peek_buffer f (length ids) (off + 1) = ids"
    by (simp add: qemu_peek_buffer_def)
  show ?thesis using lt byte len nz got
    by (simp add: postcopy_outgoing_recv_req_idstr_def qemu_peek_byte_def Let_def)
qed



text \<open>
  The request that the parser hands back for a request \<open>req\<close> that was put, parsed into
  \<open>req0\<close>: the fields that the command does not carry keep what \<open>req0\<close> had.
\<close>

definition received :: "QEMUUMemReq \<Rightarrow> QEMUUMemReq \<Rightarrow> QEMUUMemReq" where
  "received req0 req =
     (case req_cmd req of
        QEMU_UMEM_REQ_EOC \<Rightarrow> req0\<lparr>req_cmd := QEMU_UMEM_REQ_EOC\<rparr>
      | QEMU_UMEM_REQ_PAGE \<Rightarrow> req
      | QEMU_UMEM_REQ_PAGE_CONT \<Rightarrow>
          req0\<lparr>req_cmd := QEMU_UMEM_REQ_PAGE_CONT, req_pgoffs := req_pgoffs req\<rparr>
      | QEMU_UMEM_REQ_OTHER b \<Rightarrow> req0)"

text \<open>
  The count of offsets that the buffered bytes announce, once the count field of a
  \<^verbatim>\<open>PAGE\<close> or \<^verbatim>\<open>PAGE_CONT\<close> message is buffered whole: after the command byte, and for
  \<^verbatim>\<open>PAGE\<close> after a name of one byte at least that is buffered whole.
\<close>

definition announced :: "(u8 \<Rightarrow> umem_cmd) \<Rightarrow> u8 list \<Rightarrow> nat option" where
  "announced dec f =
     (if f = [] then None
      else case dec (hd f) of
        QEMU_UMEM_REQ_PAGE_CONT \<Rightarrow>
          (if length f < 5 then None else Some (unat (be32_to_cpu (take 4 (drop 1 f)))))
      | QEMU_UMEM_REQ_PAGE \<Rightarrow>
          (if length f < 2 then None
           else if f ! 1 = 0 \<or> length f < 2 + unat (f ! 1) + 4 then None
           else Some (unat (be32_to_cpu (take 4 (drop (2 + unat (f ! 1)) f)))))
      | _ \<Rightarrow> None)"

lemma recv_req_put:
  assumes one: "postcopy_incoming_send_req_one enc [] req = Inr [(req, wire)]"
    and dec: "dec (enc (req_cmd req)) = req_cmd req"
    and wf: "req_cmd req = QEMU_UMEM_REQ_PAGE \<longrightarrow>
               0 < length (req_idstr req) \<and> length (req_idstr req) < 256"
    and n: "length (req_pgoffs req) < 2 ^ 32"
    and g: "g_new avail (length (req_pgoffs req))"
  shows "postcopy_outgoing_recv_req dec avail (wire @ rest) req0 = (Ok (received req0 req), rest)"
proof (cases "req_cmd req")
  case QEMU_UMEM_REQ_EOC
  with one have w: "wire = [enc QEMU_UMEM_REQ_EOC]"
    by (simp add: postcopy_incoming_send_req_one_def)
  have ne: "wire @ rest \<noteq> []" using w by simp
  have "dec (hd (wire @ rest)) = QEMU_UMEM_REQ_EOC" "drop 1 (wire @ rest) = rest"
    using QEMU_UMEM_REQ_EOC dec w by simp_all
  then show ?thesis unfolding recv_req_unfold[OF ne] using QEMU_UMEM_REQ_EOC
    by (simp add: received_def)
next
  case c: QEMU_UMEM_REQ_PAGE
  with one have w: "wire = enc QEMU_UMEM_REQ_PAGE # postcopy_incoming_send_req_idstr (req_idstr req)
                            @ postcopy_incoming_send_req_pgoffs (req_pgoffs req)"
    by (simp add: postcopy_incoming_send_req_one_def)
  have ne: "wire @ rest \<noteq> []" using w by simp
  have hd: "dec (hd (wire @ rest)) = QEMU_UMEM_REQ_PAGE" using w dec c by simp
  have "drop 1 (wire @ rest) = postcopy_incoming_send_req_idstr (req_idstr req)
          @ (postcopy_incoming_send_req_pgoffs (req_pgoffs req) @ rest)"
    using w by simp
  from recv_idstr_put[OF this] wf c
  have i: "postcopy_outgoing_recv_req_idstr (wire @ rest) 1 = (Inr (req_idstr req), 2 + length (req_idstr req))"
    by simp
  have "drop (2 + length (req_idstr req)) (wire @ rest)
          = postcopy_incoming_send_req_pgoffs (req_pgoffs req) @ rest"
    using w by simp
  from recv_pgoffs_put[OF this n g]
  have p: "postcopy_outgoing_recv_req_pgoffs avail (wire @ rest) (2 + length (req_idstr req))
             = (Ok (req_pgoffs req), 2 + length (req_idstr req) + 4 + 8 * length (req_pgoffs req))" .
  have "length wire = 2 + length (req_idstr req) + 4 + 8 * length (req_pgoffs req)"
    using w by simp
  then have "drop (2 + length (req_idstr req) + 4 + 8 * length (req_pgoffs req)) (wire @ rest) = rest"
    by (metis append_eq_conv_conj)
  moreover have "req0\<lparr>req_cmd := QEMU_UMEM_REQ_PAGE, req_idstr := req_idstr req,
                      req_pgoffs := req_pgoffs req\<rparr> = req"
    using c by simp
  ultimately show ?thesis using hd i p c
    by (simp add: recv_req_unfold[OF ne] received_def)
next
  case c: QEMU_UMEM_REQ_PAGE_CONT
  with one have w: "wire = enc QEMU_UMEM_REQ_PAGE_CONT # postcopy_incoming_send_req_pgoffs (req_pgoffs req)"
    by (simp add: postcopy_incoming_send_req_one_def)
  have ne: "wire @ rest \<noteq> []" using w by simp
  have hd: "dec (hd (wire @ rest)) = QEMU_UMEM_REQ_PAGE_CONT" using w dec c by simp
  have "drop 1 (wire @ rest) = postcopy_incoming_send_req_pgoffs (req_pgoffs req) @ rest"
    using w by simp
  from recv_pgoffs_put[OF this n g]
  have p: "postcopy_outgoing_recv_req_pgoffs avail (wire @ rest) 1
             = (Ok (req_pgoffs req), 1 + 4 + 8 * length (req_pgoffs req))" .
  have "length wire = 1 + 4 + 8 * length (req_pgoffs req)"
    using w by simp
  then have "drop (1 + 4 + 8 * length (req_pgoffs req)) (wire @ rest) = rest"
    by (metis append_eq_conv_conj)
  then show ?thesis using hd p c
    by (simp add: recv_req_unfold[OF ne] received_def)
next
  case (QEMU_UMEM_REQ_OTHER b)
  with one show ?thesis by (simp add: postcopy_incoming_send_req_one_def)
qed

lemma recv_idstr_inr:
  "postcopy_outgoing_recv_req_idstr f 1 = (Inr ids, o1) \<Longrightarrow>
   2 \<le> length f \<and> f ! 1 \<noteq> 0 \<and> o1 = 2 + unat (f ! 1) \<and> o1 \<le> length f"
  by (auto simp: postcopy_outgoing_recv_req_idstr_def qemu_peek_byte_def qemu_peek_buffer_def
        Let_def min_def split: if_splits)

lemma recv_idstr_inl:
  "postcopy_outgoing_recv_req_idstr f 1 = (Inl e, o1) \<Longrightarrow>
   length f < 2 \<or> f ! 1 = 0 \<or> length f < 2 + unat (f ! 1)"
  by (auto simp: postcopy_outgoing_recv_req_idstr_def qemu_peek_byte_def qemu_peek_buffer_def
        Let_def min_def split: if_splits)

lemma recv_req_stop:
  "fst (postcopy_outgoing_recv_req dec avail f req0) = Stop x \<longleftrightarrow>
     x = Abort \<and>
     ((f \<noteq> [] \<and> (\<exists>b. dec (hd f) = QEMU_UMEM_REQ_OTHER b)) \<or>
      (\<exists>n. announced dec f = Some n \<and> \<not> g_new avail n))"
proof (cases "f = []")
  case True
  then show ?thesis by (simp add: recv_req_nil announced_def)
next
  case ne: False
  note unf = recv_req_unfold[OF ne, of dec avail req0]
  show ?thesis
  proof (cases "dec (hd f)")
    case QEMU_UMEM_REQ_EOC
    then show ?thesis using ne by (simp add: unf announced_def)
  next
    case c: QEMU_UMEM_REQ_PAGE
    show ?thesis
    proof (cases "postcopy_outgoing_recv_req_idstr f 1")
      case (Pair r1 o1)
      show ?thesis
      proof (cases r1)
        case (Inl e)
        with Pair have i: "postcopy_outgoing_recv_req_idstr f 1 = (Inl e, o1)" by simp
        from recv_idstr_inl[OF i] have "announced dec f = None"
          using ne c by (auto simp: announced_def)
        then show ?thesis using c i by (simp add: unf)
      next
        case (Inr ids)
        with Pair have i: "postcopy_outgoing_recv_req_idstr f 1 = (Inr ids, o1)" by simp
        note ri = recv_idstr_inr[OF i]
        obtain r2 o2 where p: "postcopy_outgoing_recv_req_pgoffs avail f o1 = (r2, o2)"
          by (cases "postcopy_outgoing_recv_req_pgoffs avail f o1")
        have a: "announced dec f =
                 (if length f < o1 + 4 then None
                  else Some (unat (be32_to_cpu (take 4 (drop o1 f)))))"
          using ne c ri by (simp add: announced_def)
        show ?thesis
        proof (cases r2)
          case (Ok pgs)
          with p have p': "postcopy_outgoing_recv_req_pgoffs avail f o1 = (Ok pgs, o2)" by simp
          then have "\<not> (\<exists>x. postcopy_outgoing_recv_req_pgoffs avail f o1 = (Stop x, o1 + 4))" by simp
          then have "length f < o1 + 4 \<or> g_new avail (unat (be32_to_cpu (take 4 (drop o1 f))))"
            by (auto simp: recv_pgoffs_stop)
          then show ?thesis using c i p' a by (auto simp: unf)
        next
          case (Error e)
          with p have p': "postcopy_outgoing_recv_req_pgoffs avail f o1 = (Error e, o2)" by simp
          then have "\<not> (\<exists>x. postcopy_outgoing_recv_req_pgoffs avail f o1 = (Stop x, o1 + 4))" by simp
          then have "length f < o1 + 4 \<or> g_new avail (unat (be32_to_cpu (take 4 (drop o1 f))))"
            by (auto simp: recv_pgoffs_stop)
          then show ?thesis using c i p' a by (auto simp: unf)
        next
          case (Stop y)
          with p have p': "postcopy_outgoing_recv_req_pgoffs avail f o1 = (Stop y, o2)" by simp
          then have "y = Abort \<and> o1 + 4 \<le> length f \<and>
                     \<not> g_new avail (unat (be32_to_cpu (take 4 (drop o1 f))))"
            by (simp add: recv_pgoffs_stop)
          then show ?thesis using c i p' a by (auto simp: unf)
        qed
      qed
    qed
  next
    case c: QEMU_UMEM_REQ_PAGE_CONT
    obtain r2 o2 where p: "postcopy_outgoing_recv_req_pgoffs avail f 1 = (r2, o2)"
      by (cases "postcopy_outgoing_recv_req_pgoffs avail f 1")
    have a: "announced dec f =
             (if length f < 1 + 4 then None
              else Some (unat (be32_to_cpu (take 4 (drop 1 f)))))"
      using ne c by (simp add: announced_def)
    show ?thesis
    proof (cases r2)
      case (Ok pgs)
      with p have p': "postcopy_outgoing_recv_req_pgoffs avail f 1 = (Ok pgs, o2)" by simp
      then have "\<not> (\<exists>x. postcopy_outgoing_recv_req_pgoffs avail f 1 = (Stop x, 1 + 4))" by simp
      then have "length f < 1 + 4 \<or> g_new avail (unat (be32_to_cpu (take 4 (drop 1 f))))"
        by (auto simp: recv_pgoffs_stop)
      then show ?thesis using c p' a by (auto simp: unf)
    next
      case (Error e)
      with p have p': "postcopy_outgoing_recv_req_pgoffs avail f 1 = (Error e, o2)" by simp
      then have "\<not> (\<exists>x. postcopy_outgoing_recv_req_pgoffs avail f 1 = (Stop x, 1 + 4))" by simp
      then have "length f < 1 + 4 \<or> g_new avail (unat (be32_to_cpu (take 4 (drop 1 f))))"
        by (auto simp: recv_pgoffs_stop)
      then show ?thesis using c p' a by (auto simp: unf)
    next
      case (Stop y)
      with p have p': "postcopy_outgoing_recv_req_pgoffs avail f 1 = (Stop y, o2)" by simp
      then have "y = Abort \<and> 1 + 4 \<le> length f \<and>
                 \<not> g_new avail (unat (be32_to_cpu (take 4 (drop 1 f))))"
        by (simp add: recv_pgoffs_stop)
      then show ?thesis using c p' a by (auto simp: unf)
    qed
  next
    case (QEMU_UMEM_REQ_OTHER b)
    then show ?thesis using ne by (auto simp: unf announced_def)
  qed
qed


lemma recv_req_whole:
  "case postcopy_outgoing_recv_req dec avail f req0 of
     (Ok req, f') \<Rightarrow>
        (\<exists>wire. postcopy_incoming_send_req_one (\<lambda>c. hd f) [] req = Inr [(req, wire)] \<and>
                f = wire @ f' \<and> (\<forall>k < length wire. try_again dec avail f req0 k))
   | (Error e, f') \<Rightarrow> e = EAGAIN \<and> f' = f
   | (Stop x, f') \<Rightarrow> f' = f"
proof (cases "f = []")
  case True
  then show ?thesis by (simp add: recv_req_nil)
next
  case ne: False
  note unf = recv_req_unfold[OF ne, of dec avail req0]
  show ?thesis
  proof (cases "dec (hd f)")
    case QEMU_UMEM_REQ_EOC
    have "f = [hd f] @ drop 1 f" using ne by (cases f) simp_all
    moreover have "try_again dec avail f req0 0" by (simp add: try_again_def recv_req_nil)
    ultimately show ?thesis using QEMU_UMEM_REQ_EOC
      by (simp add: unf postcopy_incoming_send_req_one_def)
  next
    case c: QEMU_UMEM_REQ_PAGE
    show ?thesis
    proof (cases "postcopy_outgoing_recv_req_idstr f 1")
      case (Pair r1 o1)
      show ?thesis
      proof (cases r1)
        case (Inl e)
        with Pair recv_idstr_error[of f 1 e o1] c show ?thesis by (simp add: unf)
      next
        case (Inr ids)
        with Pair have i: "postcopy_outgoing_recv_req_idstr f 1 = (Inr ids, o1)" by simp
        show ?thesis
        proof (cases "postcopy_outgoing_recv_req_pgoffs avail f o1")
          case (Pair r2 o2)
          show ?thesis
          proof (cases r2)
            case (Error e)
            with Pair recv_pgoffs_error[of avail f o1 e o2] c i show ?thesis by (simp add: unf)
          next
            case (Stop y)
            with Pair c i show ?thesis by (simp add: unf)
          next
            case (Ok pgs)
            with Pair have p: "postcopy_outgoing_recv_req_pgoffs avail f o1 = (Ok pgs, o2)" by simp
            note ok = recv_req_page_ok[where dec=dec, OF ne c i p]
            let ?wire = "hd f # postcopy_incoming_send_req_idstr ids
                           @ postcopy_incoming_send_req_pgoffs pgs"
            have "\<forall>k < length ?wire. try_again dec avail f req0 k"
              using ok(2) ok(3) by simp
            with ok(1) have "\<exists>wire.
                postcopy_incoming_send_req_one (\<lambda>c. hd f) []
                  (req0\<lparr>req_cmd := dec (hd f), req_idstr := ids, req_pgoffs := pgs\<rparr>)
                 = Inr [(req0\<lparr>req_cmd := dec (hd f), req_idstr := ids, req_pgoffs := pgs\<rparr>, wire)]
                \<and> f = wire @ drop o2 f \<and> (\<forall>k < length wire. try_again dec avail f req0 k)"
              using c by (intro exI[of _ ?wire]) (simp add: postcopy_incoming_send_req_one_def)
            then show ?thesis using c i p by (simp add: unf)
          qed
        qed
      qed
    qed
  next
    case c: QEMU_UMEM_REQ_PAGE_CONT
    show ?thesis
    proof (cases "postcopy_outgoing_recv_req_pgoffs avail f 1")
      case (Pair r2 o2)
      show ?thesis
      proof (cases r2)
        case (Error e)
        with Pair recv_pgoffs_error[of avail f 1 e o2] c show ?thesis by (simp add: unf)
      next
        case (Stop y)
        with Pair c show ?thesis by (simp add: unf)
      next
        case (Ok pgs)
        with Pair have p: "postcopy_outgoing_recv_req_pgoffs avail f 1 = (Ok pgs, o2)" by simp
        note ok = recv_req_cont_ok[where dec=dec, OF ne c p]
        let ?wire = "hd f # postcopy_incoming_send_req_pgoffs pgs"
        have "\<forall>k < length ?wire. try_again dec avail f req0 k"
          using ok(2) ok(3) by simp
        with ok(1) have "\<exists>wire.
            postcopy_incoming_send_req_one (\<lambda>c. hd f) []
              (req0\<lparr>req_cmd := dec (hd f), req_pgoffs := pgs\<rparr>)
             = Inr [(req0\<lparr>req_cmd := dec (hd f), req_pgoffs := pgs\<rparr>, wire)]
            \<and> f = wire @ drop o2 f \<and> (\<forall>k < length wire. try_again dec avail f req0 k)"
          using c by (intro exI[of _ ?wire]) (simp add: postcopy_incoming_send_req_one_def)
        then show ?thesis using c p by (simp add: unf)
      qed
    qed
  next
    case (QEMU_UMEM_REQ_OTHER b)
    then show ?thesis by (simp add: unf)
  qed
qed

lemma recv_req_put_prefix:
  assumes r: "postcopy_outgoing_recv_req dec avail (wire @ rest) req0 = (Ok req', rest)"
    and k: "k < length wire"
  shows "try_again dec avail (wire @ rest) req0 k"
proof -
  from recv_req_whole[where dec = dec and avail = avail and f = "wire @ rest" and ?req0.0 = req0] r
  obtain wire' where w: "wire @ rest = wire' @ rest"
    "\<forall>k < length wire'. try_again dec avail (wire @ rest) req0 k" by auto
  from w(1) have "wire' = wire" by simp
  with w(2) k show ?thesis by simp
qed

text \<open>A request that is parsed takes at least its command byte off the read side.\<close>

lemma recv_req_shorter:
  assumes "postcopy_outgoing_recv_req dec avail f req0 = (Ok req, f')"
  shows "length f' < length f"
proof -
  from recv_req_whole[where dec = dec and avail = avail and f = f and ?req0.0 = req0] assms
  obtain wire where w: "postcopy_incoming_send_req_one (\<lambda>c. hd f) [] req = Inr [(req, wire)]"
    and f: "f = wire @ f'" by auto
  from w have "wire \<noteq> []"
    by (auto simp: postcopy_incoming_send_req_one_def split: umem_cmd.splits)
  with f show ?thesis by (metis length_append length_greater_0_conv less_add_same_cancel2)
qed






subsection \<open>The messages of a split request, as the source parses them\<close>

text \<open>
  The receive loop without the handling: requests are parsed off the read side, each into
  a fresh \<open>req0\<close>, until the parser returns no request. The result is the requests in the
  order parsed and the read side that is left.
\<close>

function recv_reqs ::
  "(u8 \<Rightarrow> umem_cmd) \<Rightarrow> (nat \<Rightarrow> bool) \<Rightarrow> u8 list \<Rightarrow> QEMUUMemReq \<Rightarrow> QEMUUMemReq list \<times> u8 list" where
  "recv_reqs dec avail f req0 =
     (case postcopy_outgoing_recv_req dec avail f req0 of
        (Ok req, f') \<Rightarrow> (case recv_reqs dec avail f' req0 of (rs, g) \<Rightarrow> (req # rs, g))
      | (Error e, f') \<Rightarrow> ([], f')
      | (Stop x, f') \<Rightarrow> ([], f'))"
  by pat_completeness auto
termination
proof (relation "measure (\<lambda>(dec, avail, f, req0). length f)")
  show "wf (measure (\<lambda>(dec, avail, f, req0). length f))" by simp
next
  fix dec avail f req0 x f' req
  assume "(x, f') = postcopy_outgoing_recv_req dec avail f req0" "x = Ok req"
  then have "postcopy_outgoing_recv_req dec avail f req0 = (Ok req, f')" by simp
  then have "length f' < length f" by (rule recv_req_shorter)
  then show "((dec, avail, f', req0), (dec, avail, f, req0))
               \<in> measure (\<lambda>(dec, avail, f, req0). length f)" by simp
qed

declare recv_reqs.simps [simp del]

lemma recv_reqs_Nil: "recv_reqs dec avail [] req0 = ([], [])"
  by (subst recv_reqs.simps) (simp add: recv_req_nil)

lemma send_req_one_of_framed:
  "req_cmd r \<in> {QEMU_UMEM_REQ_EOC, QEMU_UMEM_REQ_PAGE, QEMU_UMEM_REQ_PAGE_CONT} \<Longrightarrow>
   postcopy_incoming_send_req_one enc [] r = Inr [(r, framed enc r)]"
  by (auto simp: send_req_one_framed)

lemma recv_reqs_framed:
  assumes "list_all (\<lambda>r. req_cmd r \<in> {QEMU_UMEM_REQ_EOC, QEMU_UMEM_REQ_PAGE, QEMU_UMEM_REQ_PAGE_CONT} \<and>
                        dec (enc (req_cmd r)) = req_cmd r \<and>
                        (req_cmd r = QEMU_UMEM_REQ_PAGE \<longrightarrow>
                           0 < length (req_idstr r) \<and> length (req_idstr r) < 256) \<and>
                        length (req_pgoffs r) < 2 ^ 32 \<and> g_new avail (length (req_pgoffs r))) rs"
  shows "recv_reqs dec avail (concat (map (framed enc) rs)) req0 = (map (received req0) rs, [])"
  using assms
proof (induction rs)
  case Nil
  then show ?case by (simp add: recv_reqs_Nil)
next
  case (Cons r rs)
  from Cons.prems have wf: "req_cmd r \<in> {QEMU_UMEM_REQ_EOC, QEMU_UMEM_REQ_PAGE, QEMU_UMEM_REQ_PAGE_CONT}"
    "dec (enc (req_cmd r)) = req_cmd r"
    "req_cmd r = QEMU_UMEM_REQ_PAGE \<longrightarrow> 0 < length (req_idstr r) \<and> length (req_idstr r) < 256"
    "length (req_pgoffs r) < 2 ^ 32" "g_new avail (length (req_pgoffs r))"
    by simp_all
  have "postcopy_incoming_send_req_one enc [] r = Inr [(r, framed enc r)]"
    using wf(1) by (rule send_req_one_of_framed)
  from recv_req_put[where enc = enc and dec = dec, OF this wf(2) wf(3) wf(4) wf(5)]
  have one: "postcopy_outgoing_recv_req dec avail (framed enc r @ concat (map (framed enc) rs)) req0
             = (Ok (received req0 r), concat (map (framed enc) rs))" .
  from Cons.IH Cons.prems
  have ih: "recv_reqs dec avail (concat (map (framed enc) rs)) req0 = (map (received req0) rs, [])"
    by simp
  show ?case using one ih
    by (subst recv_reqs.simps) simp
qed


lemma split_requests_wf:
  assumes "req_cmd req = QEMU_UMEM_REQ_PAGE \<or> req_cmd req = QEMU_UMEM_REQ_PAGE_CONT"
    and "req_cmd req = QEMU_UMEM_REQ_PAGE \<longrightarrow>
           0 < length (req_idstr req) \<and> length (req_idstr req) < 256"
    and "dec (enc QEMU_UMEM_REQ_PAGE) = QEMU_UMEM_REQ_PAGE"
    and "dec (enc QEMU_UMEM_REQ_PAGE_CONT) = QEMU_UMEM_REQ_PAGE_CONT"
    and av: "\<forall>n. 0 < n \<and> n \<le> MAX_PAGE_NR \<longrightarrow> avail n"
  shows "list_all (\<lambda>r. req_cmd r \<in> {QEMU_UMEM_REQ_EOC, QEMU_UMEM_REQ_PAGE, QEMU_UMEM_REQ_PAGE_CONT} \<and>
                        dec (enc (req_cmd r)) = req_cmd r \<and>
                        (req_cmd r = QEMU_UMEM_REQ_PAGE \<longrightarrow>
                           0 < length (req_idstr r) \<and> length (req_idstr r) < 256) \<and>
                        length (req_pgoffs r) < 2 ^ 32 \<and> g_new avail (length (req_pgoffs r)))
           (split_requests req)"
proof -
  have g: "g_new avail (length c) \<and> length c < 2 ^ 32" if "length c \<le> MAX_PAGE_NR" for c :: "u64 list"
    using that av by (auto simp: g_new_def MAX_PAGE_NR_def)
  have ch: "list_all (\<lambda>c. g_new avail (length c) \<and> length c < 2 ^ 32) (chunks MAX_PAGE_NR xs)"
    for xs :: "u64 list"
    using chunks_bounds[of MAX_PAGE_NR xs] g by (auto simp: list_all_iff)
  from assms(1) show ?thesis
  proof
    assume c: "req_cmd req = QEMU_UMEM_REQ_PAGE"
    have "length (take MAX_PAGE_NR (req_pgoffs req)) \<le> MAX_PAGE_NR" by simp
    from g[OF this] ch[of "drop MAX_PAGE_NR (req_pgoffs req)"] c assms(2,3,4) show ?thesis
      by (auto simp: split_requests_def list_all_iff)
  next
    assume c: "req_cmd req = QEMU_UMEM_REQ_PAGE_CONT"
    from ch[of "req_pgoffs req"] c assms(4) show ?thesis
      by (auto simp: split_requests_def list_all_iff)
  qed
qed

text \<open>
  Claim C9. Splitting a \<^verbatim>\<open>PAGE\<close> request into messages loses and duplicates nothing.
  For every request with offset list \<open>L\<close>, what is put on the stream is the framed message
  of a \<^verbatim>\<open>PAGE\<close> request with the first \<open>MAX_PAGE_NR\<close> offsets of \<open>L\<close>, followed by the
  framed messages of \<^verbatim>\<open>PAGE_CONT\<close> requests, one for each further piece of
  \<open>MAX_PAGE_NR\<close> offsets; every message has the bytes of the wire format; the offset
  arrays of these messages, concatenated in the order they were put, are \<open>L\<close>; no
  \<^verbatim>\<open>PAGE_CONT\<close> message is empty. And the bytes carry it: when the parser of the source is
  run over the bytes put (a name of 1 to 255 bytes, a coding of the command byte that it
  reads back, arrays of up to \<open>MAX_PAGE_NR\<close> offsets to be had), it parses one \<^verbatim>\<open>PAGE\<close>
  request with the name and the first piece, then one \<^verbatim>\<open>PAGE_CONT\<close> request for each
  further piece, and leaves no byte.
\<close>

theorem send_req_split_lossless:
  assumes cmd: "req_cmd req = QEMU_UMEM_REQ_PAGE"
  shows "postcopy_file_incoming_send_req enc f req =
           Inr (f @ map (\<lambda>r. (r, framed enc r))
                  (req\<lparr>req_pgoffs := take MAX_PAGE_NR (req_pgoffs req)\<rparr>
                   # map (\<lambda>c. req\<lparr>req_cmd := QEMU_UMEM_REQ_PAGE_CONT, req_pgoffs := c\<rparr>)
                       (chunks MAX_PAGE_NR (drop MAX_PAGE_NR (req_pgoffs req))))) \<and>
         take MAX_PAGE_NR (req_pgoffs req)
           @ concat (chunks MAX_PAGE_NR (drop MAX_PAGE_NR (req_pgoffs req))) = req_pgoffs req \<and>
         list_all (\<lambda>c. 0 < length c \<and> length c \<le> MAX_PAGE_NR)
           (chunks MAX_PAGE_NR (drop MAX_PAGE_NR (req_pgoffs req))) \<and>
         (0 < length (req_idstr req) \<and> length (req_idstr req) < 256 \<and>
          dec (enc QEMU_UMEM_REQ_PAGE) = QEMU_UMEM_REQ_PAGE \<and>
          dec (enc QEMU_UMEM_REQ_PAGE_CONT) = QEMU_UMEM_REQ_PAGE_CONT \<and>
          (\<forall>n. 0 < n \<and> n \<le> MAX_PAGE_NR \<longrightarrow> avail n) \<longrightarrow>
          recv_reqs dec avail
            (concat (map (framed enc)
               (req\<lparr>req_pgoffs := take MAX_PAGE_NR (req_pgoffs req)\<rparr>
                # map (\<lambda>c. req\<lparr>req_cmd := QEMU_UMEM_REQ_PAGE_CONT, req_pgoffs := c\<rparr>)
                    (chunks MAX_PAGE_NR (drop MAX_PAGE_NR (req_pgoffs req)))))) req0
          = (req\<lparr>req_pgoffs := take MAX_PAGE_NR (req_pgoffs req)\<rparr>
             # map (\<lambda>c. req0\<lparr>req_cmd := QEMU_UMEM_REQ_PAGE_CONT, req_pgoffs := c\<rparr>)
                 (chunks MAX_PAGE_NR (drop MAX_PAGE_NR (req_pgoffs req))), []))"
proof (intro conjI impI)
  have sp: "split_requests req =
      req\<lparr>req_pgoffs := take MAX_PAGE_NR (req_pgoffs req)\<rparr>
      # map (\<lambda>c. req\<lparr>req_cmd := QEMU_UMEM_REQ_PAGE_CONT, req_pgoffs := c\<rparr>)
          (chunks MAX_PAGE_NR (drop MAX_PAGE_NR (req_pgoffs req)))"
    using cmd by (simp add: split_requests_def)
  show "postcopy_file_incoming_send_req enc f req =
           Inr (f @ map (\<lambda>r. (r, framed enc r))
                  (req\<lparr>req_pgoffs := take MAX_PAGE_NR (req_pgoffs req)\<rparr>
                   # map (\<lambda>c. req\<lparr>req_cmd := QEMU_UMEM_REQ_PAGE_CONT, req_pgoffs := c\<rparr>)
                       (chunks MAX_PAGE_NR (drop MAX_PAGE_NR (req_pgoffs req)))))"
    using cmd unfolding sp[symmetric] by (simp add: send_req_split)
  have "0 < MAX_PAGE_NR" by (simp add: MAX_PAGE_NR_def)
  then show "take MAX_PAGE_NR (req_pgoffs req)
           @ concat (chunks MAX_PAGE_NR (drop MAX_PAGE_NR (req_pgoffs req))) = req_pgoffs req"
    by (simp add: concat_chunks)
  show "list_all (\<lambda>c. 0 < length c \<and> length c \<le> MAX_PAGE_NR)
           (chunks MAX_PAGE_NR (drop MAX_PAGE_NR (req_pgoffs req)))"
    by (rule chunks_bounds)
  assume a: "0 < length (req_idstr req) \<and> length (req_idstr req) < 256 \<and>
          dec (enc QEMU_UMEM_REQ_PAGE) = QEMU_UMEM_REQ_PAGE \<and>
          dec (enc QEMU_UMEM_REQ_PAGE_CONT) = QEMU_UMEM_REQ_PAGE_CONT \<and>
          (\<forall>n. 0 < n \<and> n \<le> MAX_PAGE_NR \<longrightarrow> avail n)"
  have "list_all (\<lambda>r. req_cmd r \<in> {QEMU_UMEM_REQ_EOC, QEMU_UMEM_REQ_PAGE, QEMU_UMEM_REQ_PAGE_CONT} \<and>
                        dec (enc (req_cmd r)) = req_cmd r \<and>
                        (req_cmd r = QEMU_UMEM_REQ_PAGE \<longrightarrow>
                           0 < length (req_idstr r) \<and> length (req_idstr r) < 256) \<and>
                        length (req_pgoffs r) < 2 ^ 32 \<and> g_new avail (length (req_pgoffs r)))
           (split_requests req)"
    using cmd a by (intro split_requests_wf) simp_all
  from recv_reqs_framed[OF this, of req0]
  have "recv_reqs dec avail (concat (map (framed enc) (split_requests req))) req0
          = (map (received req0) (split_requests req), [])" .
  moreover have "map (received req0) (split_requests req) =
      req\<lparr>req_pgoffs := take MAX_PAGE_NR (req_pgoffs req)\<rparr>
      # map (\<lambda>c. req0\<lparr>req_cmd := QEMU_UMEM_REQ_PAGE_CONT, req_pgoffs := c\<rparr>)
          (chunks MAX_PAGE_NR (drop MAX_PAGE_NR (req_pgoffs req)))"
    using cmd unfolding sp by (simp add: received_def comp_def)
  ultimately show "recv_reqs dec avail
            (concat (map (framed enc)
               (req\<lparr>req_pgoffs := take MAX_PAGE_NR (req_pgoffs req)\<rparr>
                # map (\<lambda>c. req\<lparr>req_cmd := QEMU_UMEM_REQ_PAGE_CONT, req_pgoffs := c\<rparr>)
                    (chunks MAX_PAGE_NR (drop MAX_PAGE_NR (req_pgoffs req)))))) req0
          = (req\<lparr>req_pgoffs := take MAX_PAGE_NR (req_pgoffs req)\<rparr>
             # map (\<lambda>c. req0\<lparr>req_cmd := QEMU_UMEM_REQ_PAGE_CONT, req_pgoffs := c\<rparr>)
                 (chunks MAX_PAGE_NR (drop MAX_PAGE_NR (req_pgoffs req))), [])"
    unfolding sp by simp
qed


lemma chunks_4063_tail:
  "chunks MAX_PAGE_NR (replicate 4063 (2 :: u64) @ [3]) = [replicate 4063 2, [3]]"
proof -
  have "chunks MAX_PAGE_NR (replicate 4063 (2 :: u64) @ [3])
        = take MAX_PAGE_NR (replicate 4063 (2 :: u64) @ [3])
          # chunks MAX_PAGE_NR (drop MAX_PAGE_NR (replicate 4063 (2 :: u64) @ [3]))"
    by (rule chunks_step) (simp_all add: MAX_PAGE_NR_value)
  moreover have "chunks MAX_PAGE_NR [3 :: u64] = [[3]]"
    by (rule chunks_short) (simp_all add: MAX_PAGE_NR_value)
  ultimately show ?thesis by (simp add: MAX_PAGE_NR_value)
qed

text \<open>
  A request of \<open>2 * 4063 + 1\<close> offsets: one \<^verbatim>\<open>PAGE\<close> message and two \<^verbatim>\<open>PAGE_CONT\<close>
  messages, the last with one offset, and the three requests that the source parses from
  their bytes.
\<close>

theorem send_req_split_lossless_witness:
  "postcopy_file_incoming_send_req
      (\<lambda>c. case c of QEMU_UMEM_REQ_EOC \<Rightarrow> 0 | QEMU_UMEM_REQ_PAGE \<Rightarrow> 1
            | QEMU_UMEM_REQ_PAGE_CONT \<Rightarrow> 2 | QEMU_UMEM_REQ_OTHER b \<Rightarrow> b) []
      \<lparr>req_cmd = QEMU_UMEM_REQ_PAGE, req_idstr = [65],
       req_pgoffs = replicate 4063 1 @ replicate 4063 2 @ [3]\<rparr>
    = Inr [(\<lparr>req_cmd = QEMU_UMEM_REQ_PAGE, req_idstr = [65], req_pgoffs = replicate 4063 1\<rparr>,
            [1, 1, 65, 0, 0, 15, 223] @ concat (map put_be64 (replicate 4063 1))),
           (\<lparr>req_cmd = QEMU_UMEM_REQ_PAGE_CONT, req_idstr = [65], req_pgoffs = replicate 4063 2\<rparr>,
            [2, 0, 0, 15, 223] @ concat (map put_be64 (replicate 4063 2))),
           (\<lparr>req_cmd = QEMU_UMEM_REQ_PAGE_CONT, req_idstr = [65], req_pgoffs = [3]\<rparr>,
            [2, 0, 0, 0, 1, 0, 0, 0, 0, 0, 0, 0, 3])] \<and>
   recv_reqs
      (\<lambda>b. if b = 0 then QEMU_UMEM_REQ_EOC else if b = 1 then QEMU_UMEM_REQ_PAGE
            else if b = 2 then QEMU_UMEM_REQ_PAGE_CONT else QEMU_UMEM_REQ_OTHER b)
      (\<lambda>n. n \<le> 4063)
      (([1, 1, 65, 0, 0, 15, 223] @ concat (map put_be64 (replicate 4063 1)))
       @ ([2, 0, 0, 15, 223] @ concat (map put_be64 (replicate 4063 2)))
       @ [2, 0, 0, 0, 1, 0, 0, 0, 0, 0, 0, 0, 3])
      \<lparr>req_cmd = QEMU_UMEM_REQ_OTHER 0, req_idstr = [], req_pgoffs = []\<rparr>
    = ([\<lparr>req_cmd = QEMU_UMEM_REQ_PAGE, req_idstr = [65], req_pgoffs = replicate 4063 1\<rparr>,
        \<lparr>req_cmd = QEMU_UMEM_REQ_PAGE_CONT, req_idstr = [], req_pgoffs = replicate 4063 2\<rparr>,
        \<lparr>req_cmd = QEMU_UMEM_REQ_PAGE_CONT, req_idstr = [], req_pgoffs = [3]\<rparr>], [])"
proof -
  let ?E = "\<lambda>c. case c of QEMU_UMEM_REQ_EOC \<Rightarrow> 0 | QEMU_UMEM_REQ_PAGE \<Rightarrow> 1
            | QEMU_UMEM_REQ_PAGE_CONT \<Rightarrow> 2 | QEMU_UMEM_REQ_OTHER b \<Rightarrow> (b :: u8)"
  let ?D = "\<lambda>b :: u8. if b = 0 then QEMU_UMEM_REQ_EOC else if b = 1 then QEMU_UMEM_REQ_PAGE
            else if b = 2 then QEMU_UMEM_REQ_PAGE_CONT else QEMU_UMEM_REQ_OTHER b"
  let ?A = "\<lambda>n :: nat. n \<le> 4063"
  let ?Q = "\<lparr>req_cmd = QEMU_UMEM_REQ_PAGE, req_idstr = [65],
       req_pgoffs = replicate 4063 1 @ replicate 4063 2 @ [3]\<rparr>"
  let ?R = "\<lparr>req_cmd = QEMU_UMEM_REQ_OTHER 0, req_idstr = [], req_pgoffs = []\<rparr>"
  have tk: "take MAX_PAGE_NR (req_pgoffs ?Q) = replicate 4063 1"
    and dr: "drop MAX_PAGE_NR (req_pgoffs ?Q) = replicate 4063 2 @ [3]"
    by (simp_all add: MAX_PAGE_NR_value)
  have n: "put_be32 4063 = [0, 0, 15, 223]" "put_be32 1 = [0, 0, 0, 1]"
    "put_be64 3 = [0, 0, 0, 0, 0, 0, 0, 3]"
    by (simp_all add: put_be32_def put_be64_def)
  have hyp: "0 < length (req_idstr ?Q) \<and> length (req_idstr ?Q) < 256 \<and>
          ?D (?E QEMU_UMEM_REQ_PAGE) = QEMU_UMEM_REQ_PAGE \<and>
          ?D (?E QEMU_UMEM_REQ_PAGE_CONT) = QEMU_UMEM_REQ_PAGE_CONT \<and>
          (\<forall>n. 0 < n \<and> n \<le> MAX_PAGE_NR \<longrightarrow> ?A n)"
    by (simp add: MAX_PAGE_NR_value)
  from send_req_split_lossless[where req = ?Q and enc = ?E and f = "[]" and dec = ?D
      and avail = ?A and ?req0.0 = ?R] hyp
  show ?thesis
    unfolding tk dr chunks_4063_tail
    by (simp add: framed_def n)
qed


lemma framed_fits:
  assumes "length (req_idstr r) \<le> 255" "length (req_pgoffs r) \<le> MAX_PAGE_NR"
  shows "length (framed enc r) \<le> 32768"
  using assms by (simp add: length_framed MAX_PAGE_NR_def split: umem_cmd.splits)

lemma split_requests_bounds:
  assumes "length (req_idstr req) \<le> 255"
  shows "list_all (\<lambda>r. (req_cmd r = QEMU_UMEM_REQ_EOC \<or> length (req_pgoffs r) \<le> MAX_PAGE_NR) \<and>
                       length (framed enc r) \<le> 32768)
           (split_requests req)"
proof -
  have ch: "c \<in> set (chunks MAX_PAGE_NR xs) \<Longrightarrow> length c \<le> MAX_PAGE_NR" for c xs :: "u64 list"
    using chunks_bounds[of MAX_PAGE_NR xs] by (auto simp: list_all_iff)
  show ?thesis
  proof (cases "req_cmd req")
    case QEMU_UMEM_REQ_EOC
    then show ?thesis
      by (simp add: split_requests_def length_framed)
  next
    case c: QEMU_UMEM_REQ_PAGE
    have "length (framed enc (req\<lparr>req_pgoffs := take MAX_PAGE_NR (req_pgoffs req)\<rparr>)) \<le> 32768"
      using assms by (intro framed_fits) simp_all
    moreover have "length (framed enc (req\<lparr>req_cmd := QEMU_UMEM_REQ_PAGE_CONT, req_pgoffs := r\<rparr>))
                   \<le> 32768"
      if "r \<in> set (chunks MAX_PAGE_NR (drop MAX_PAGE_NR (req_pgoffs req)))" for r
      using assms ch[OF that] by (intro framed_fits) simp_all
    ultimately show ?thesis using c
      by (auto simp: split_requests_def list_all_iff dest: ch)
  next
    case c: QEMU_UMEM_REQ_PAGE_CONT
    have "length (framed enc (req\<lparr>req_pgoffs := r\<rparr>)) \<le> 32768"
      if "r \<in> set (chunks MAX_PAGE_NR (req_pgoffs req))" for r
      using assms ch[OF that] by (intro framed_fits) simp_all
    then show ?thesis using c
      by (auto simp: split_requests_def list_all_iff dest: ch)
  next
    case (QEMU_UMEM_REQ_OTHER x)
    then show ?thesis by (simp add: split_requests_def)
  qed
qed

lemma chunks_one_more:
  assumes "length xs = Suc n" "0 < n"
  shows "chunks n xs = [take n xs, drop n xs]"
proof -
  have "xs \<noteq> []" using assms by auto
  with assms have "chunks n xs = take n xs # chunks n (drop n xs)" by (intro chunks_step) simp_all
  moreover have "chunks n (drop n xs) = [drop n xs]"
    using assms by (intro chunks_short) auto
  ultimately show ?thesis by simp
qed

text \<open>
  Claim C2, as the code has it. The macro \<open>MAX_PAGE_NR\<close> evaluates to 4063 (32508 div 8),
  not 4062. For every request, whatever its command (the name has at most 255 bytes, as
  its buffer of 256 allows): every message put on the stream carries at most
  \<open>MAX_PAGE_NR\<close> offsets and has at most 32768 bytes. A \<^verbatim>\<open>PAGE\<close> request of at most
  \<open>MAX_PAGE_NR\<close> offsets leaves as the single \<^verbatim>\<open>PAGE\<close> message; one of
  \<open>MAX_PAGE_NR + 1\<close> offsets leaves as one \<^verbatim>\<open>PAGE\<close> message with the first
  \<open>MAX_PAGE_NR\<close> offsets followed by one \<^verbatim>\<open>PAGE_CONT\<close> message with the last one. A
  \<^verbatim>\<open>PAGE_CONT\<close> request is split at the same places, into \<^verbatim>\<open>PAGE_CONT\<close> messages.
\<close>

theorem send_req_frame_bounds:
  assumes "length (req_idstr req) \<le> 255"
  shows "MAX_PAGE_NR = 4063 \<and>
    (case req_cmd req of
       QEMU_UMEM_REQ_OTHER b \<Rightarrow> postcopy_file_incoming_send_req enc f req = Inl Abort
     | _ \<Rightarrow> (\<exists>rs. postcopy_file_incoming_send_req enc f req
                     = Inr (f @ map (\<lambda>r. (r, framed enc r)) rs) \<and>
                   list_all (\<lambda>r. (req_cmd r = QEMU_UMEM_REQ_EOC \<or>
                                   length (req_pgoffs r) \<le> MAX_PAGE_NR) \<and>
                                  length (framed enc r) \<le> 32768) rs)) \<and>
    (req_cmd req = QEMU_UMEM_REQ_PAGE \<and> length (req_pgoffs req) \<le> MAX_PAGE_NR \<longrightarrow>
       postcopy_file_incoming_send_req enc f req = Inr (f @ [(req, framed enc req)])) \<and>
    (req_cmd req = QEMU_UMEM_REQ_PAGE \<and> length (req_pgoffs req) = MAX_PAGE_NR + 1 \<longrightarrow>
       postcopy_file_incoming_send_req enc f req =
         Inr (f @ [(req\<lparr>req_pgoffs := take MAX_PAGE_NR (req_pgoffs req)\<rparr>,
                    framed enc (req\<lparr>req_pgoffs := take MAX_PAGE_NR (req_pgoffs req)\<rparr>)),
                   (req\<lparr>req_cmd := QEMU_UMEM_REQ_PAGE_CONT,
                        req_pgoffs := drop MAX_PAGE_NR (req_pgoffs req)\<rparr>,
                    framed enc (req\<lparr>req_cmd := QEMU_UMEM_REQ_PAGE_CONT,
                                    req_pgoffs := drop MAX_PAGE_NR (req_pgoffs req)\<rparr>))])) \<and>
    (req_cmd req = QEMU_UMEM_REQ_PAGE_CONT \<and> 0 < length (req_pgoffs req) \<and>
     length (req_pgoffs req) \<le> MAX_PAGE_NR \<longrightarrow>
       postcopy_file_incoming_send_req enc f req = Inr (f @ [(req, framed enc req)])) \<and>
    (req_cmd req = QEMU_UMEM_REQ_PAGE_CONT \<and> length (req_pgoffs req) = MAX_PAGE_NR + 1 \<longrightarrow>
       postcopy_file_incoming_send_req enc f req =
         Inr (f @ [(req\<lparr>req_pgoffs := take MAX_PAGE_NR (req_pgoffs req)\<rparr>,
                    framed enc (req\<lparr>req_pgoffs := take MAX_PAGE_NR (req_pgoffs req)\<rparr>)),
                   (req\<lparr>req_pgoffs := drop MAX_PAGE_NR (req_pgoffs req)\<rparr>,
                    framed enc (req\<lparr>req_pgoffs := drop MAX_PAGE_NR (req_pgoffs req)\<rparr>))]))"
proof (intro conjI impI)
  show "MAX_PAGE_NR = 4063" by (rule MAX_PAGE_NR_value)
  show "case req_cmd req of
       QEMU_UMEM_REQ_OTHER b \<Rightarrow> postcopy_file_incoming_send_req enc f req = Inl Abort
     | _ \<Rightarrow> (\<exists>rs. postcopy_file_incoming_send_req enc f req
                     = Inr (f @ map (\<lambda>r. (r, framed enc r)) rs) \<and>
                   list_all (\<lambda>r. (req_cmd r = QEMU_UMEM_REQ_EOC \<or>
                                   length (req_pgoffs r) \<le> MAX_PAGE_NR) \<and>
                                  length (framed enc r) \<le> 32768) rs)"
    using split_requests_bounds[OF assms, of enc]
    by (cases "req_cmd req") (auto simp: send_req_split)
next
  assume a: "req_cmd req = QEMU_UMEM_REQ_PAGE \<and> length (req_pgoffs req) \<le> MAX_PAGE_NR"
  then have "split_requests req = [req]" by (simp add: split_requests_def)
  with a show "postcopy_file_incoming_send_req enc f req = Inr (f @ [(req, framed enc req)])"
    by (simp add: send_req_split)
next
  assume a: "req_cmd req = QEMU_UMEM_REQ_PAGE \<and> length (req_pgoffs req) = MAX_PAGE_NR + 1"
  have "chunks MAX_PAGE_NR (drop MAX_PAGE_NR (req_pgoffs req)) = [drop MAX_PAGE_NR (req_pgoffs req)]"
    using a by (intro chunks_short) (simp_all add: MAX_PAGE_NR_def)
  with a show "postcopy_file_incoming_send_req enc f req =
         Inr (f @ [(req\<lparr>req_pgoffs := take MAX_PAGE_NR (req_pgoffs req)\<rparr>,
                    framed enc (req\<lparr>req_pgoffs := take MAX_PAGE_NR (req_pgoffs req)\<rparr>)),
                   (req\<lparr>req_cmd := QEMU_UMEM_REQ_PAGE_CONT,
                        req_pgoffs := drop MAX_PAGE_NR (req_pgoffs req)\<rparr>,
                    framed enc (req\<lparr>req_cmd := QEMU_UMEM_REQ_PAGE_CONT,
                                    req_pgoffs := drop MAX_PAGE_NR (req_pgoffs req)\<rparr>))])"
    by (simp add: send_req_split split_requests_def)
next
  assume a: "req_cmd req = QEMU_UMEM_REQ_PAGE_CONT \<and> 0 < length (req_pgoffs req) \<and>
     length (req_pgoffs req) \<le> MAX_PAGE_NR"
  then have "chunks MAX_PAGE_NR (req_pgoffs req) = [req_pgoffs req]"
    by (intro chunks_short) (simp_all add: MAX_PAGE_NR_def)
  with a show "postcopy_file_incoming_send_req enc f req = Inr (f @ [(req, framed enc req)])"
    by (simp add: send_req_split split_requests_def)
next
  assume a: "req_cmd req = QEMU_UMEM_REQ_PAGE_CONT \<and> length (req_pgoffs req) = MAX_PAGE_NR + 1"
  then have "chunks MAX_PAGE_NR (req_pgoffs req)
             = [take MAX_PAGE_NR (req_pgoffs req), drop MAX_PAGE_NR (req_pgoffs req)]"
    by (intro chunks_one_more) (simp_all add: MAX_PAGE_NR_def)
  with a show "postcopy_file_incoming_send_req enc f req =
         Inr (f @ [(req\<lparr>req_pgoffs := take MAX_PAGE_NR (req_pgoffs req)\<rparr>,
                    framed enc (req\<lparr>req_pgoffs := take MAX_PAGE_NR (req_pgoffs req)\<rparr>)),
                   (req\<lparr>req_pgoffs := drop MAX_PAGE_NR (req_pgoffs req)\<rparr>,
                    framed enc (req\<lparr>req_pgoffs := drop MAX_PAGE_NR (req_pgoffs req)\<rparr>))])"
    by (simp add: send_req_split split_requests_def)
qed

text \<open>
  A \<^verbatim>\<open>PAGE\<close> request of 4064 offsets for block \<open>AB\<close>: a \<^verbatim>\<open>PAGE\<close> message of 4063
  offsets and 32512 bytes, and a \<^verbatim>\<open>PAGE_CONT\<close> message of one offset.
\<close>

theorem send_req_frame_bounds_witness:
  "MAX_PAGE_NR = 4063 \<and>
   postcopy_file_incoming_send_req (\<lambda>c. 0) []
      \<lparr>req_cmd = QEMU_UMEM_REQ_PAGE, req_idstr = [65, 66], req_pgoffs = replicate 4063 5 @ [6]\<rparr>
    = Inr [(\<lparr>req_cmd = QEMU_UMEM_REQ_PAGE, req_idstr = [65, 66], req_pgoffs = replicate 4063 5\<rparr>,
            [0, 2, 65, 66, 0, 0, 15, 223] @ concat (map put_be64 (replicate 4063 5))),
           (\<lparr>req_cmd = QEMU_UMEM_REQ_PAGE_CONT, req_idstr = [65, 66], req_pgoffs = [6]\<rparr>,
            [0, 0, 0, 0, 1, 0, 0, 0, 0, 0, 0, 0, 6])] \<and>
   length ([0, 2, 65, 66, 0, 0, 15, 223] @ concat (map put_be64 (replicate 4063 (5 :: u64)))) = 32512"
proof -
  let ?Q = "\<lparr>req_cmd = QEMU_UMEM_REQ_PAGE, req_idstr = [65, 66], req_pgoffs = replicate 4063 5 @ [6]\<rparr>"
  have n: "put_be32 4063 = [0, 0, 15, 223]" "put_be32 1 = [0, 0, 0, 1]"
    "put_be64 6 = [0, 0, 0, 0, 0, 0, 0, 6]"
    by (simp_all add: put_be32_def put_be64_def)
  have hyp: "length (req_idstr ?Q) \<le> 255"
    "req_cmd ?Q = QEMU_UMEM_REQ_PAGE \<and> length (req_pgoffs ?Q) = MAX_PAGE_NR + 1"
    by (simp_all add: MAX_PAGE_NR_value)
  from send_req_frame_bounds[where req = ?Q and enc = "\<lambda>c. 0" and f = "[]", OF hyp(1)] hyp(2)
  have "postcopy_file_incoming_send_req (\<lambda>c. 0) [] ?Q =
         Inr ([] @ [(?Q\<lparr>req_pgoffs := take MAX_PAGE_NR (req_pgoffs ?Q)\<rparr>,
                    framed (\<lambda>c. 0) (?Q\<lparr>req_pgoffs := take MAX_PAGE_NR (req_pgoffs ?Q)\<rparr>)),
                   (?Q\<lparr>req_cmd := QEMU_UMEM_REQ_PAGE_CONT,
                        req_pgoffs := drop MAX_PAGE_NR (req_pgoffs ?Q)\<rparr>,
                    framed (\<lambda>c. 0) (?Q\<lparr>req_cmd := QEMU_UMEM_REQ_PAGE_CONT,
                                    req_pgoffs := drop MAX_PAGE_NR (req_pgoffs ?Q)\<rparr>))])"
    by blast
  moreover have "length (concat (map put_be64 (replicate 4063 (5 :: u64)))) = 8 * 4063"
    by (simp only: length_concat_put_be64 length_replicate)
  ultimately show ?thesis by (simp add: MAX_PAGE_NR_value framed_def n)
qed

text \<open>
  Against claim C2 as the specification words it (at most 4062 offsets in a message, 4063
  offsets split into two messages): a request of 4063 offsets leaves as one \<^verbatim>\<open>PAGE\<close>
  message that carries all 4063.
\<close>

theorem send_req_4063_one_frame:
  "postcopy_file_incoming_send_req (\<lambda>c. 0) []
      \<lparr>req_cmd = QEMU_UMEM_REQ_PAGE, req_idstr = [1], req_pgoffs = replicate 4063 0\<rparr>
    = Inr [(\<lparr>req_cmd = QEMU_UMEM_REQ_PAGE, req_idstr = [1], req_pgoffs = replicate 4063 0\<rparr>,
            0 # postcopy_incoming_send_req_idstr [1]
              @ postcopy_incoming_send_req_pgoffs (replicate 4063 0))]
   \<and> length (replicate 4063 (0 :: u64)) = 4062 + 1"
proof -
  have "postcopy_incoming_send_req_one (\<lambda>c. 0) []
      \<lparr>req_cmd = QEMU_UMEM_REQ_PAGE, req_idstr = [1], req_pgoffs = replicate 4063 0\<rparr> =
      Inr [(\<lparr>req_cmd = QEMU_UMEM_REQ_PAGE, req_idstr = [1], req_pgoffs = replicate 4063 0\<rparr>,
            0 # postcopy_incoming_send_req_idstr [1]
              @ postcopy_incoming_send_req_pgoffs (replicate 4063 0))]"
    by (simp add: postcopy_incoming_send_req_one_def)
  then show ?thesis
    by (subst postcopy_file_incoming_send_req_def, subst send_req_loop.simps)
       (simp add: MAX_PAGE_NR_value Let_def)
qed

section \<open>C arithmetic, bitmaps and strings\<close>

text \<open>
  \<^verbatim>\<open>TARGET_PAGE_BITS\<close> is a constant of the emulated target, not of this file; the
  functions that use it take it as the parameter \<open>tpb\<close> (12 for 4 KiB target pages).
\<close>

definition TARGET_PAGE_SIZE :: "nat \<Rightarrow> int" where
  "TARGET_PAGE_SIZE tpb = 2 ^ tpb"

text \<open>
  Modelled from the spec: the bit operations of \<^verbatim>\<open>qemu/bitops.h\<close> and \<^verbatim>\<open>qemu/bitmap.h\<close>,
  which are not part of the sources at hand. A bitmap is the array of \<^verbatim>\<open>unsigned long\<close>
  words of a 64-bit host; bit \<open>nr\<close> is bit \<open>nr mod 64\<close> of word \<open>nr div 64\<close>. The code
  only indexes inside the allocation; here a read outside gives \<open>False\<close> and a write
  outside is dropped.
\<close>

definition test_bit :: "nat \<Rightarrow> u64 list \<Rightarrow> bool" where
  "test_bit nr bm \<longleftrightarrow> nr div 64 < length bm \<and> bit (bm ! (nr div 64)) (nr mod 64)"

definition set_bit :: "nat \<Rightarrow> u64 list \<Rightarrow> u64 list" where
  "set_bit nr bm = bm[nr div 64 := (bm ! (nr div 64)) OR push_bit (nr mod 64) 1]"

definition clear_bit :: "nat \<Rightarrow> u64 list \<Rightarrow> u64 list" where
  "clear_bit nr bm = bm[nr div 64 := (bm ! (nr div 64)) AND NOT (push_bit (nr mod 64) 1)]"

definition test_and_set_bit :: "nat \<Rightarrow> u64 list \<Rightarrow> bool \<times> u64 list" where
  "test_and_set_bit nr bm = (test_bit nr bm, set_bit nr bm)"

definition bitmap_new :: "nat \<Rightarrow> u64 list" where
  "bitmap_new nbits = replicate ((nbits + 63) div 64) 0"

definition bitmap_copy :: "u64 list \<Rightarrow> u64 list \<Rightarrow> nat \<Rightarrow> u64 list" where
  "bitmap_copy dst src nbits =
     (let k = (nbits + 63) div 64 in take k src @ drop k dst)"

text \<open>
  \<^verbatim>\<open>strncmp(a, b, n) == 0\<close> on NUL-terminated strings: the first \<open>n\<close> characters agree,
  the comparison ending at a common terminator.
\<close>

definition cstr :: "u8 list \<Rightarrow> u8 list" where
  "cstr s = takeWhile (\<lambda>c. c \<noteq> 0) s @ [0]"

definition strncmp_eq :: "u8 list \<Rightarrow> u8 list \<Rightarrow> nat \<Rightarrow> bool" where
  "strncmp_eq a b n \<longleftrightarrow> take n (cstr a) = take n (cstr b)"

text \<open>A C shift by an \<^verbatim>\<open>int\<close> count: undefined for a negative count or one of 64 and more.\<close>

definition shr64 :: "u64 \<Rightarrow> int \<Rightarrow> stop + u64" where
  "shr64 w n = (if n < 0 \<or> 64 \<le> n then Inl BadShift else Inr (drop_bit (nat n) w))"

definition shl64 :: "u64 \<Rightarrow> int \<Rightarrow> stop + u64" where
  "shl64 w n = (if n < 0 \<or> 64 \<le> n then Inl BadShift else Inr (push_bit (nat n) w))"

text \<open>The conversion of a \<^verbatim>\<open>uint64_t\<close> to \<^verbatim>\<open>int\<close>.\<close>

definition int_of_u64 :: "u64 \<Rightarrow> int" where
  "int_of_u64 w = sint (ucast w :: 32 word)"

text \<open>\<^verbatim>\<open>postcopy_bitmap_length\<close>: the bytes of the bitmap of a block of \<open>len\<close> bytes.\<close>

definition postcopy_bitmap_length :: "nat \<Rightarrow> u64 \<Rightarrow> u64" where
  "postcopy_bitmap_length tpb len = of_nat ((unat (drop_bit tpb len) + 63) div 64) * 8"

text \<open>Facts about 64-bit arithmetic that does not wrap.\<close>

lemma int_of_u64_of_nat:
  assumes "j < 2 ^ 31"
  shows "int_of_u64 (of_nat j) = int j"
proof -
  have "(ucast (of_nat j :: u64) :: 32 word) = of_nat j"
    by (rule bit_word_eqI) (auto simp: bit_simps)
  moreover have "sint (of_nat j :: 32 word) = int j"
    using assms by (simp add: signed_of_nat signed_take_bit_int_eq_self)
  ultimately show ?thesis by (simp add: int_of_u64_def)
qed

lemma unat_push_bit_nowrap:
  fixes w :: u64
  assumes "unat w * 2 ^ n < 2 ^ 64"
  shows "unat (push_bit n w) = unat w * 2 ^ n"
proof -
  have "unat (push_bit n w) = take_bit 64 (push_bit n (unat w))"
    using unsigned_push_bit_eq[of n w, where 'a = nat] by simp
  also have "\<dots> = unat w * 2 ^ n"
    using assms by (simp add: push_bit_eq_mult take_bit_nat_eq_self)
  finally show ?thesis .
qed

lemma unat_add_of_nat:
  fixes p :: u64
  assumes "unat p + j < 2 ^ 64"
  shows "unat (p + of_nat j) = unat p + j"
proof -
  have "j < 2 ^ 64" using assms by simp
  then have "unat (of_nat j :: u64) = j" by (simp add: unat_of_nat)
  with assms show ?thesis using unat_add_lem[of p "of_nat j :: u64"] by simp
qed

lemma of_nat_le_unat:
  fixes p :: u64
  assumes "j < 2 ^ 64"
  shows "(of_nat j \<le> p) \<longleftrightarrow> j \<le> unat p"
  using assms by (simp add: word_le_nat_alt unat_of_nat)

lemma unat_sub_of_nat:
  fixes p :: u64
  assumes "j \<le> unat p"
  shows "unat (p - of_nat j) = unat p - j"
proof -
  have j: "j < 2 ^ 64" using assms unsigned_less[of p, where 'a = nat] by simp
  then have "unat (of_nat j :: u64) = j" by (simp add: unat_of_nat)
  moreover have "(of_nat j :: u64) \<le> p" using assms j by (simp add: of_nat_le_unat)
  ultimately show ?thesis using unat_sub[of "of_nat j" p] by simp
qed

section \<open>Destination side: section loaders and the umem daemon\<close>

subsection \<open>Reading the migration stream\<close>

text \<open>
  Modelled from the spec: \<^verbatim>\<open>qemu_get_byte\<close>, \<^verbatim>\<open>qemu_get_buffer\<close> and \<^verbatim>\<open>qemu_get_be64\<close>
  belong to the QEMUFile layer, which is not part of the sources at hand. The stream is
  the list of bytes still to come; each read gives its value and the rest of the stream.
  All multi-byte integers are big-endian. At the end of the stream a byte reads as 0 and a
  buffer read comes back short.
\<close>

definition qemu_get_byte :: "u8 list \<Rightarrow> u8 \<times> u8 list" where
  "qemu_get_byte f = (case f of [] \<Rightarrow> (0, []) | b # r \<Rightarrow> (b, r))"

definition qemu_get_buffer :: "u8 list \<Rightarrow> nat \<Rightarrow> u8 list \<times> u8 list" where
  "qemu_get_buffer f n = (take n f, drop n f)"

definition qemu_get_be64 :: "u8 list \<Rightarrow> u64 \<times> u8 list" where
  "qemu_get_be64 f = (be64_to_cpu (take 8 (f @ [0, 0, 0, 0, 0, 0, 0, 0])), drop 8 f)"

subsection \<open>The INIT section\<close>

definition POSTCOPY_OPTION_PRECOPY :: u64 where
  "POSTCOPY_OPTION_PRECOPY = 1"

datatype ram_load_state = postcopy_incoming_ram_load_precopy | postcopy_incoming_ram_load

text \<open>
  What \<^verbatim>\<open>postcopy_incoming_loadvm_init\<close> reads of its surroundings: whether the
  connection is RDMA, whether its descriptor is open read/write
  (\<^verbatim>\<open>(flags & O_ACCMODE) == O_RDWR\<close>), whether \<^verbatim>\<open>mem_path\<close> is set, and what
  \<^verbatim>\<open>postcopy_incoming_prepare\<close> returns (it fails when \<^verbatim>\<open>umem_new\<close> or
  \<^verbatim>\<open>umem_map_shmem\<close> fails).
\<close>

record loadvm_env =
  env_is_rdma :: bool
  env_fd_rdwr :: bool
  env_mem_path :: bool
  env_prepare :: "errno option"

text \<open>The globals it writes: \<^verbatim>\<open>umemd.precopy_enabled\<close> and the RAM section's load handler.\<close>

record loadvm_state =
  precopy_enabled :: bool
  load_state :: "ram_load_state option"

definition postcopy_incoming_loadvm_init ::
  "loadvm_env \<Rightarrow> u8 list \<Rightarrow> u32 \<Rightarrow> loadvm_state \<Rightarrow> unit result \<times> u8 list \<times> loadvm_state" where
  "postcopy_incoming_loadvm_init env f sz s =
     (if sz \<noteq> 8 then (Error EINVAL, f, s)
      else
        let (options, f1) = qemu_get_be64 f;
            (options1, s1) =
               (if options AND POSTCOPY_OPTION_PRECOPY \<noteq> 0
                then (options AND NOT POSTCOPY_OPTION_PRECOPY, s\<lparr>precopy_enabled := True\<rparr>)
                else (options, s\<lparr>precopy_enabled := False\<rparr>))
        in
        if options1 \<noteq> 0 then (Error ENOSYS, f1, s1)
        else if \<not> env_is_rdma env \<and> \<not> env_fd_rdwr env then (Error EINVAL, f1, s1)
        else if env_mem_path env then (Error ENOSYS, f1, s1)
        else case env_prepare env of
               Some e \<Rightarrow> (Error e, f1, s1)
             | None \<Rightarrow>
                 (Ok (), f1,
                  s1\<lparr>load_state := Some (if precopy_enabled s1 then postcopy_incoming_ram_load_precopy
                                          else postcopy_incoming_ram_load)\<rparr>))"

subsection \<open>The option mask\<close>


lemma mask_only_precopy:
  fixes options :: u64
  shows "options AND NOT 1 = 0 \<longleftrightarrow> options = 0 \<or> options = 1"
proof
  assume z: "options AND NOT 1 = 0"
  have "options = (options AND NOT 1) OR (options AND 1)"
    by (rule bit_word_eqI) (auto simp: bit_simps)
  with z have "options = options AND 1" by simp
  then show "options = 0 \<or> options = 1" by (metis and_one_eq mod2_eq_if)
next
  assume "options = 0 \<or> options = 1"
  then show "options AND NOT 1 = 0" by auto
qed

lemma mask_bit0:
  fixes options :: u64
  shows "options AND 1 \<noteq> 0 \<longleftrightarrow> bit options 0"
  by (simp add: and_one_eq bit_0 mod2_eq_if)

text \<open>
  Claim C7. The INIT section loader accepts exactly a u64 option mask in which only the
  PRECOPY bit (value 1) may be set. With a payload size other than 8 it fails with
  \<^verbatim>\<open>-EINVAL\<close>, reading nothing and changing nothing. With a payload of 8 bytes it reads
  the mask and leaves \<^verbatim>\<open>precopy_enabled\<close> true if and only if the PRECOPY bit of the mask
  is set; it fails with \<^verbatim>\<open>-ENOSYS\<close> when a bit other than PRECOPY is set; and for the
  masks 0 and 1 it returns 0 and installs the RAM load handler, the precopy one for mask
  1 and the plain one for mask 0, wherever the surroundings allow postcopy at all (a
  read/write or RDMA connection, no \<^verbatim>\<open>mem_path\<close>, \<^verbatim>\<open>postcopy_incoming_prepare\<close>
  succeeding). It returns 0 in no other case, and whenever it fails the load handler is
  left as it was.
\<close>

theorem loadvm_init_options:
  "(case postcopy_incoming_loadvm_init env f sz s of
      (r, f', s') \<Rightarrow>
        (sz \<noteq> 8 \<longrightarrow> r = Error EINVAL \<and> f' = f \<and> s' = s) \<and>
        (sz = 8 \<longrightarrow> f' = snd (qemu_get_be64 f) \<and>
                     (precopy_enabled s' \<longleftrightarrow> bit (fst (qemu_get_be64 f)) 0)) \<and>
        (sz = 8 \<and> fst (qemu_get_be64 f) AND NOT 1 \<noteq> 0 \<longrightarrow>
           r = Error ENOSYS \<and> load_state s' = load_state s) \<and>
        (sz = 8 \<and> (fst (qemu_get_be64 f) = 0 \<or> fst (qemu_get_be64 f) = 1) \<and>
         (env_is_rdma env \<or> env_fd_rdwr env) \<and> \<not> env_mem_path env \<and> env_prepare env = None
         \<longrightarrow>
           r = Ok () \<and>
           load_state s' = Some (if fst (qemu_get_be64 f) = 1
                                 then postcopy_incoming_ram_load_precopy
                                 else postcopy_incoming_ram_load)) \<and>
        (r = Ok () \<longleftrightarrow>
           sz = 8 \<and> (fst (qemu_get_be64 f) = 0 \<or> fst (qemu_get_be64 f) = 1) \<and>
           (env_is_rdma env \<or> env_fd_rdwr env) \<and> \<not> env_mem_path env \<and>
           env_prepare env = None) \<and>
        (r \<noteq> Ok () \<longrightarrow> (\<exists>e. r = Error e) \<and> load_state s' = load_state s)) \<and>
   (fst (qemu_get_be64 f) AND NOT 1 = 0 \<longleftrightarrow>
      fst (qemu_get_be64 f) = 0 \<or> fst (qemu_get_be64 f) = 1)"
proof -
  obtain options f1 where g: "qemu_get_be64 f = (options, f1)" by (cases "qemu_get_be64 f")
  have b1: "bit (1 :: u64) 0" by simp
  show ?thesis
    using mask_only_precopy[of options] mask_bit0[of options] b1
    by (auto simp: postcopy_incoming_loadvm_init_def g POSTCOPY_OPTION_PRECOPY_def Let_def
             split: option.splits)
qed


text \<open>
  The masks 0 and 1 are accepted, without and with precopy; the mask 3 and the payload
  size 4 are refused.
\<close>

theorem loadvm_init_options_witness:
  "postcopy_incoming_loadvm_init
      \<lparr>env_is_rdma = False, env_fd_rdwr = True, env_mem_path = False, env_prepare = None\<rparr>
      [0, 0, 0, 0, 0, 0, 0, 0, 7] 8 \<lparr>precopy_enabled = True, load_state = None\<rparr>
    = (Ok (), [7], \<lparr>precopy_enabled = False, load_state = Some postcopy_incoming_ram_load\<rparr>) \<and>
   postcopy_incoming_loadvm_init
      \<lparr>env_is_rdma = False, env_fd_rdwr = True, env_mem_path = False, env_prepare = None\<rparr>
      [0, 0, 0, 0, 0, 0, 0, 1, 7] 8 \<lparr>precopy_enabled = False, load_state = None\<rparr>
    = (Ok (), [7], \<lparr>precopy_enabled = True, load_state = Some postcopy_incoming_ram_load_precopy\<rparr>) \<and>
   postcopy_incoming_loadvm_init
      \<lparr>env_is_rdma = False, env_fd_rdwr = True, env_mem_path = False, env_prepare = None\<rparr>
      [0, 0, 0, 0, 0, 0, 0, 3, 7] 8 \<lparr>precopy_enabled = False, load_state = None\<rparr>
    = (Error ENOSYS, [7], \<lparr>precopy_enabled = True, load_state = None\<rparr>) \<and>
   postcopy_incoming_loadvm_init
      \<lparr>env_is_rdma = False, env_fd_rdwr = True, env_mem_path = False, env_prepare = None\<rparr>
      [0, 0, 0, 0, 0, 0, 0, 1, 7] 4 \<lparr>precopy_enabled = False, load_state = None\<rparr>
    = (Error EINVAL, [0, 0, 0, 0, 0, 0, 0, 1, 7], \<lparr>precopy_enabled = False, load_state = None\<rparr>)"
proof -
  let ?e = "\<lparr>env_is_rdma = False, env_fd_rdwr = True, env_mem_path = False, env_prepare = None\<rparr>"
  let ?t = "\<lparr>precopy_enabled = True, load_state = None\<rparr>"
  let ?n = "\<lparr>precopy_enabled = False, load_state = None\<rparr>"
  have g: "qemu_get_be64 [0, 0, 0, 0, 0, 0, 0, 0, 7] = (0, [7])"
    "qemu_get_be64 [0, 0, 0, 0, 0, 0, 0, 1, 7] = (1, [7])"
    "qemu_get_be64 [0, 0, 0, 0, 0, 0, 0, 3, 7] = (3, [7])"
    by (simp_all add: qemu_get_be64_def be64_to_cpu_def)
  have m: "(3 :: u64) AND NOT 1 \<noteq> 0" by simp
  obtain r1 f1 s1 where p1: "postcopy_incoming_loadvm_init ?e [0, 0, 0, 0, 0, 0, 0, 0, 7] 8 ?t = (r1, f1, s1)"
    by (cases "postcopy_incoming_loadvm_init ?e [0, 0, 0, 0, 0, 0, 0, 0, 7] 8 ?t") auto
  from loadvm_init_options[where env = ?e and f = "[0, 0, 0, 0, 0, 0, 0, 0, 7]" and sz = 8 and s = ?t]
  have "r1 = Ok ()" "f1 = [7]" "\<not> precopy_enabled s1" "load_state s1 = Some postcopy_incoming_ram_load"
    unfolding p1 by (simp_all add: g)
  then have one: "postcopy_incoming_loadvm_init ?e [0, 0, 0, 0, 0, 0, 0, 0, 7] 8 ?t
                  = (Ok (), [7], \<lparr>precopy_enabled = False, load_state = Some postcopy_incoming_ram_load\<rparr>)"
    unfolding p1 by (cases s1) simp
  obtain r2 f2 s2 where p2: "postcopy_incoming_loadvm_init ?e [0, 0, 0, 0, 0, 0, 0, 1, 7] 8 ?n = (r2, f2, s2)"
    by (cases "postcopy_incoming_loadvm_init ?e [0, 0, 0, 0, 0, 0, 0, 1, 7] 8 ?n") auto
  from loadvm_init_options[where env = ?e and f = "[0, 0, 0, 0, 0, 0, 0, 1, 7]" and sz = 8 and s = ?n]
  have "r2 = Ok ()" "f2 = [7]" "precopy_enabled s2"
    "load_state s2 = Some postcopy_incoming_ram_load_precopy"
    unfolding p2 by (simp_all add: g)
  then have two: "postcopy_incoming_loadvm_init ?e [0, 0, 0, 0, 0, 0, 0, 1, 7] 8 ?n
                  = (Ok (), [7], \<lparr>precopy_enabled = True,
                                   load_state = Some postcopy_incoming_ram_load_precopy\<rparr>)"
    unfolding p2 by (cases s2) simp
  obtain r3 f3 s3 where p3: "postcopy_incoming_loadvm_init ?e [0, 0, 0, 0, 0, 0, 0, 3, 7] 8 ?n = (r3, f3, s3)"
    by (cases "postcopy_incoming_loadvm_init ?e [0, 0, 0, 0, 0, 0, 0, 3, 7] 8 ?n") auto
  from loadvm_init_options[where env = ?e and f = "[0, 0, 0, 0, 0, 0, 0, 3, 7]" and sz = 8 and s = ?n] m
  have "r3 = Error ENOSYS" "f3 = [7]" "precopy_enabled s3" "load_state s3 = None"
    unfolding p3 by (simp_all add: g)
  then have three: "postcopy_incoming_loadvm_init ?e [0, 0, 0, 0, 0, 0, 0, 3, 7] 8 ?n
                  = (Error ENOSYS, [7], \<lparr>precopy_enabled = True, load_state = None\<rparr>)"
    unfolding p3 by (cases s3) simp
  from loadvm_init_options[where env = ?e and f = "[0, 0, 0, 0, 0, 0, 0, 1, 7]" and sz = 4 and s = ?n]
  have four: "postcopy_incoming_loadvm_init ?e [0, 0, 0, 0, 0, 0, 0, 1, 7] 4 ?n
                = (Error EINVAL, [0, 0, 0, 0, 0, 0, 0, 1, 7], ?n)"
    by (cases "postcopy_incoming_loadvm_init ?e [0, 0, 0, 0, 0, 0, 0, 1, 7] 4 ?n") simp
  from one two three four show ?thesis by (intro conjI)
qed

subsection \<open>The umem daemon: blocks, bitmaps and the shared state word\<close>

text \<open>\<^verbatim>\<open>UMemBlock\<close>, with the fields this file uses.\<close>

record UMemBlock =
  blk_idstr :: "u8 list"
  blk_offset :: u64
  blk_length :: u64
  phys_requested :: "u64 list"
  phys_received :: "u64 list"
  clean_bitmap :: "u64 list"
  pending_clean_bitmap :: "u64 list"
  blk_nr_pending_clean :: nat

definition UMEM_STATE_EOS_RECEIVED :: u32 where "UMEM_STATE_EOS_RECEIVED = 0x01"
definition UMEM_STATE_EOC_SEND_REQ :: u32 where "UMEM_STATE_EOC_SEND_REQ = 0x02"
definition UMEM_STATE_EOC_SENDING :: u32 where "UMEM_STATE_EOC_SENDING = 0x04"
definition UMEM_STATE_EOC_SENT :: u32 where "UMEM_STATE_EOC_SENT = 0x08"
definition UMEM_STATE_QUIT_RECEIVED :: u32 where "UMEM_STATE_QUIT_RECEIVED = 0x10"
definition UMEM_STATE_QUIT_HANDLED :: u32 where "UMEM_STATE_QUIT_HANDLED = 0x20"
definition UMEM_STATE_QUIT_QUEUED :: u32 where "UMEM_STATE_QUIT_QUEUED = 0x40"
definition UMEM_STATE_QUIT_SENDING :: u32 where "UMEM_STATE_QUIT_SENDING = 0x80"
definition UMEM_STATE_QUIT_SENT :: u32 where "UMEM_STATE_QUIT_SENT = 0x100"
definition UMEM_STATE_ERROR_REQ :: u32 where "UMEM_STATE_ERROR_REQ = 0x1000"
definition UMEM_STATE_ERROR_SENDING :: u32 where "UMEM_STATE_ERROR_SENDING = 0x2000"
definition UMEM_STATE_ERROR_SENT :: u32 where "UMEM_STATE_ERROR_SENT = 0x3000"

definition UMEM_STATE_QUIT_MASK :: u32 where
  "UMEM_STATE_QUIT_MASK =
     UMEM_STATE_QUIT_QUEUED OR UMEM_STATE_QUIT_SENDING OR UMEM_STATE_QUIT_SENT OR
     UMEM_STATE_QUIT_RECEIVED OR UMEM_STATE_QUIT_HANDLED"

definition UMEM_STATE_END_MASK :: u32 where
  "UMEM_STATE_END_MASK =
     UMEM_STATE_EOS_RECEIVED OR UMEM_STATE_EOC_SEND_REQ OR UMEM_STATE_EOC_SENDING OR
     UMEM_STATE_EOC_SENT OR UMEM_STATE_QUIT_MASK"

text \<open>Commands of the daemon to the supervisor, and threads the daemon starts.\<close>

datatype daemon_cmd = UMEM_DAEMON_QUIT | UMEM_DAEMON_ERROR

datatype daemon_thread =
    umemd_fault_thread | mig_read_thread | mig_write_thread | pipe_thread
  | bitmap_thread | pending_clean_thread

text \<open>
  \<^verbatim>\<open>PostcopyIncomingUMemDaemon\<close>. A \<^verbatim>\<open>UMemBlock *\<close> is the index of the block in
  \<open>blocks\<close>, which lists the blocks in the order of \<^verbatim>\<open>QLIST_FOREACH\<close>. An open
  \<^verbatim>\<open>QEMUFile *\<close> is \<open>True\<close>, \<^verbatim>\<open>NULL\<close> is \<open>False\<close>; \<open>threads_created\<close> lists
  the thread handles that \<^verbatim>\<open>qemu_thread_create\<close> has filled; \<open>mig_read\<close> holds the bytes of
  the stream from the source still to come; \<open>fault_buf\<close> holds the first
  \<^verbatim>\<open>umemd.offset\<close> bytes of \<^verbatim>\<open>umemd.buf\<close>. The last six fields record what
  the daemon did to its surroundings, oldest first: commands put on \<^verbatim>\<open>to_qemu\<close>, threads
  created, blocks whose shared memory was unmapped, the calls of
  \<^verbatim>\<open>umem_mark_page_cached\<close> (block and host page offsets), the request messages put
  on \<^verbatim>\<open>mig_write\<close>, and the calls of \<^verbatim>\<open>umem_remove_shmem\<close> (block and offset in it).
\<close>

record umemd_t =
  umemd_state :: u32
  host_page_size :: int
  host_page_shift :: int
  nr_host_pages_per_target_page :: int
  host_to_target_page_shift :: int
  nr_target_pages_per_host_page :: int
  target_to_host_page_shift :: int
  umemd_precopy_enabled :: bool
  blocks :: "UMemBlock list"
  to_qemu :: bool
  from_qemu :: bool
  mig_read :: "u8 list option"
  mig_write :: bool
  umemd_rdma :: bool
  last_block_write :: "nat option"
  fault_buf :: "u8 list"
  to_qemu_sent :: "daemon_cmd list"
  threads_created :: "daemon_thread list"
  shmem_unmapped :: "nat list"
  mark_cached_calls :: "(nat \<times> u64 list) list"
  mig_write_sent :: "frame list"
  shmem_removed :: "(nat \<times> u64) list"

definition postcopy_incoming_umem_error_req :: "umemd_t \<Rightarrow> umemd_t" where
  "postcopy_incoming_umem_error_req u = u\<lparr>umemd_state := umemd_state u OR UMEM_STATE_ERROR_REQ\<rparr>"

definition postcopy_incoming_umem_queue_quit_locked :: "umemd_t \<Rightarrow> umemd_t" where
  "postcopy_incoming_umem_queue_quit_locked u =
     (if umemd_state u AND UMEM_STATE_QUIT_QUEUED \<noteq> 0 then u
      else u\<lparr>umemd_state := umemd_state u OR UMEM_STATE_QUIT_QUEUED\<rparr>)"

definition postcopy_incoming_umem_req_eoc :: "umemd_t \<Rightarrow> umemd_t" where
  "postcopy_incoming_umem_req_eoc u = u\<lparr>umemd_state := umemd_state u OR UMEM_STATE_EOC_SEND_REQ\<rparr>"

definition postcopy_incoming_umem_done :: "umemd_t \<Rightarrow> umemd_t" where
  "postcopy_incoming_umem_done u =
     postcopy_incoming_umem_queue_quit_locked (postcopy_incoming_umem_req_eoc u)"

text \<open>
  \<^verbatim>\<open>postcopy_incoming_umem_recv_quit\<close>: latch the quit of the supervisor and close the
  command pipe from it.
\<close>

definition postcopy_incoming_umem_recv_quit :: "umemd_t \<Rightarrow> umemd_t" where
  "postcopy_incoming_umem_recv_quit u =
     (if umemd_state u AND UMEM_STATE_QUIT_RECEIVED \<noteq> 0 then u
      else u\<lparr>umemd_state := umemd_state u OR UMEM_STATE_QUIT_RECEIVED OR UMEM_STATE_QUIT_HANDLED,
             from_qemu := False\<rparr>)"

text \<open>
  \<^verbatim>\<open>postcopy_incoming_umem_check_umem_done\<close>. \<open>finished i\<close> is what
  \<^verbatim>\<open>umem_shmem_finished\<close> answers for block \<open>i\<close>. The loop unmaps finished blocks up to
  the first unfinished one.
\<close>

fun check_umem_done_loop :: "(nat \<Rightarrow> bool) \<Rightarrow> nat \<Rightarrow> nat \<Rightarrow> bool \<times> nat list" where
  "check_umem_done_loop finished i 0 = (True, [])"
| "check_umem_done_loop finished i (Suc n) =
     (if finished i then
        (case check_umem_done_loop finished (Suc i) n of (d, um) \<Rightarrow> (d, i # um))
      else (False, []))"

definition postcopy_incoming_umem_check_umem_done :: "(nat \<Rightarrow> bool) \<Rightarrow> umemd_t \<Rightarrow> bool \<times> umemd_t" where
  "postcopy_incoming_umem_check_umem_done finished u =
     (case check_umem_done_loop finished 0 (length (blocks u)) of
        (all_done, um) \<Rightarrow>
          (let u1 = u\<lparr>shmem_unmapped := shmem_unmapped u @ um\<rparr> in
           (all_done, if all_done then postcopy_incoming_umem_done u1 else u1)))"

definition postcopy_incoming_umemd_pending_clean_create :: "umemd_t \<Rightarrow> umemd_t" where
  "postcopy_incoming_umemd_pending_clean_create u =
     u\<lparr>threads_created := threads_created u @ [pending_clean_thread]\<rparr>"

subsection \<open>How the daemon starts\<close>

text \<open>\<^verbatim>\<open>ffs\<close> of the C library: the 1-based index of the lowest set bit, 0 for 0.\<close>

fun ffs_nat :: "nat \<Rightarrow> nat" where
  "ffs_nat n = (if n = 0 then 0 else if odd n then 1 else Suc (ffs_nat (n div 2)))"

declare ffs_nat.simps [simp del]

definition ffs :: "int \<Rightarrow> int" where
  "ffs n = int (ffs_nat (nat n))"

text \<open>
  The page geometry \<^verbatim>\<open>postcopy_incoming_prepare\<close> computes from \<^verbatim>\<open>getpagesize()\<close>. The
  divisions are C divisions of positive \<^verbatim>\<open>int\<close>s, so the quotient of the smaller size by
  the larger is 0 and its shift is \<open>ffs 0 - 1 = -1\<close>.
\<close>

definition postcopy_incoming_prepare_geometry :: "nat \<Rightarrow> int \<Rightarrow> umemd_t \<Rightarrow> umemd_t" where
  "postcopy_incoming_prepare_geometry tpb hps u =
     (let nh = TARGET_PAGE_SIZE tpb div hps; nt = hps div TARGET_PAGE_SIZE tpb in
      u\<lparr>host_page_size := hps,
        host_page_shift := ffs hps - 1,
        nr_host_pages_per_target_page := nh,
        nr_target_pages_per_host_page := nt,
        target_to_host_page_shift := ffs nh - 1,
        host_to_target_page_shift := ffs nt - 1\<rparr>)"

text \<open>
  The bitmaps \<^verbatim>\<open>postcopy_incoming_create_umemd\<close> allocates for a block in the forked
  child: \<^verbatim>\<open>ROUND_UP(length >> TARGET_PAGE_BITS, 64)\<close> bits for the target-page bitmaps,
  \<^verbatim>\<open>length >> host_page_shift\<close> bits for the pending-clean bitmap.
\<close>

definition umem_block_new :: "nat \<Rightarrow> nat \<Rightarrow> u8 list \<Rightarrow> u64 \<Rightarrow> u64 \<Rightarrow> UMemBlock" where
  "umem_block_new tpb hshift ids off len =
     (let nbits = ((unat (drop_bit tpb len) + 63) div 64) * 64 in
      \<lparr>blk_idstr = ids, blk_offset = off, blk_length = len,
       phys_requested = bitmap_new nbits, phys_received = bitmap_new nbits,
       clean_bitmap = bitmap_new nbits,
       pending_clean_bitmap = bitmap_new (unat (drop_bit hshift len)),
       blk_nr_pending_clean = 0\<rparr>)"

text \<open>
  The daemon as \<^verbatim>\<open>postcopy_incoming_create_umemd\<close> and \<^verbatim>\<open>postcopy_incoming_umemd\<close> leave
  it before the threads run: state word 0, the two \<^verbatim>\<open>QEMUFile\<close>s of the pipes to the
  supervisor still \<^verbatim>\<open>NULL\<close> (the pipe thread opens them), both halves of the migration
  socket open, no block written yet, nothing in the fault buffer. \<open>bs\<close> gives
  name, offset and length of the blocks, \<open>stream\<close> the bytes the source will send.
\<close>

definition umemd_start ::
  "nat \<Rightarrow> int \<Rightarrow> bool \<Rightarrow> (u8 list \<times> u64 \<times> u64) list \<Rightarrow> u8 list \<Rightarrow> umemd_t" where
  "umemd_start tpb hps precopy bs stream =
     postcopy_incoming_prepare_geometry tpb hps
       \<lparr>umemd_state = 0, host_page_size = 0, host_page_shift = 0,
        nr_host_pages_per_target_page = 0, host_to_target_page_shift = 0,
        nr_target_pages_per_host_page = 0, target_to_host_page_shift = 0,
        umemd_precopy_enabled = precopy,
        blocks = map (\<lambda>(ids, off, len). umem_block_new tpb (nat (ffs hps - 1)) ids off len) bs,
        to_qemu = False, from_qemu = False, mig_read = Some stream, mig_write = True,
        umemd_rdma = False, last_block_write = None, fault_buf = [],
        to_qemu_sent = [], threads_created = [], shmem_unmapped = [], mark_cached_calls = [],
        mig_write_sent = [], shmem_removed = []\<rparr>"

subsection \<open>The clean-bitmap reader\<close>

text \<open>
  The bytes of a bitmap in the memory of the host, taken to be little-endian with 64-bit
  \<^verbatim>\<open>unsigned long\<close> (\<^verbatim>\<open>HOST_LONG_BITS == 64\<close>).
\<close>

definition bitmap_bytes :: "u64 list \<Rightarrow> u8 list" where
  "bitmap_bytes bm = concat (map (\<lambda>w. rev (put_be64 w)) bm)"

text \<open>The loop of \<^verbatim>\<open>postcopy_be64_to_bitmap\<close>: one big-endian u64 of the buffer per word.\<close>

fun be64_words :: "u8 list \<Rightarrow> nat \<Rightarrow> u64 list" where
  "be64_words buffer 0 = []"
| "be64_words buffer (Suc n) = be64_to_cpu (take 8 buffer) # be64_words (drop 8 buffer) n"

definition postcopy_be64_to_bitmap :: "u8 list \<Rightarrow> nat \<Rightarrow> stop + u64 list" where
  "postcopy_be64_to_bitmap buffer len =
     (if len mod 8 \<noteq> 0 then Inl Abort else Inr (be64_words buffer (len div 8)))"

definition postcopy_incoming_umemd_read_clean_bitmap_done :: "nat \<Rightarrow> UMemBlock \<Rightarrow> UMemBlock" where
  "postcopy_incoming_umemd_read_clean_bitmap_done tpb block =
     (let nbits = unat (drop_bit tpb (blk_length block)) in
      block\<lparr>phys_requested := bitmap_copy (phys_requested block) (phys_received block) nbits,
            clean_bitmap := bitmap_copy (clean_bitmap block) (phys_received block) nbits\<rparr>)"

fun find_block :: "(UMemBlock \<Rightarrow> bool) \<Rightarrow> UMemBlock list \<Rightarrow> nat option" where
  "find_block P [] = None"
| "find_block P (b # bs) = (if P b then Some 0 else map_option Suc (find_block P bs))"

text \<open>
  \<^verbatim>\<open>postcopy_incoming_umemd_read_clean_bitmap\<close>. The buffer is the memory of
  \<^verbatim>\<open>phys_received\<close>: the bytes read from the stream lie over its first bytes, the rest
  keeps what was there. A bitmap length beyond the allocation would write outside it.
\<close>

definition postcopy_incoming_umemd_read_clean_bitmap ::
  "nat \<Rightarrow> umemd_t \<Rightarrow> u8 list \<Rightarrow> u8 list \<Rightarrow> u8 \<Rightarrow> u64 \<Rightarrow> u64 \<Rightarrow> u64
   \<Rightarrow> unit result \<times> umemd_t \<times> u8 list" where
  "postcopy_incoming_umemd_read_clean_bitmap tpb u f idstr idlen block_offset block_length bitmap_length =
     (if unat bitmap_length mod 8 \<noteq> 0 then (Error EINVAL, u, f)
      else case find_block (\<lambda>b. strncmp_eq (blk_idstr b) idstr (unat idlen)) (blocks u) of
        None \<Rightarrow> (Error EINVAL, u, f)
      | Some i \<Rightarrow>
          (let block = blocks u ! i;
               mem = bitmap_bytes (phys_received block);
               (data, f1) = qemu_get_buffer f (unat bitmap_length)
           in if length mem < unat bitmap_length then (Stop BadDeref, u, f1)
              else
                let buffer = data @ drop (length data) mem in
                case postcopy_be64_to_bitmap buffer (unat bitmap_length) of
                  Inl s \<Rightarrow> (Stop s, u, f1)
                | Inr ws \<Rightarrow>
                    (let received = ws @ drop (length ws) (phys_received block);
                         block1 = postcopy_incoming_umemd_read_clean_bitmap_done tpb
                                    (block\<lparr>phys_received := received\<rparr>)
                     in (Ok (), u\<lparr>blocks := (blocks u)[i := block1]\<rparr>, f1))))"

text \<open>The five reads at the head of a record of the clean-bitmap preamble.\<close>

definition read_clean_bitmap_header :: "u8 list \<Rightarrow> (u8 \<times> u8 list \<times> u64 \<times> u64 \<times> u64) \<times> u8 list" where
  "read_clean_bitmap_header f =
     (let (idlen, f1) = qemu_get_byte f;
          (idstr, f2) = qemu_get_buffer f1 (unat idlen);
          (block_offset, f3) = qemu_get_be64 f2;
          (block_length, f4) = qemu_get_be64 f3;
          (bitmap_length, f5) = qemu_get_be64 f4
      in ((idlen, idstr, block_offset, block_length, bitmap_length), f5))"

lemma read_clean_bitmap_length:
  "postcopy_incoming_umemd_read_clean_bitmap tpb u f idstr idlen bo bl bml = (r, u', f')
   \<Longrightarrow> length f' \<le> length f"
  by (auto simp: postcopy_incoming_umemd_read_clean_bitmap_def qemu_get_buffer_def Let_def
           split: if_splits option.splits sum.splits)

lemma read_clean_bitmap_header_length:
  "read_clean_bitmap_header f = (h, f') \<Longrightarrow> length f' \<le> length f"
  by (auto simp: read_clean_bitmap_header_def qemu_get_byte_def qemu_get_buffer_def
           qemu_get_be64_def Let_def split: list.splits prod.splits)

lemma read_clean_bitmap_header_nil:
  "read_clean_bitmap_header [] = ((0, [], 0, 0, 0), [])"
  by (simp add: read_clean_bitmap_header_def qemu_get_byte_def qemu_get_buffer_def
        qemu_get_be64_def be64_to_cpu_def)

lemma read_clean_bitmap_header_shorter:
  "read_clean_bitmap_header f = (h, f') \<Longrightarrow> f \<noteq> [] \<Longrightarrow> length f' < length f"
  by (auto simp: read_clean_bitmap_header_def qemu_get_byte_def qemu_get_buffer_def
           qemu_get_be64_def Let_def split: list.splits prod.splits)

lemma read_clean_bitmap_step_shorter:
  assumes "((idlen, idstr, bo, bl, bml), f5) = read_clean_bitmap_header f"
    and "(r, u1, f6) = postcopy_incoming_umemd_read_clean_bitmap tpb u f5 idstr idlen bo bl bml"
    and "idlen \<noteq> 0 \<or> bo \<noteq> 0 \<or> bl \<noteq> 0 \<or> bml \<noteq> 0"
  shows "length f6 < length f"
proof -
  have "f \<noteq> []" using assms(1,3) read_clean_bitmap_header_nil by auto
  with assms(1)[symmetric] have "length f5 < length f"
    by (rule read_clean_bitmap_header_shorter)
  moreover have "length f6 \<le> length f5"
    using assms(2)[symmetric] by (rule read_clean_bitmap_length)
  ultimately show ?thesis by simp
qed

text \<open>
  \<^verbatim>\<open>postcopy_file_incoming_umemd_read_clean_bitmap\<close>: records until the all-zero
  terminator. At the end of the stream every read gives 0, which is the terminator.
\<close>

function postcopy_file_incoming_umemd_read_clean_bitmap ::
  "nat \<Rightarrow> umemd_t \<Rightarrow> u8 list \<Rightarrow> unit result \<times> umemd_t \<times> u8 list" where
  "postcopy_file_incoming_umemd_read_clean_bitmap tpb u f =
     (case read_clean_bitmap_header f of
        ((idlen, idstr, block_offset, block_length, bitmap_length), f5) \<Rightarrow>
          if idlen = 0 \<and> block_offset = 0 \<and> block_length = 0 \<and> bitmap_length = 0
          then (Ok (), u, f5)
          else
            (case postcopy_incoming_umemd_read_clean_bitmap tpb u f5 idstr idlen
                    block_offset block_length bitmap_length of
               (Ok x, u1, f6) \<Rightarrow> postcopy_file_incoming_umemd_read_clean_bitmap tpb u1 f6
             | (Error e, u1, f6) \<Rightarrow> (Error e, u1, f6)
             | (Stop s, u1, f6) \<Rightarrow> (Stop s, u1, f6)))"
  by pat_completeness auto
termination
  by (relation "measure (\<lambda>(tpb, u, f). length f)")
     (auto intro: read_clean_bitmap_step_shorter)

subsection \<open>The threads of the daemon\<close>

text \<open>
  \<^verbatim>\<open>postcopy_incoming_umemd_mig_read_init\<close>. \<open>rdma_ret\<close> is what the RDMA variant of the
  bitmap reader returns (it lives in another file); \<open>finished\<close> as above. The bitmap
  thread is created only after the bitmap was read.
\<close>

definition postcopy_incoming_umemd_mig_read_init ::
  "nat \<Rightarrow> (nat \<Rightarrow> bool) \<Rightarrow> unit result \<Rightarrow> umemd_t \<Rightarrow> unit result \<times> umemd_t" where
  "postcopy_incoming_umemd_mig_read_init tpb finished rdma_ret u =
     (if \<not> umemd_precopy_enabled u then (Ok (), postcopy_incoming_umemd_pending_clean_create u)
      else
        let (ret, u1) =
              (if umemd_rdma u then (rdma_ret, u)
               else case mig_read u of
                      None \<Rightarrow> (Stop BadDeref, u)
                    | Some f \<Rightarrow>
                        (case postcopy_file_incoming_umemd_read_clean_bitmap tpb u f of
                           (r, u', f') \<Rightarrow> (r, u'\<lparr>mig_read := Some f'\<rparr>)))
        in case ret of
             Ok x \<Rightarrow>
               (let u2 = u1\<lparr>threads_created := threads_created u1 @ [bitmap_thread]\<rparr>
                in (Ok (), snd (postcopy_incoming_umem_check_umem_done finished u2)))
           | Error e \<Rightarrow> (Error e, u1)
           | Stop s \<Rightarrow> (Stop s, u1))"

text \<open>
  \<^verbatim>\<open>postcopy_incoming_umemd_mig_read_loop\<close>; \<open>ram_load\<close> is a call of
  \<^verbatim>\<open>postcopy_incoming_umem_ram_load\<close> (or of its RDMA variant), which reads one page of
  the stream.
\<close>

definition postcopy_incoming_umemd_mig_read_loop ::
  "(umemd_t \<Rightarrow> unit result \<times> umemd_t) \<Rightarrow> umemd_t \<Rightarrow> unit result \<times> umemd_t" where
  "postcopy_incoming_umemd_mig_read_loop ram_load u =
     (if \<not> umemd_rdma u \<and> mig_read u = None then (Error EINVAL, u)
      else case ram_load u of
             (Ok x, u1) \<Rightarrow> (Ok (), u1)
           | (Error e, u1) \<Rightarrow> (Error e, postcopy_incoming_umem_error_req u1)
           | (Stop s, u1) \<Rightarrow> (Stop s, u1))"

text \<open>
  \<^verbatim>\<open>postcopy_incoming_umemd_pipe_init\<close>: the handshake with the supervisor, which opens
  the two \<^verbatim>\<open>QEMUFile\<close>s of the pipes. \<^verbatim>\<open>umem_daemon_ready\<close> and
  \<^verbatim>\<open>umem_daemon_wait_for_qemu\<close> are in another file; whether they succeed is for the
  surroundings to say. A failure aborts.
\<close>

definition postcopy_incoming_umemd_pipe_init :: "bool \<Rightarrow> bool \<Rightarrow> umemd_t \<Rightarrow> unit result \<times> umemd_t" where
  "postcopy_incoming_umemd_pipe_init ready_ok wait_ok u =
     (if \<not> ready_ok then (Stop Abort, u)
      else
        let u1 = u\<lparr>to_qemu := True\<rparr> in
        if \<not> wait_ok then (Stop Abort, u1)
        else (Ok (), u1\<lparr>from_qemu := True\<rparr>))"

text \<open>
  \<^verbatim>\<open>postcopy_incoming_umemd_pipe_loop\<close>. \<open>sel\<close> is what \<^verbatim>\<open>select\<close> gives, \<open>cmd\<close> the
  command byte read from the supervisor when its pipe is readable.
\<close>

datatype select_ret = SelEINTR | SelError | SelOk bool

datatype qemu_cmd = UMEM_QEMU_QUIT | UMEM_QEMU_ZERO | UMEM_QEMU_OTHER

definition pipe_loop_send :: "umemd_t \<Rightarrow> umemd_t" where
  "pipe_loop_send u =
     (if \<not> to_qemu u then u
      else
        let u1 = (if umemd_state u AND UMEM_STATE_ERROR_REQ \<noteq> 0 \<and>
                     umemd_state u AND UMEM_STATE_ERROR_SENDING = 0
                  then u\<lparr>umemd_state := umemd_state u OR UMEM_STATE_ERROR_SENDING OR UMEM_STATE_ERROR_SENT,
                         to_qemu_sent := to_qemu_sent u @ [UMEM_DAEMON_ERROR]\<rparr>
                  else u)
        in if umemd_state u1 AND UMEM_STATE_QUIT_QUEUED \<noteq> 0 \<and>
              umemd_state u1 AND (UMEM_STATE_QUIT_SENDING OR UMEM_STATE_QUIT_SENT) = 0
           then u1\<lparr>umemd_state := umemd_state u1 OR UMEM_STATE_QUIT_SENDING OR UMEM_STATE_QUIT_SENT,
                   to_qemu_sent := to_qemu_sent u1 @ [UMEM_DAEMON_QUIT],
                   to_qemu := False\<rparr>
           else u1)"

definition postcopy_incoming_umemd_pipe_loop ::
  "select_ret \<Rightarrow> qemu_cmd \<Rightarrow> umemd_t \<Rightarrow> unit result \<times> umemd_t" where
  "postcopy_incoming_umemd_pipe_loop sel cmd u =
     (case sel of
        SelEINTR \<Rightarrow> (Ok (), u)
      | SelError \<Rightarrow> (Error (ERRNO 1), u)
      | SelOk readable \<Rightarrow>
          (if from_qemu u \<and> readable then
             (case cmd of
                UMEM_QEMU_QUIT \<Rightarrow>
                  (Ok (), pipe_loop_send (postcopy_incoming_umem_done (postcopy_incoming_umem_recv_quit u)))
              | UMEM_QEMU_ZERO \<Rightarrow> (Ok (), pipe_loop_send u)
              | UMEM_QEMU_OTHER \<Rightarrow> (Stop Abort, u))
           else (Ok (), pipe_loop_send u)))"

text \<open>
  \<^verbatim>\<open>postcopy_incoming_umemd_thread\<close>, a step at a time, so that the threads of the
  daemon can take turns. A thread is not created yet, at its \<open>init_func\<close>, in its
  \<^verbatim>\<open>for (;;)\<close> loop, or has returned. The step at \<open>init_func\<close> runs it: on an error the thread latches
  \<^verbatim>\<open>UMEM_STATE_ERROR_REQ\<close> and returns. A step in the loop returns when the state word
  holds the whole end mask, and else runs \<open>loop_func\<close> once and returns when that gives
  non-zero. \<open>Inl\<close> is the process stopped inside the step.
\<close>

datatype thread_pos = Unborn | AtInit | InLoop | Returned

definition postcopy_incoming_umemd_thread ::
  "(umemd_t \<Rightarrow> unit result \<times> umemd_t) option \<Rightarrow> (umemd_t \<Rightarrow> unit result \<times> umemd_t)
   \<Rightarrow> thread_pos \<Rightarrow> umemd_t \<Rightarrow> stop + thread_pos \<times> umemd_t" where
  "postcopy_incoming_umemd_thread init_func loop_func pos u =
     (case pos of
        Unborn \<Rightarrow> Inr (Unborn, u)
      | Returned \<Rightarrow> Inr (Returned, u)
      | AtInit \<Rightarrow>
          (case init_func of
             None \<Rightarrow> Inr (InLoop, u)
           | Some init \<Rightarrow>
               (case init u of
                  (Ok x, u1) \<Rightarrow> Inr (InLoop, u1)
                | (Error e, u1) \<Rightarrow> Inr (Returned, postcopy_incoming_umem_error_req u1)
                | (Stop s, u1) \<Rightarrow> Inl s))
      | InLoop \<Rightarrow>
          (if umemd_state u AND UMEM_STATE_END_MASK = UMEM_STATE_END_MASK then Inr (Returned, u)
           else case loop_func u of
                  (Ok x, u1) \<Rightarrow> Inr (InLoop, u1)
                | (Error e, u1) \<Rightarrow> Inr (Returned, u1)
                | (Stop s, u1) \<Rightarrow> Inl s))"

subsection \<open>The main thread of the daemon up to its second join\<close>

text \<open>
  \<^verbatim>\<open>qemu_thread_join\<close> is in another file. On a handle that \<^verbatim>\<open>qemu_thread_create\<close> has
  filled, the caller comes back once the thread has returned. A handle never filled is the
  zero \<^verbatim>\<open>pthread_t\<close> of the static \<^verbatim>\<open>umemd\<close>; what joining it does is for the thread
  library to say: \<open>unfilled\<close> is \<open>Some s\<close> when the process stops there, \<open>None\<close> when the
  caller comes back.
\<close>

definition qemu_thread_join :: "stop option \<Rightarrow> daemon_thread \<Rightarrow> umemd_t \<Rightarrow> stop option" where
  "qemu_thread_join unfilled t u = (if t \<in> set (threads_created u) then None else unfilled)"

text \<open>
  \<^verbatim>\<open>postcopy_incoming_umemd\<close> with the read thread and the pipe thread, the threads that
  a refused bitmap concerns. The main thread creates its four threads, joins the read
  thread, which holds it until that thread has returned, and, if precopy is enabled, joins
  the bitmap thread. What comes after that join (the joins of the write, pipe,
  pending-clean and fault threads and the cleanup) is not followed, nor are the turns of
  the write and fault threads, which put nothing on the pipe to the supervisor and create
  no thread.
\<close>

datatype main_pos = AtCreate | AtJoinRead | AtJoinBitmap | AfterJoinBitmap

record daemon =
  d_umemd :: umemd_t
  d_main :: main_pos
  d_read :: thread_pos
  d_pipe :: thread_pos

text \<open>
  Whose turn it is. A turn of the pipe thread comes with what it meets: whether the two
  halves of the handshake succeed, what \<^verbatim>\<open>select\<close> gives and the command byte read.
\<close>

datatype turn = RunMain | RunRead | RunPipe bool bool select_ret qemu_cmd

definition umemd_main_step :: "stop option \<Rightarrow> daemon \<Rightarrow> stop + daemon" where
  "umemd_main_step unfilled d =
     (case d_main d of
        AtCreate \<Rightarrow>
          Inr (d\<lparr>d_umemd := (d_umemd d)\<lparr>threads_created := threads_created (d_umemd d)
                   @ [umemd_fault_thread, mig_read_thread, mig_write_thread, pipe_thread]\<rparr>,
                 d_read := AtInit, d_pipe := AtInit, d_main := AtJoinRead\<rparr>)
      | AtJoinRead \<Rightarrow>
          (case qemu_thread_join unfilled mig_read_thread (d_umemd d) of
             Some s \<Rightarrow> Inl s
           | None \<Rightarrow> if d_read d = Returned then Inr (d\<lparr>d_main := AtJoinBitmap\<rparr>) else Inr d)
      | AtJoinBitmap \<Rightarrow>
          (if umemd_precopy_enabled (d_umemd d) then
             (case qemu_thread_join unfilled bitmap_thread (d_umemd d) of
                Some s \<Rightarrow> Inl s
              | None \<Rightarrow> Inr (d\<lparr>d_main := AfterJoinBitmap\<rparr>))
           else Inr (d\<lparr>d_main := AfterJoinBitmap\<rparr>))
      | AfterJoinBitmap \<Rightarrow> Inr d)"

definition umemd_step ::
  "stop option \<Rightarrow> nat \<Rightarrow> (nat \<Rightarrow> bool) \<Rightarrow> unit result \<Rightarrow> (umemd_t \<Rightarrow> unit result \<times> umemd_t)
   \<Rightarrow> turn \<Rightarrow> daemon \<Rightarrow> stop + daemon" where
  "umemd_step unfilled tpb finished rdma_ret ram_load t d =
     (case t of
        RunMain \<Rightarrow> umemd_main_step unfilled d
      | RunRead \<Rightarrow>
          (case postcopy_incoming_umemd_thread
                  (Some (postcopy_incoming_umemd_mig_read_init tpb finished rdma_ret))
                  (postcopy_incoming_umemd_mig_read_loop ram_load) (d_read d) (d_umemd d) of
             Inl s \<Rightarrow> Inl s
           | Inr (pos, u) \<Rightarrow> Inr (d\<lparr>d_umemd := u, d_read := pos\<rparr>))
      | RunPipe ready_ok wait_ok sel cmd \<Rightarrow>
          (case postcopy_incoming_umemd_thread
                  (Some (postcopy_incoming_umemd_pipe_init ready_ok wait_ok))
                  (postcopy_incoming_umemd_pipe_loop sel cmd) (d_pipe d) (d_umemd d) of
             Inl s \<Rightarrow> Inl s
           | Inr (pos, u) \<Rightarrow> Inr (d\<lparr>d_umemd := u, d_pipe := pos\<rparr>)))"

text \<open>
  The daemon over a list of turns. The result is the daemon after the turns, or what
  stopped the process and the daemon as it was then.
\<close>

fun umemd_run ::
  "stop option \<Rightarrow> nat \<Rightarrow> (nat \<Rightarrow> bool) \<Rightarrow> unit result \<Rightarrow> (umemd_t \<Rightarrow> unit result \<times> umemd_t)
   \<Rightarrow> turn list \<Rightarrow> daemon \<Rightarrow> stop option \<times> daemon" where
  "umemd_run unfilled tpb finished rdma_ret ram_load [] d = (None, d)"
| "umemd_run unfilled tpb finished rdma_ret ram_load (t # ts) d =
     (case umemd_step unfilled tpb finished rdma_ret ram_load t d of
        Inl s \<Rightarrow> (Some s, d)
      | Inr d1 \<Rightarrow> umemd_run unfilled tpb finished rdma_ret ram_load ts d1)"

text \<open>\<^verbatim>\<open>postcopy_incoming_umemd\<close>, from its call in the forked child.\<close>

definition postcopy_incoming_umemd ::
  "stop option \<Rightarrow> nat \<Rightarrow> (nat \<Rightarrow> bool) \<Rightarrow> unit result \<Rightarrow> (umemd_t \<Rightarrow> unit result \<times> umemd_t)
   \<Rightarrow> turn list \<Rightarrow> umemd_t \<Rightarrow> stop option \<times> daemon" where
  "postcopy_incoming_umemd unfilled tpb finished rdma_ret ram_load ts u =
     umemd_run unfilled tpb finished rdma_ret ram_load ts
       \<lparr>d_umemd = u, d_main = AtCreate, d_read = Unborn, d_pipe = Unborn\<rparr>"

text \<open>
  The preamble up to a record: \<open>n\<close> records are read from the stream, none of them the
  terminator and none refused. The result is the daemon and the stream after them.
\<close>

fun read_records :: "nat \<Rightarrow> nat \<Rightarrow> umemd_t \<Rightarrow> u8 list \<Rightarrow> (umemd_t \<times> u8 list) option" where
  "read_records tpb 0 u f = Some (u, f)"
| "read_records tpb (Suc n) u f =
     (case read_clean_bitmap_header f of
        ((idlen, idstr, block_offset, block_length, bitmap_length), f5) \<Rightarrow>
          if idlen = 0 \<and> block_offset = 0 \<and> block_length = 0 \<and> bitmap_length = 0 then None
          else
            (case postcopy_incoming_umemd_read_clean_bitmap tpb u f5 idstr idlen
                    block_offset block_length bitmap_length of
               (Ok x, u1, f6) \<Rightarrow> read_records tpb n u1 f6
             | (Error e, u1, f6) \<Rightarrow> None
             | (Stop s, u1, f6) \<Rightarrow> None))"

subsection \<open>A bitmap length that is not a multiple of 8\<close>

lemma error_req_bit: "(s OR UMEM_STATE_ERROR_REQ) AND UMEM_STATE_ERROR_REQ \<noteq> 0"
proof -
  have "(s OR UMEM_STATE_ERROR_REQ) AND UMEM_STATE_ERROR_REQ = UMEM_STATE_ERROR_REQ"
    by (rule bit_word_eqI) (auto simp: bit_simps)
  then show ?thesis by (simp add: UMEM_STATE_ERROR_REQ_def)
qed

lemma error_sending_clear:
  "s AND UMEM_STATE_ERROR_SENDING = 0 \<Longrightarrow> (s OR UMEM_STATE_ERROR_REQ) AND UMEM_STATE_ERROR_SENDING = 0"
proof -
  assume a: "s AND UMEM_STATE_ERROR_SENDING = 0"
  have "UMEM_STATE_ERROR_REQ AND UMEM_STATE_ERROR_SENDING = 0"
    by (simp add: UMEM_STATE_ERROR_REQ_def UMEM_STATE_ERROR_SENDING_def)
  with a show ?thesis by (simp add: bit.conj_disj_distrib2)
qed

text \<open>A record of the preamble touches the blocks and nothing else of the daemon.\<close>

lemma read_clean_bitmap_blocks_only:
  "postcopy_incoming_umemd_read_clean_bitmap tpb u f ids idl bo bl bml = (r, u', f')
   \<Longrightarrow> u' = u\<lparr>blocks := blocks u'\<rparr>"
  by (auto simp: postcopy_incoming_umemd_read_clean_bitmap_def Let_def
           split: if_splits option.splits sum.splits prod.splits)

lemma read_clean_bitmap_threads:
  "postcopy_incoming_umemd_read_clean_bitmap tpb (u\<lparr>threads_created := t\<rparr>) f ids idl bo bl bml =
     (case postcopy_incoming_umemd_read_clean_bitmap tpb u f ids idl bo bl bml of
        (r, u', f') \<Rightarrow> (r, u'\<lparr>threads_created := t\<rparr>, f'))"
  by (auto simp: postcopy_incoming_umemd_read_clean_bitmap_def Let_def
           split: if_splits option.splits sum.splits prod.splits)

lemma read_records_blocks_only:
  "read_records tpb n u f = Some (u1, f1) \<Longrightarrow> u1 = u\<lparr>blocks := blocks u1\<rparr>"
proof (induction n arbitrary: u f)
  case 0
  then show ?case by simp
next
  case (Suc n)
  obtain idlen idstr bo bl bml f5 where
    hdr: "read_clean_bitmap_header f = ((idlen, idstr, bo, bl, bml), f5)"
    by (metis prod_cases5 surj_pair)
  obtain r u2 f6 where
    one: "postcopy_incoming_umemd_read_clean_bitmap tpb u f5 idstr idlen bo bl bml = (r, u2, f6)"
    by (metis prod_cases3)
  from Suc.prems hdr one have rest: "read_records tpb n u2 f6 = Some (u1, f1)"
    by (auto split: if_splits result.splits)
  from Suc.IH[OF rest] have "u1 = u2\<lparr>blocks := blocks u1\<rparr>" .
  moreover from read_clean_bitmap_blocks_only[OF one] have "u2 = u\<lparr>blocks := blocks u2\<rparr>" .
  ultimately show ?case by (metis umemd_t.update_convs(9) umemd_t.surjective)
qed

lemma read_records_threads:
  "read_records tpb n (u\<lparr>threads_created := t\<rparr>) f =
     map_option (\<lambda>(u', f'). (u'\<lparr>threads_created := t\<rparr>, f')) (read_records tpb n u f)"
proof (induction n arbitrary: u f)
  case 0
  then show ?case by simp
next
  case (Suc n)
  obtain idlen idstr bo bl bml f5 where
    hdr: "read_clean_bitmap_header f = ((idlen, idstr, bo, bl, bml), f5)"
    by (metis prod_cases5 surj_pair)
  obtain r u2 f6 where
    one: "postcopy_incoming_umemd_read_clean_bitmap tpb u f5 idstr idlen bo bl bml = (r, u2, f6)"
    by (metis prod_cases3)
  have two: "postcopy_incoming_umemd_read_clean_bitmap tpb (u\<lparr>threads_created := t\<rparr>) f5 idstr idlen bo bl bml
               = (r, u2\<lparr>threads_created := t\<rparr>, f6)"
    by (simp add: read_clean_bitmap_threads one)
  show ?case
  proof (cases "idlen = 0 \<and> bo = 0 \<and> bl = 0 \<and> bml = 0")
    case True
    then show ?thesis using hdr by simp
  next
    case False
    then show ?thesis using hdr one two Suc.IH[of u2 f6] by (cases r) auto
  qed
qed

text \<open>The loop over the records, after records that were read, goes on behind them.\<close>

lemma read_clean_bitmap_after_records:
  "read_records tpb n u f = Some (u1, f1) \<Longrightarrow>
   postcopy_file_incoming_umemd_read_clean_bitmap tpb u f
     = postcopy_file_incoming_umemd_read_clean_bitmap tpb u1 f1"
proof (induction n arbitrary: u f)
  case 0
  then show ?case by simp
next
  case (Suc n)
  obtain idlen idstr bo bl bml f5 where
    hdr: "read_clean_bitmap_header f = ((idlen, idstr, bo, bl, bml), f5)"
    by (metis prod_cases5 surj_pair)
  obtain r u2 f6 where
    one: "postcopy_incoming_umemd_read_clean_bitmap tpb u f5 idstr idlen bo bl bml = (r, u2, f6)"
    by (metis prod_cases3)
  from Suc.prems hdr one have nz: "\<not> (idlen = 0 \<and> bo = 0 \<and> bl = 0 \<and> bml = 0)"
    and ok: "r = Ok ()" and rest: "read_records tpb n u2 f6 = Some (u1, f1)"
    by (auto split: if_splits result.splits)
  have "postcopy_file_incoming_umemd_read_clean_bitmap tpb u f
          = postcopy_file_incoming_umemd_read_clean_bitmap tpb u2 f6"
    using hdr one nz ok by (subst postcopy_file_incoming_umemd_read_clean_bitmap.simps) auto
  with Suc.IH[OF rest] show ?case by simp
qed


lemma end_mask_error_req:
  "(s OR UMEM_STATE_ERROR_REQ) AND UMEM_STATE_END_MASK = s AND UMEM_STATE_END_MASK"
proof -
  have "UMEM_STATE_ERROR_REQ AND UMEM_STATE_END_MASK = 0"
    by (simp add: UMEM_STATE_ERROR_REQ_def UMEM_STATE_END_MASK_def UMEM_STATE_QUIT_MASK_def
          UMEM_STATE_EOS_RECEIVED_def UMEM_STATE_EOC_SEND_REQ_def UMEM_STATE_EOC_SENDING_def
          UMEM_STATE_EOC_SENT_def UMEM_STATE_QUIT_QUEUED_def UMEM_STATE_QUIT_SENDING_def
          UMEM_STATE_QUIT_SENT_def UMEM_STATE_QUIT_RECEIVED_def UMEM_STATE_QUIT_HANDLED_def)
  then show ?thesis by (simp add: bit.conj_disj_distrib2)
qed

text \<open>The record with the bad length, behind \<open>n\<close> records that were read.\<close>

lemma bad_record_refused:
  assumes recs: "read_records tpb n u f = Some (u1, f1)"
    and hdr: "read_clean_bitmap_header f1 = ((idlen, idstr, bo, bl, bml), f5)"
    and bad: "unat bml mod 8 \<noteq> 0"
  shows "postcopy_incoming_umemd_read_clean_bitmap tpb u1 f5 idstr idlen bo bl bml
           = (Error EINVAL, u1, f5)"
    and "postcopy_file_incoming_umemd_read_clean_bitmap tpb u f = (Error EINVAL, u1, f5)"
proof -
  show one: "postcopy_incoming_umemd_read_clean_bitmap tpb u1 f5 idstr idlen bo bl bml
           = (Error EINVAL, u1, f5)"
    using bad by (simp add: postcopy_incoming_umemd_read_clean_bitmap_def)
  have nz: "bml \<noteq> 0" using bad by auto
  have "postcopy_file_incoming_umemd_read_clean_bitmap tpb u1 f1 = (Error EINVAL, u1, f5)"
    using hdr one nz by (subst postcopy_file_incoming_umemd_read_clean_bitmap.simps) simp
  with read_clean_bitmap_after_records[OF recs]
  show "postcopy_file_incoming_umemd_read_clean_bitmap tpb u f = (Error EINVAL, u1, f5)" by simp
qed

lemma bad_record_read_init:
  assumes recs: "read_records tpb n u f = Some (u1, f1)"
    and hdr: "read_clean_bitmap_header f1 = ((idlen, idstr, bo, bl, bml), f5)"
    and bad: "unat bml mod 8 \<noteq> 0"
    and pre: "umemd_precopy_enabled u" and nr: "\<not> umemd_rdma u" and mr: "mig_read u = Some f"
  shows "postcopy_incoming_umemd_mig_read_init tpb finished rdma_ret u
           = (Error EINVAL, u1\<lparr>mig_read := Some f5\<rparr>)"
  using pre nr mr bad_record_refused(2)[OF recs hdr bad]
  by (simp add: postcopy_incoming_umemd_mig_read_init_def)

text \<open>The daemon when the main thread has created its threads.\<close>

definition created :: "umemd_t \<Rightarrow> umemd_t" where
  "created u = u\<lparr>threads_created := threads_created u
                   @ [umemd_fault_thread, mig_read_thread, mig_write_thread, pipe_thread]\<rparr>"

lemma bad_record_read_turn:
  assumes recs: "read_records tpb n u f = Some (u1, f1)"
    and hdr: "read_clean_bitmap_header f1 = ((idlen, idstr, bo, bl, bml), f5)"
    and bad: "unat bml mod 8 \<noteq> 0"
    and pre: "umemd_precopy_enabled u" and nr: "\<not> umemd_rdma u" and mr: "mig_read u = Some f"
  shows "postcopy_incoming_umemd_thread
           (Some (postcopy_incoming_umemd_mig_read_init tpb finished rdma_ret)) loop_func
           AtInit (created u)
         = Inr (Returned, postcopy_incoming_umem_error_req ((created u1)\<lparr>mig_read := Some f5\<rparr>))"
proof -
  have recs': "read_records tpb n (created u) f = Some (created u1, f1)"
    using recs read_records_blocks_only[OF recs]
    by (simp add: created_def read_records_threads) (metis umemd_t.select_convs(18) umemd_t.surjective umemd_t.update_convs(9))
  have "postcopy_incoming_umemd_mig_read_init tpb finished rdma_ret (created u)
           = (Error EINVAL, (created u1)\<lparr>mig_read := Some f5\<rparr>)"
    using pre nr mr by (intro bad_record_read_init[OF recs' hdr bad]) (simp_all add: created_def)
  then show ?thesis
    by (simp add: postcopy_incoming_umemd_thread_def)
qed


text \<open>
  The daemon when the read thread has refused the record: the state after the records read
  before it, the stream right behind the bad header, \<^verbatim>\<open>UMEM_STATE_ERROR_REQ\<close> latched.
\<close>

definition refused :: "umemd_t \<Rightarrow> u8 list \<Rightarrow> umemd_t" where
  "refused u1 f5 = postcopy_incoming_umem_error_req ((created u1)\<lparr>mig_read := Some f5\<rparr>)"

lemma bad_record_main_joins:
  assumes recs: "read_records tpb n u f = Some (u1, f1)"
    and hdr: "read_clean_bitmap_header f1 = ((idlen, idstr, bo, bl, bml), f5)"
    and bad: "unat bml mod 8 \<noteq> 0"
    and pre: "umemd_precopy_enabled u" and nr: "\<not> umemd_rdma u" and mr: "mig_read u = Some f"
    and nb: "bitmap_thread \<notin> set (threads_created u)"
  shows "postcopy_incoming_umemd unfilled tpb finished rdma_ret ram_load
           (RunMain # RunRead # RunMain # RunMain # ts) u
         = (case unfilled of
              Some s \<Rightarrow> (Some s, \<lparr>d_umemd = refused u1 f5, d_main = AtJoinBitmap,
                                    d_read = Returned, d_pipe = AtInit\<rparr>)
            | None \<Rightarrow> umemd_run unfilled tpb finished rdma_ret ram_load ts
                        \<lparr>d_umemd = refused u1 f5, d_main = AfterJoinBitmap,
                         d_read = Returned, d_pipe = AtInit\<rparr>)"
proof -
  note turn = bad_record_read_turn[OF recs hdr bad pre nr mr, of finished rdma_ret
      "postcopy_incoming_umemd_mig_read_loop ram_load"]
  have u1: "u1 = u\<lparr>blocks := blocks u1\<rparr>" by (rule read_records_blocks_only[OF recs])
  have th: "threads_created (refused u1 f5) = threads_created u
              @ [umemd_fault_thread, mig_read_thread, mig_write_thread, pipe_thread]"
    and pe: "umemd_precopy_enabled (refused u1 f5)"
    using pre by (subst u1, simp add: refused_def created_def postcopy_incoming_umem_error_req_def)+
  have s1: "umemd_step unfilled tpb finished rdma_ret ram_load RunMain
              \<lparr>d_umemd = u, d_main = AtCreate, d_read = Unborn, d_pipe = Unborn\<rparr>
            = Inr \<lparr>d_umemd = created u, d_main = AtJoinRead, d_read = AtInit, d_pipe = AtInit\<rparr>"
    by (simp add: umemd_step_def umemd_main_step_def created_def)
  have s2: "umemd_step unfilled tpb finished rdma_ret ram_load RunRead
              \<lparr>d_umemd = created u, d_main = AtJoinRead, d_read = AtInit, d_pipe = AtInit\<rparr>
            = Inr \<lparr>d_umemd = refused u1 f5, d_main = AtJoinRead, d_read = Returned, d_pipe = AtInit\<rparr>"
    using turn by (simp add: umemd_step_def refused_def)
  have s3: "umemd_step unfilled tpb finished rdma_ret ram_load RunMain
              \<lparr>d_umemd = refused u1 f5, d_main = AtJoinRead, d_read = Returned, d_pipe = AtInit\<rparr>
            = Inr \<lparr>d_umemd = refused u1 f5, d_main = AtJoinBitmap, d_read = Returned, d_pipe = AtInit\<rparr>"
    by (simp add: umemd_step_def umemd_main_step_def qemu_thread_join_def th)
  have s4: "umemd_step unfilled tpb finished rdma_ret ram_load RunMain
              \<lparr>d_umemd = refused u1 f5, d_main = AtJoinBitmap, d_read = Returned, d_pipe = AtInit\<rparr>
            = (case unfilled of
                 Some s \<Rightarrow> Inl s
               | None \<Rightarrow> Inr \<lparr>d_umemd = refused u1 f5, d_main = AfterJoinBitmap,
                                d_read = Returned, d_pipe = AtInit\<rparr>)"
    using nb pe by (simp add: umemd_step_def umemd_main_step_def qemu_thread_join_def th
                      split: option.splits)
  show ?thesis
    by (simp add: postcopy_incoming_umemd_def s1 s2 s3 s4 split: option.splits)
qed

text \<open>The round of the pipe thread that finds the error requested puts \<^verbatim>\<open>ERROR\<close> first.\<close>

lemma pipe_loop_send_error:
  assumes "to_qemu v" and "umemd_state v AND UMEM_STATE_ERROR_REQ \<noteq> 0"
    and "umemd_state v AND UMEM_STATE_ERROR_SENDING = 0"
  shows "take (Suc (length (to_qemu_sent v))) (to_qemu_sent (pipe_loop_send v))
           = to_qemu_sent v @ [UMEM_DAEMON_ERROR]"
  using assms by (simp add: pipe_loop_send_def Let_def)

lemma bad_record_pipe_first:
  assumes recs: "read_records tpb n u f = Some (u1, f1)"
    and hdr: "read_clean_bitmap_header f1 = ((idlen, idstr, bo, bl, bml), f5)"
    and bad: "unat bml mod 8 \<noteq> 0"
    and pre: "umemd_precopy_enabled u" and nr: "\<not> umemd_rdma u" and mr: "mig_read u = Some f"
    and nb: "bitmap_thread \<notin> set (threads_created u)"
    and ns: "umemd_state u AND UMEM_STATE_ERROR_SENDING = 0"
    and ne: "umemd_state u AND UMEM_STATE_END_MASK \<noteq> UMEM_STATE_END_MASK"
  shows "postcopy_incoming_umemd (Some s) tpb finished rdma_ret ram_load
           (RunMain # RunRead # RunPipe True True sel cmd # RunPipe a b (SelOk False) cmd'
              # RunMain # RunMain # ts) u
         = (Some s, \<lparr>d_umemd = pipe_loop_send ((refused u1 f5)\<lparr>to_qemu := True, from_qemu := True\<rparr>),
                     d_main = AtJoinBitmap, d_read = Returned, d_pipe = InLoop\<rparr>)"
    and "take (Suc (length (to_qemu_sent u)))
           (to_qemu_sent (pipe_loop_send ((refused u1 f5)\<lparr>to_qemu := True, from_qemu := True\<rparr>)))
         = to_qemu_sent u @ [UMEM_DAEMON_ERROR]"
proof -
  let ?v = "(refused u1 f5)\<lparr>to_qemu := True, from_qemu := True\<rparr>"
  note turn = bad_record_read_turn[OF recs hdr bad pre nr mr, of finished rdma_ret
      "postcopy_incoming_umemd_mig_read_loop ram_load"]
  have u1: "u1 = u\<lparr>blocks := blocks u1\<rparr>" by (rule read_records_blocks_only[OF recs])
  have st: "umemd_state ?v = umemd_state u OR UMEM_STATE_ERROR_REQ"
    and sent: "to_qemu_sent ?v = to_qemu_sent u"
    and th: "threads_created ?v = threads_created u
              @ [umemd_fault_thread, mig_read_thread, mig_write_thread, pipe_thread]"
    and pe: "umemd_precopy_enabled ?v"
    using pre by (subst u1, simp add: refused_def created_def postcopy_incoming_umem_error_req_def)+
  have th': "threads_created (pipe_loop_send ?v) = threads_created ?v"
    and pe': "umemd_precopy_enabled (pipe_loop_send ?v)"
    using pe by (simp_all add: pipe_loop_send_def Let_def)
  have s1: "umemd_step (Some s) tpb finished rdma_ret ram_load RunMain
              \<lparr>d_umemd = u, d_main = AtCreate, d_read = Unborn, d_pipe = Unborn\<rparr>
            = Inr \<lparr>d_umemd = created u, d_main = AtJoinRead, d_read = AtInit, d_pipe = AtInit\<rparr>"
    by (simp add: umemd_step_def umemd_main_step_def created_def)
  have s2: "umemd_step (Some s) tpb finished rdma_ret ram_load RunRead
              \<lparr>d_umemd = created u, d_main = AtJoinRead, d_read = AtInit, d_pipe = AtInit\<rparr>
            = Inr \<lparr>d_umemd = refused u1 f5, d_main = AtJoinRead, d_read = Returned, d_pipe = AtInit\<rparr>"
    using turn by (simp add: umemd_step_def refused_def)
  have s3: "umemd_step (Some s) tpb finished rdma_ret ram_load (RunPipe True True sel cmd)
              \<lparr>d_umemd = refused u1 f5, d_main = AtJoinRead, d_read = Returned, d_pipe = AtInit\<rparr>
            = Inr \<lparr>d_umemd = ?v, d_main = AtJoinRead, d_read = Returned, d_pipe = InLoop\<rparr>"
    by (simp add: umemd_step_def postcopy_incoming_umemd_thread_def
          postcopy_incoming_umemd_pipe_init_def Let_def)
  have nend: "umemd_state ?v AND UMEM_STATE_END_MASK \<noteq> UMEM_STATE_END_MASK"
    using ne unfolding st end_mask_error_req .
  have s4: "umemd_step (Some s) tpb finished rdma_ret ram_load (RunPipe a b (SelOk False) cmd')
              \<lparr>d_umemd = ?v, d_main = AtJoinRead, d_read = Returned, d_pipe = InLoop\<rparr>
            = Inr \<lparr>d_umemd = pipe_loop_send ?v, d_main = AtJoinRead, d_read = Returned,
                   d_pipe = InLoop\<rparr>"
    using nend by (simp add: umemd_step_def postcopy_incoming_umemd_thread_def
                     postcopy_incoming_umemd_pipe_loop_def)
  have s5: "umemd_step (Some s) tpb finished rdma_ret ram_load RunMain
              \<lparr>d_umemd = pipe_loop_send ?v, d_main = AtJoinRead, d_read = Returned, d_pipe = InLoop\<rparr>
            = Inr \<lparr>d_umemd = pipe_loop_send ?v, d_main = AtJoinBitmap, d_read = Returned,
                   d_pipe = InLoop\<rparr>"
    by (simp add: umemd_step_def umemd_main_step_def qemu_thread_join_def th th')
  have s6: "umemd_step (Some s) tpb finished rdma_ret ram_load RunMain
              \<lparr>d_umemd = pipe_loop_send ?v, d_main = AtJoinBitmap, d_read = Returned, d_pipe = InLoop\<rparr>
            = Inl s"
    using nb pe' by (simp add: umemd_step_def umemd_main_step_def qemu_thread_join_def th th')
  show "postcopy_incoming_umemd (Some s) tpb finished rdma_ret ram_load
           (RunMain # RunRead # RunPipe True True sel cmd # RunPipe a b (SelOk False) cmd'
              # RunMain # RunMain # ts) u
         = (Some s, \<lparr>d_umemd = pipe_loop_send ?v,
                     d_main = AtJoinBitmap, d_read = Returned, d_pipe = InLoop\<rparr>)"
    by (simp add: postcopy_incoming_umemd_def s1 s2 s3 s4 s5 s6)
  have "to_qemu ?v" by simp
  moreover have "umemd_state ?v AND UMEM_STATE_ERROR_REQ \<noteq> 0"
    unfolding st by (rule error_req_bit)
  moreover have "umemd_state ?v AND UMEM_STATE_ERROR_SENDING = 0"
    unfolding st by (rule error_sending_clear[OF ns])
  ultimately show "take (Suc (length (to_qemu_sent u))) (to_qemu_sent (pipe_loop_send ?v))
         = to_qemu_sent u @ [UMEM_DAEMON_ERROR]"
    using pipe_loop_send_error[of ?v] sent by simp
qed


lemma refused_eq:
  assumes recs: "read_records tpb n u f = Some (u1, f1)"
  shows "refused u1 f5 = (created u)\<lparr>blocks := blocks u1, mig_read := Some f5,
                                     umemd_state := umemd_state u OR UMEM_STATE_ERROR_REQ\<rparr>"
  by (subst read_records_blocks_only[OF recs])
     (simp add: refused_def created_def postcopy_incoming_umem_error_req_def)

text \<open>
  Claim C8. A clean-bitmap record whose bitmap length is not a multiple of 8 may stand
  anywhere in the preamble: behind \<open>n\<close> records that were read. With precopy enabled and
  the stream a file, the bitmap reader returns \<^verbatim>\<open>-EINVAL\<close> for it and leaves the daemon
  and the stream behind the header as they were (the bitmap is not loaded); the loop over
  the records and the initialisation of the read thread return that error, and no bitmap
  thread is created. In the daemon the read thread then latches
  \<^verbatim>\<open>UMEM_STATE_ERROR_REQ\<close> and returns, which lets the main thread out of its first join and
  into \<^verbatim>\<open>qemu_thread_join(&umemd.bitmap_thread)\<close> on the handle never filled. When the
  pipe thread has had no round before that, the process is stopped with nothing put on the
  pipe to the supervisor, whatever turns were to follow; when joining that handle comes
  back, the run goes on behind the join. When the pipe thread has had its handshake and a
  round in between, that round put \<^verbatim>\<open>ERROR\<close> on the pipe first.
\<close>

theorem bad_bitmap_length_join_unfilled:
  assumes recs: "read_records tpb n u f = Some (u1, f1)"
    and hdr: "read_clean_bitmap_header f1 = ((idlen, idstr, bo, bl, bml), f5)"
    and bad: "unat bml mod 8 \<noteq> 0"
    and pre: "umemd_precopy_enabled u" and nr: "\<not> umemd_rdma u" and mr: "mig_read u = Some f"
    and nb: "bitmap_thread \<notin> set (threads_created u)"
    and ns: "umemd_state u AND UMEM_STATE_ERROR_SENDING = 0"
    and ne: "umemd_state u AND UMEM_STATE_END_MASK \<noteq> UMEM_STATE_END_MASK"
  shows "postcopy_incoming_umemd_read_clean_bitmap tpb u1 f5 idstr idlen bo bl bml
           = (Error EINVAL, u1, f5) \<and>
         postcopy_file_incoming_umemd_read_clean_bitmap tpb u f = (Error EINVAL, u1, f5) \<and>
         postcopy_incoming_umemd_mig_read_init tpb finished rdma_ret u
           = (Error EINVAL, u1\<lparr>mig_read := Some f5\<rparr>) \<and>
         refused u1 f5 = (created u)\<lparr>blocks := blocks u1, mig_read := Some f5,
                                      umemd_state := umemd_state u OR UMEM_STATE_ERROR_REQ\<rparr> \<and>
         umemd_state (refused u1 f5) AND UMEM_STATE_ERROR_REQ \<noteq> 0 \<and>
         bitmap_thread \<notin> set (threads_created (refused u1 f5)) \<and>
         to_qemu_sent (refused u1 f5) = to_qemu_sent u \<and>
         postcopy_incoming_umemd (Some s) tpb finished rdma_ret ram_load
             (RunMain # RunRead # RunMain # RunMain # ts) u
           = (Some s, \<lparr>d_umemd = refused u1 f5, d_main = AtJoinBitmap,
                       d_read = Returned, d_pipe = AtInit\<rparr>) \<and>
         postcopy_incoming_umemd None tpb finished rdma_ret ram_load
             (RunMain # RunRead # RunMain # RunMain # ts) u
           = umemd_run None tpb finished rdma_ret ram_load ts
               \<lparr>d_umemd = refused u1 f5, d_main = AfterJoinBitmap,
                d_read = Returned, d_pipe = AtInit\<rparr> \<and>
         postcopy_incoming_umemd (Some s) tpb finished rdma_ret ram_load
             (RunMain # RunRead # RunPipe True True sel cmd # RunPipe a b (SelOk False) cmd'
                # RunMain # RunMain # ts) u
           = (Some s, \<lparr>d_umemd = pipe_loop_send ((refused u1 f5)\<lparr>to_qemu := True, from_qemu := True\<rparr>),
                       d_main = AtJoinBitmap, d_read = Returned, d_pipe = InLoop\<rparr>) \<and>
         take (Suc (length (to_qemu_sent u)))
             (to_qemu_sent (pipe_loop_send ((refused u1 f5)\<lparr>to_qemu := True, from_qemu := True\<rparr>)))
           = to_qemu_sent u @ [UMEM_DAEMON_ERROR]"
proof -
  note eq = refused_eq[OF recs, of f5]
  have st: "umemd_state (refused u1 f5) AND UMEM_STATE_ERROR_REQ \<noteq> 0"
    unfolding eq using error_req_bit[of "umemd_state u"] by simp
  have th: "bitmap_thread \<notin> set (threads_created (refused u1 f5))"
    unfolding eq using nb by (simp add: created_def)
  have sent: "to_qemu_sent (refused u1 f5) = to_qemu_sent u"
    unfolding eq by (simp add: created_def)
  note joins = bad_record_main_joins[OF recs hdr bad pre nr mr nb,
      where finished = finished and rdma_ret = rdma_ret and ram_load = ram_load and ts = ts]
  have dead: "postcopy_incoming_umemd (Some s) tpb finished rdma_ret ram_load
             (RunMain # RunRead # RunMain # RunMain # ts) u
           = (Some s, \<lparr>d_umemd = refused u1 f5, d_main = AtJoinBitmap,
                       d_read = Returned, d_pipe = AtInit\<rparr>)"
    using joins[of "Some s"] by simp
  have goes_on: "postcopy_incoming_umemd None tpb finished rdma_ret ram_load
             (RunMain # RunRead # RunMain # RunMain # ts) u
           = umemd_run None tpb finished rdma_ret ram_load ts
               \<lparr>d_umemd = refused u1 f5, d_main = AfterJoinBitmap,
                d_read = Returned, d_pipe = AtInit\<rparr>"
    using joins[of None] by simp
  note pipe = bad_record_pipe_first(1)[OF recs hdr bad pre nr mr nb ns ne,
      where finished = finished and rdma_ret = rdma_ret and ram_load = ram_load and ts = ts
        and s = s and sel = sel and cmd = cmd and a = a and b = b and cmd' = cmd']
    bad_record_pipe_first(2)[OF recs hdr bad pre nr mr nb ns ne]
  show ?thesis
    using bad_record_refused[OF recs hdr bad] bad_record_read_init[OF recs hdr bad pre nr mr,
        of finished rdma_ret] eq st th sent dead goes_on pipe
    by simp
qed

theorem bad_bitmap_length_join_unfilled_witness:
  "postcopy_incoming_umemd (Some BadDeref) 12 (\<lambda>i. False) (Ok ()) (\<lambda>u. (Ok (), u))
     [RunMain, RunRead, RunMain, RunMain,
      RunPipe True True (SelOk False) UMEM_QEMU_ZERO, RunPipe True True (SelOk False) UMEM_QEMU_ZERO]
     (umemd_start 12 4096 True [([65], 0, 0x10000)]
        [1, 65, 0, 0, 0, 0, 0, 0, 0, 0, 0, 0, 0, 0, 0, 1, 0, 0, 0, 0, 0, 0, 0, 0, 0, 8,
         0, 0, 0, 0, 0, 0, 0, 5,
         1, 65, 0, 0, 0, 0, 0, 0, 0, 0, 0, 0, 0, 0, 0, 1, 0, 0, 0, 0, 0, 0, 0, 0, 0, 12, 255, 255])
   = (Some BadDeref,
      \<lparr>d_umemd = (umemd_start 12 4096 True [([65], 0, 0x10000)] [255, 255])
           \<lparr>blocks := [(umem_block_new 12 12 [65] 0 0x10000)
               \<lparr>phys_requested := [5], phys_received := [5], clean_bitmap := [5]\<rparr>],
            umemd_state := 0x1000,
            threads_created := [umemd_fault_thread, mig_read_thread, mig_write_thread, pipe_thread]\<rparr>,
       d_main = AtJoinBitmap, d_read = Returned, d_pipe = AtInit\<rparr>) \<and>
   to_qemu_sent (umemd_start 12 4096 True [([65], 0, 0x10000)] [255, 255]) = [] \<and>
   to_qemu_sent (d_umemd (snd (postcopy_incoming_umemd (Some BadDeref) 12 (\<lambda>i. False) (Ok ())
     (\<lambda>u. (Ok (), u))
     [RunMain, RunRead, RunPipe True True (SelOk False) UMEM_QEMU_ZERO,
      RunPipe True True (SelOk False) UMEM_QEMU_ZERO, RunMain, RunMain]
     (umemd_start 12 4096 True [([65], 0, 0x10000)]
        [1, 65, 0, 0, 0, 0, 0, 0, 0, 0, 0, 0, 0, 0, 0, 1, 0, 0, 0, 0, 0, 0, 0, 0, 0, 8,
         0, 0, 0, 0, 0, 0, 0, 5,
         1, 65, 0, 0, 0, 0, 0, 0, 0, 0, 0, 0, 0, 0, 0, 1, 0, 0, 0, 0, 0, 0, 0, 0, 0, 12, 255, 255]))))
   = [UMEM_DAEMON_ERROR]"
proof -
  let ?f1 = "[1, 65, 0, 0, 0, 0, 0, 0, 0, 0, 0, 0, 0, 0, 0, 1, 0, 0, 0, 0, 0, 0, 0, 0, 0, 12, 255, 255] :: u8 list"
  let ?f = "[1, 65, 0, 0, 0, 0, 0, 0, 0, 0, 0, 0, 0, 0, 0, 1, 0, 0, 0, 0, 0, 0, 0, 0, 0, 8,
             0, 0, 0, 0, 0, 0, 0, 5] @ ?f1"
  let ?u = "umemd_start 12 4096 True [([65], 0, 0x10000)] ?f"
  let ?bs = "[(umem_block_new 12 12 [65] 0 0x10000)
               \<lparr>phys_requested := [5], phys_received := [5], clean_bitmap := [5]\<rparr>]"
  have hd0: "read_clean_bitmap_header ?f = ((1, [65], 0, 0x10000, 8), [0, 0, 0, 0, 0, 0, 0, 5] @ ?f1)"
    by (simp add: read_clean_bitmap_header_def qemu_get_byte_def qemu_get_buffer_def
          qemu_get_be64_def be64_to_cpu_def)
  have one: "postcopy_incoming_umemd_read_clean_bitmap 12 ?u ([0, 0, 0, 0, 0, 0, 0, 5] @ ?f1)
               [65] 1 0 0x10000 8 = (Ok (), ?u\<lparr>blocks := ?bs\<rparr>, ?f1)"
    by (simp add: postcopy_incoming_umemd_read_clean_bitmap_def umemd_start_def
      postcopy_incoming_prepare_geometry_def Let_def strncmp_eq_def cstr_def umem_block_new_def
      bitmap_new_def bitmap_bytes_def put_be64_def qemu_get_buffer_def postcopy_be64_to_bitmap_def
      be64_to_cpu_def postcopy_incoming_umemd_read_clean_bitmap_done_def bitmap_copy_def
      ffs_def ffs_nat.simps TARGET_PAGE_SIZE_def)
  have recs: "read_records 12 (Suc 0) ?u ?f = Some (?u\<lparr>blocks := ?bs\<rparr>, ?f1)"
    unfolding read_records.simps hd0 using one by simp
  have hdr: "read_clean_bitmap_header ?f1 = ((1, [65], 0, 0x10000, 12), [255, 255])"
    by (simp add: read_clean_bitmap_header_def qemu_get_byte_def qemu_get_buffer_def
          qemu_get_be64_def be64_to_cpu_def)
  have bad: "unat (12 :: u64) mod 8 \<noteq> 0" by simp
  have st: "umemd_precopy_enabled ?u" "\<not> umemd_rdma ?u" "mig_read ?u = Some ?f"
    "bitmap_thread \<notin> set (threads_created ?u)" "umemd_state ?u = 0" "to_qemu_sent ?u = []"
    by (simp_all add: umemd_start_def postcopy_incoming_prepare_geometry_def Let_def)
  have ns: "umemd_state ?u AND UMEM_STATE_ERROR_SENDING = 0" using st(5) by simp
  have ne: "umemd_state ?u AND UMEM_STATE_END_MASK \<noteq> UMEM_STATE_END_MASK"
    using st(5) by (simp add: UMEM_STATE_END_MASK_def UMEM_STATE_QUIT_MASK_def
          UMEM_STATE_EOS_RECEIVED_def UMEM_STATE_EOC_SEND_REQ_def UMEM_STATE_EOC_SENDING_def
          UMEM_STATE_EOC_SENT_def UMEM_STATE_QUIT_QUEUED_def UMEM_STATE_QUIT_SENDING_def
          UMEM_STATE_QUIT_SENT_def UMEM_STATE_QUIT_RECEIVED_def UMEM_STATE_QUIT_HANDLED_def)
  note inst = bad_bitmap_length_join_unfilled[OF recs hdr bad st(1) st(2) st(3) st(4) ns ne,
      where finished = "\<lambda>i. False" and rdma_ret = "Ok ()" and ram_load = "\<lambda>u. (Ok (), u)"
        and s = BadDeref and sel = "SelOk False" and cmd = UMEM_QEMU_ZERO and a = True and b = True
        and cmd' = UMEM_QEMU_ZERO]
  have ref: "refused (?u\<lparr>blocks := ?bs\<rparr>) [255, 255]
               = (umemd_start 12 4096 True [([65], 0, 0x10000)] [255, 255])
                   \<lparr>blocks := ?bs, umemd_state := 0x1000,
                    threads_created := [umemd_fault_thread, mig_read_thread, mig_write_thread, pipe_thread]\<rparr>"
    by (simp add: refused_def created_def postcopy_incoming_umem_error_req_def umemd_start_def
          postcopy_incoming_prepare_geometry_def Let_def UMEM_STATE_ERROR_REQ_def)
  have a: "postcopy_incoming_umemd (Some BadDeref) 12 (\<lambda>i. False) (Ok ()) (\<lambda>u. (Ok (), u))
     [RunMain, RunRead, RunMain, RunMain,
      RunPipe True True (SelOk False) UMEM_QEMU_ZERO, RunPipe True True (SelOk False) UMEM_QEMU_ZERO] ?u
     = (Some BadDeref, \<lparr>d_umemd = refused (?u\<lparr>blocks := ?bs\<rparr>) [255, 255], d_main = AtJoinBitmap,
                       d_read = Returned, d_pipe = AtInit\<rparr>)"
    using inst[where ts = "[RunPipe True True (SelOk False) UMEM_QEMU_ZERO,
                           RunPipe True True (SelOk False) UMEM_QEMU_ZERO]"] by blast
  have b: "postcopy_incoming_umemd (Some BadDeref) 12 (\<lambda>i. False) (Ok ()) (\<lambda>u. (Ok (), u))
     [RunMain, RunRead, RunPipe True True (SelOk False) UMEM_QEMU_ZERO,
      RunPipe True True (SelOk False) UMEM_QEMU_ZERO, RunMain, RunMain] ?u
     = (Some BadDeref, \<lparr>d_umemd = pipe_loop_send ((refused (?u\<lparr>blocks := ?bs\<rparr>) [255, 255])
                                     \<lparr>to_qemu := True, from_qemu := True\<rparr>),
                       d_main = AtJoinBitmap, d_read = Returned, d_pipe = InLoop\<rparr>)"
    using inst[where ts = "[]"] by blast
  have c: "to_qemu_sent (pipe_loop_send ((refused (?u\<lparr>blocks := ?bs\<rparr>) [255, 255])
                                     \<lparr>to_qemu := True, from_qemu := True\<rparr>)) = [UMEM_DAEMON_ERROR]"
    unfolding ref
    by (simp add: pipe_loop_send_def Let_def umemd_start_def postcopy_incoming_prepare_geometry_def
          UMEM_STATE_ERROR_REQ_def UMEM_STATE_ERROR_SENDING_def UMEM_STATE_ERROR_SENT_def
          UMEM_STATE_QUIT_QUEUED_def UMEM_STATE_QUIT_SENDING_def UMEM_STATE_QUIT_SENT_def)
  have d: "to_qemu_sent (umemd_start 12 4096 True [([65], 0, 0x10000)] [255, 255]) = []"
    by (simp add: umemd_start_def postcopy_incoming_prepare_geometry_def Let_def)
  show ?thesis
    using a b c d unfolding ref by simp
qed

subsection \<open>The request builder and the arrival of a page\<close>

definition MAX_REQUESTS :: nat where
  "MAX_REQUESTS = 512 * (64 + 1)"

text \<open>
  The state of the loops of \<^verbatim>\<open>postcopy_incoming_umem_send_page_req\<close>: the
  \<^verbatim>\<open>phys_requested\<close> bitmap of the block, the target page offsets gathered in \<^verbatim>\<open>req\<close>,
  and the host page offsets gathered in \<^verbatim>\<open>umemd.page_clean\<close>.
\<close>

type_synonym page_req_acc = "u64 list \<times> u64 list \<times> u64 list"

text \<open>Is target page \<open>t\<close> already there: clean (when precopy ran) or received.\<close>

definition page_present :: "umemd_t \<Rightarrow> UMemBlock \<Rightarrow> u64 \<Rightarrow> bool" where
  "page_present u block t \<longleftrightarrow>
     (umemd_precopy_enabled u \<and> test_bit (unat t) (clean_bitmap block)) \<or>
     test_bit (unat t) (phys_received block)"

text \<open>Body of the loop over the drained faults when the target page is not smaller.\<close>

definition send_page_req_small :: "umemd_t \<Rightarrow> UMemBlock \<Rightarrow> page_req_acc \<Rightarrow> u64 \<Rightarrow> stop + page_req_acc" where
  "send_page_req_small u block acc pgoff =
     (case acc of (requested, pgs, cleans) \<Rightarrow>
        (case shr64 pgoff (host_to_target_page_shift u) of
           Inl s \<Rightarrow> Inl s
         | Inr target_pgoff \<Rightarrow>
             if page_present u block target_pgoff then
               Inr (requested, pgs,
                    cleans @ map (\<lambda>j. pgoff + of_nat j) [0..<nat (nr_host_pages_per_target_page u)])
             else
               (case test_and_set_bit (unat target_pgoff) requested of
                  (old, requested1) \<Rightarrow>
                    Inr (requested1, if old then pgs else pgs @ [target_pgoff], cleans))))"

text \<open>
  The loop \<^verbatim>\<open>for (j = 0; j < nr_target_pages_per_host_page; j++)\<close> with its
  \<^verbatim>\<open>test_and_set_bit\<close> on \<^verbatim>\<open>phys_requested\<close>.
\<close>

fun request_target_pages :: "u64 \<Rightarrow> nat list \<Rightarrow> u64 list \<times> u64 list \<Rightarrow> u64 list \<times> u64 list" where
  "request_target_pages t [] acc = acc"
| "request_target_pages t (j # js) (requested, pgs) =
     (case test_and_set_bit (unat (t + of_nat j)) requested of
        (old, requested1) \<Rightarrow>
          request_target_pages t js (requested1, if old then pgs else pgs @ [t + of_nat j]))"

text \<open>Body of the loop over the drained faults when the host page is larger.\<close>

definition send_page_req_large :: "umemd_t \<Rightarrow> UMemBlock \<Rightarrow> page_req_acc \<Rightarrow> u64 \<Rightarrow> stop + page_req_acc" where
  "send_page_req_large u block acc pgoff =
     (case acc of (requested, pgs, cleans) \<Rightarrow>
        (case shl64 pgoff (host_to_target_page_shift u) of
           Inl s \<Rightarrow> Inl s
         | Inr target_pgoff \<Rightarrow>
             (let js = [0..<nat (nr_target_pages_per_host_page u)];
                  marked_clean = list_all (\<lambda>j. page_present u block (target_pgoff + of_nat j)) js
              in if marked_clean then Inr (requested, pgs, cleans @ [pgoff])
                 else (case request_target_pages target_pgoff js (requested, pgs) of
                         (requested1, pgs1) \<Rightarrow> Inr (requested1, pgs1, cleans)))))"

fun send_page_req_loop ::
  "(page_req_acc \<Rightarrow> u64 \<Rightarrow> stop + page_req_acc) \<Rightarrow> page_req_acc \<Rightarrow> u64 list \<Rightarrow> stop + page_req_acc" where
  "send_page_req_loop body acc [] = Inr acc"
| "send_page_req_loop body acc (pgoff # rest) =
     (case body acc pgoff of Inl s \<Rightarrow> Inl s | Inr acc1 \<Rightarrow> send_page_req_loop body acc1 rest)"

text \<open>
  \<^verbatim>\<open>postcopy_incoming_send_req\<close>: the file transport when \<^verbatim>\<open>mig_write\<close> is open, the RDMA
  transport (another file, not followed here) otherwise.
\<close>

definition postcopy_incoming_send_req :: "(umem_cmd \<Rightarrow> u8) \<Rightarrow> umemd_t \<Rightarrow> QEMUUMemReq \<Rightarrow> stop + umemd_t" where
  "postcopy_incoming_send_req enc u req =
     (if mig_write u = umemd_rdma u then Inl Abort
      else if mig_write u then
        (case postcopy_file_incoming_send_req enc (mig_write_sent u) req of
           Inl s \<Rightarrow> Inl s
         | Inr f \<Rightarrow> Inr (u\<lparr>mig_write_sent := f\<rparr>))
      else Inr u)"

text \<open>
  \<^verbatim>\<open>postcopy_incoming_umem_send_page_req\<close> for block number \<open>i\<close>. \<open>faults\<close> is what
  \<^verbatim>\<open>umem_get_page_request\<close> gives (an error, or the pending host page offsets, at most
  \<open>MAX_REQUESTS\<close>); \<open>mark_err\<close> is what \<^verbatim>\<open>umem_mark_page_cached\<close> returns.
\<close>

definition postcopy_incoming_umem_send_page_req ::
  "nat \<Rightarrow> (umem_cmd \<Rightarrow> u8) \<Rightarrow> errno + u64 list \<Rightarrow> errno option \<Rightarrow> umemd_t \<Rightarrow> nat
   \<Rightarrow> unit result \<times> umemd_t" where
  "postcopy_incoming_umem_send_page_req tpb enc faults mark_err u i =
     (case faults of
        Inl e \<Rightarrow> (Error e, u)
      | Inr page_request \<Rightarrow>
          (let block = blocks u ! i;
               req0 = (if last_block_write u \<noteq> Some i
                       then \<lparr>req_cmd = QEMU_UMEM_REQ_PAGE, req_idstr = blk_idstr block, req_pgoffs = []\<rparr>
                       else \<lparr>req_cmd = QEMU_UMEM_REQ_PAGE_CONT, req_idstr = [], req_pgoffs = []\<rparr>);
               body = (if TARGET_PAGE_SIZE tpb \<ge> host_page_size u
                       then send_page_req_small u block else send_page_req_large u block)
           in case send_page_req_loop body (phys_requested block, [], []) page_request of
                Inl s \<Rightarrow> (Stop s, u)
              | Inr (requested, pgs, cleans) \<Rightarrow>
                  (let u1 = u\<lparr>blocks := (blocks u)[i := block\<lparr>phys_requested := requested\<rparr>]\<rparr>;
                       u2 = (if cleans \<noteq> []
                             then u1\<lparr>mark_cached_calls := mark_cached_calls u1 @ [(i, cleans)]\<rparr>
                             else u1)
                   in if cleans \<noteq> [] \<and> mark_err \<noteq> None then (Error (the mark_err), u2)
                      else if pgs \<noteq> [] \<and> (mig_write u2 \<or> umemd_rdma u2) then
                        (case postcopy_incoming_send_req enc u2 (req0\<lparr>req_pgoffs := pgs\<rparr>) of
                           Inl s \<Rightarrow> (Stop s, u2)
                         | Inr u3 \<Rightarrow> (Ok (), u3\<lparr>last_block_write := Some i\<rparr>))
                      else (Ok (), u2))))"

text \<open>
  \<^verbatim>\<open>postcopy_incoming_umem_ram_loaded\<close> for block number \<open>i\<close> and the block-relative
  offset of the page that has just been written. \<open>mark_err\<close> is what
  \<^verbatim>\<open>postcopy_incoming_umem_mark_cached\<close> returns; its call is recorded, its writes to the
  fault pipe are not followed here.
\<close>

definition postcopy_incoming_umem_ram_loaded ::
  "nat \<Rightarrow> errno option \<Rightarrow> umemd_t \<Rightarrow> nat \<Rightarrow> u64 \<Rightarrow> unit result \<times> umemd_t" where
  "postcopy_incoming_umem_ram_loaded tpb mark_err u i offset =
     (let block = blocks u ! i;
          bit0 = int_of_u64 (drop_bit tpb offset);
          (old, received) = test_and_set_bit (nat bit0) (phys_received block);
          u1 = u\<lparr>blocks := (blocks u)[i := block\<lparr>phys_received := received\<rparr>]\<rparr>
      in case shr64 offset (host_page_shift u) of
           Inl s \<Rightarrow> (if old then (Ok (), u1) else (Stop s, u1))
         | Inr pgoff \<Rightarrow>
             (let page_cached =
                   (if old then []
                    else if TARGET_PAGE_SIZE tpb \<ge> host_page_size u then
                      map (\<lambda>k. pgoff + of_nat k) [0..<nat (nr_host_pages_per_target_page u)]
                    else
                      (let bit1 = bit0 AND NOT (nr_host_pages_per_target_page u - 1);
                           mark_cache = list_all (\<lambda>k. test_bit (nat (bit1 + int k)) received)
                                          [0..<nat (nr_target_pages_per_host_page u)]
                       in if mark_cache then [pgoff] else []))
              in if page_cached \<noteq> [] then
                   (let u2 = u1\<lparr>mark_cached_calls := mark_cached_calls u1 @ [(i, page_cached)]\<rparr>
                    in case mark_err of Some e \<Rightarrow> (Error e, u2) | None \<Rightarrow> (Ok (), u2))
                 else (Ok (), u1)))"

text \<open>The read thread receiving, in turn, the pages at these offsets of block \<open>i\<close>.\<close>

fun ram_loaded_seq :: "nat \<Rightarrow> umemd_t \<Rightarrow> nat \<Rightarrow> u64 list \<Rightarrow> unit result \<times> umemd_t" where
  "ram_loaded_seq tpb u i [] = (Ok (), u)"
| "ram_loaded_seq tpb u i (offset # rest) =
     (case postcopy_incoming_umem_ram_loaded tpb None u i offset of
        (Ok x, u1) \<Rightarrow> ram_loaded_seq tpb u1 i rest
      | (Error e, u1) \<Rightarrow> (Error e, u1)
      | (Stop s, u1) \<Rightarrow> (Stop s, u1))"

subsection \<open>Host pages larger than target pages\<close>

lemma ffs_65536: "ffs 65536 = 17"
  by (simp add: ffs_def ffs_nat.simps)

lemma ffs_16: "ffs 16 = 5"
  by (simp add: ffs_def ffs_nat.simps)

lemma ffs_0: "ffs 0 = 0"
  by (simp add: ffs_def ffs_nat.simps)

lemma start64k: "umemd_start 12 65536 False [([65], 0, 0x40000)] [] =
 \<lparr>umemd_state = 0, host_page_size = 65536, host_page_shift = 16,
    nr_host_pages_per_target_page = 0, host_to_target_page_shift = 4,
    nr_target_pages_per_host_page = 16, target_to_host_page_shift = - 1,
    umemd_precopy_enabled = False,
    blocks =
      [\<lparr>blk_idstr = [65], blk_offset = 0, blk_length = 262144,
          phys_requested = [0], phys_received = [0], clean_bitmap = [0],
          pending_clean_bitmap = [0], blk_nr_pending_clean = 0\<rparr>],
    to_qemu = False, from_qemu = False, mig_read = Some [], mig_write = True,
    umemd_rdma = False, last_block_write = None,
    fault_buf = [], to_qemu_sent = [], threads_created = [],
    shmem_unmapped = [], mark_cached_calls = [], mig_write_sent = [],
    shmem_removed = []\<rparr>"
  by (simp add: umemd_start_def
        postcopy_incoming_prepare_geometry_def TARGET_PAGE_SIZE_def ffs_65536 ffs_16 ffs_0
        umem_block_new_def bitmap_new_def Let_def)

text \<open>
  Claim C1, at an input where the code departs from it. Host pages of 64 KiB, target pages
  of 4 KiB (N = 16), one block of four host pages, nothing requested or received. The
  target pages 0 to 16 arrive in order. When page 15 arrives host page 0 is complete and is
  marked cached. When page 16 arrives, \<^verbatim>\<open>bit &= ~(umemd.nr_host_pages_per_target_page - 1)\<close>
  masks with the ratio that is 0 on such a host, \<^verbatim>\<open>bit\<close> becomes 0, the loop tests the
  received bits of host page 0 again, and host page 1 is marked cached although of its
  sixteen target pages only page 16 has been received (bit 17 is clear).
\<close>

theorem ram_loaded_marks_incomplete_host_page:
  "(case ram_loaded_seq 12 (umemd_start 12 65536 False [([65], 0, 0x40000)] []) 0
           (map (\<lambda>k. 4096 * of_nat k) [0..<17]) of
      (r, u) \<Rightarrow> r = Ok () \<and> mark_cached_calls u = [(0, [0]), (0, [1])] \<and>
                phys_received (blocks u ! 0) = [0x1FFFF] \<and>
                \<not> test_bit 17 (phys_received (blocks u ! 0)))"
  unfolding start64k
  by (simp add: postcopy_incoming_umem_ram_loaded_def 
        TARGET_PAGE_SIZE_def 
         int_of_u64_def test_and_set_bit_def test_bit_def
        set_bit_def shr64_def Let_def upt_conv_Cons)
section \<open>The two readers of the fault pipes\<close>

text \<open>
  \<^verbatim>\<open>PIPE_BUF\<close> of \<^verbatim>\<open>limits.h\<close>, 4096 on Linux: both readers have a buffer of this many
  bytes.
\<close>

definition PIPE_BUF :: nat where
  "PIPE_BUF = 4096"

text \<open>
  A pipe is the list of its bytes not yet read. What one \<^verbatim>\<open>read\<close> on it gives is not
  decided by the reader: it is interrupted, it fails, or it returns some of the bytes, as
  many as are there at that moment (\<open>RdAvail n\<close>) and never more than the \<open>cap\<close> asked
  for; 0 bytes is the end of the file.
\<close>

datatype read_ev = RdEINTR | RdError | RdAvail nat

definition pipe_read :: "u8 list \<Rightarrow> nat \<Rightarrow> nat \<Rightarrow> u8 list \<times> u8 list" where
  "pipe_read pipe n cap = (take (min n cap) pipe, drop (min n cap) pipe)"

text \<open>
  A \<^verbatim>\<open>uint64_t\<close> of the buffer, in the byte order of the host (taken to be
  little-endian), and the first \<open>n\<close> of them: \<^verbatim>\<open>buf[0]\<close> to \<^verbatim>\<open>buf[n - 1]\<close>.
\<close>

definition le64_to_cpu :: "u8 list \<Rightarrow> u64" where
  "le64_to_cpu bs = be64_to_cpu (rev bs)"

fun buf_words :: "u8 list \<Rightarrow> nat \<Rightarrow> u64 list" where
  "buf_words buf 0 = []"
| "buf_words buf (Suc n) = le64_to_cpu (take 8 buf) # buf_words (drop 8 buf) n"

subsection \<open>In the supervisor: \<^verbatim>\<open>postcopy_incoming_fault_loop\<close>\<close>

text \<open>
  The loop's variables and what it has done: \<open>fl_buf\<close> is the first \<^verbatim>\<open>offset\<close> bytes of
  \<^verbatim>\<open>buf\<close>, \<open>fl_pipe\<close> the bytes of \<^verbatim>\<open>read_fd\<close> not yet read, \<open>fl_touched\<close> the guest
  RAM addresses it has read a byte of, \<open>fl_forwarded\<close> the bytes it has written to
  \<^verbatim>\<open>write_fd\<close>.
\<close>

record fault_loop_state =
  fl_buf :: "u8 list"
  fl_pipe :: "u8 list"
  fl_touched :: "u64 list"
  fl_forwarded :: "u8 list"

text \<open>What \<^verbatim>\<open>qemu_write_full\<close> does with the bytes: all written, or only the first \<open>k\<close>.\<close>

datatype write_ev = WrFull | WrShort nat

text \<open>
  One round of the \<^verbatim>\<open>for (;;)\<close> loop. \<open>shift\<close> is \<^verbatim>\<open>host_page_shift\<close>, \<open>ram_ok\<close> says
  for which addresses \<^verbatim>\<open>qemu_safe_ram_ptr\<close> is not NULL. The result says whether the loop
  goes on (\<open>True\<close>) or breaks.
\<close>

definition fault_loop_round ::
  "nat \<Rightarrow> (u64 \<Rightarrow> bool) \<Rightarrow> read_ev \<Rightarrow> write_ev \<Rightarrow> fault_loop_state \<Rightarrow> bool \<times> fault_loop_state" where
  "fault_loop_round shift ram_ok rd wr s =
     (case rd of
        RdEINTR \<Rightarrow> (True, s)
      | RdError \<Rightarrow> (False, s)
      | RdAvail n \<Rightarrow>
          (case pipe_read (fl_pipe s) n (PIPE_BUF - length (fl_buf s)) of
             (got, pipe1) \<Rightarrow>
               (if length got = 0 then (False, s\<lparr>fl_pipe := pipe1\<rparr>)
                else
                  (let buf1 = fl_buf s @ got;
                       nreq = length buf1 div 8;
                       s1 = s\<lparr>fl_buf := buf1, fl_pipe := pipe1\<rparr>
                   in (if nreq = 0 then (True, s1)
                       else
                         (let addrs = map (push_bit shift) (buf_words buf1 nreq);
                              s2 = s1\<lparr>fl_touched := fl_touched s1 @ filter ram_ok addrs\<rparr>
                          in (case wr of
                                WrShort k \<Rightarrow>
                                  (False, s2\<lparr>fl_forwarded :=
                                               fl_forwarded s2 @ take (min k (nreq * 8)) buf1\<rparr>)
                              | WrFull \<Rightarrow>
                                  (True, s2\<lparr>fl_forwarded := fl_forwarded s2 @ take (nreq * 8) buf1,
                                             fl_buf := drop (nreq * 8) buf1\<rparr>))))))))"

text \<open>
  The loop over the rounds the surroundings allow: it runs until a round breaks; when the
  list of rounds is used up it is still waiting in \<^verbatim>\<open>read\<close>. The result says whether it
  is still running.
\<close>

fun postcopy_incoming_fault_loop ::
  "nat \<Rightarrow> (u64 \<Rightarrow> bool) \<Rightarrow> (read_ev \<times> write_ev) list \<Rightarrow> fault_loop_state \<Rightarrow> bool \<times> fault_loop_state" where
  "postcopy_incoming_fault_loop shift ram_ok [] s = (True, s)"
| "postcopy_incoming_fault_loop shift ram_ok ((rd, wr) # evs) s =
     (case fault_loop_round shift ram_ok rd wr s of
        (True, s1) \<Rightarrow> postcopy_incoming_fault_loop shift ram_ok evs s1
      | (False, s1) \<Rightarrow> (False, s1))"

subsection \<open>In the daemon: \<^verbatim>\<open>postcopy_incoming_umemd_fault_loop\<close>\<close>

text \<open>The block that holds the guest address, as the \<^verbatim>\<open>QLIST_FOREACH\<close> finds it.\<close>

definition block_of_addr :: "UMemBlock list \<Rightarrow> u64 \<Rightarrow> nat option" where
  "block_of_addr bs addr =
     find_block (\<lambda>b. blk_offset b \<le> addr \<and> addr < blk_offset b + blk_length b) bs"

text \<open>
  The \<^verbatim>\<open>for (i = 0; i < nreq; i++)\<close> loop over the offsets read: each one is removed from
  the shared memory of its block; an offset in no block aborts the daemon.
\<close>

fun umemd_fault_remove :: "umemd_t \<Rightarrow> u64 list \<Rightarrow> stop + umemd_t" where
  "umemd_fault_remove u [] = Inr u"
| "umemd_fault_remove u (w # ws) =
     (case shl64 w (host_page_shift u) of
        Inl s \<Rightarrow> Inl s
      | Inr addr \<Rightarrow>
          (case block_of_addr (blocks u) addr of
             None \<Rightarrow> Inl Abort
           | Some i \<Rightarrow>
               umemd_fault_remove
                 (u\<lparr>shmem_removed := shmem_removed u @ [(i, addr - blk_offset (blocks u ! i))]\<rparr>) ws))"

text \<open>
  What one processed offset does: the block found and the offset in it, or nothing when
  the shift is undefined or no block holds the address.
\<close>

definition fault_removal :: "UMemBlock list \<Rightarrow> int \<Rightarrow> u64 \<Rightarrow> (nat \<times> u64) option" where
  "fault_removal bs shift w =
     (case shl64 w shift of
        Inl s \<Rightarrow> None
      | Inr addr \<Rightarrow>
          (case block_of_addr bs addr of
             None \<Rightarrow> None
           | Some i \<Rightarrow> Some (i, addr - blk_offset (bs ! i))))"

text \<open>
  One call. The result is the return value (0: the thread's loop continues, 1: it exits,
  an errno: error), the daemon, and the pipe \<^verbatim>\<open>fault_read_fd\<close> afterwards.
\<close>

definition postcopy_incoming_umemd_fault_loop ::
  "(nat \<Rightarrow> bool) \<Rightarrow> read_ev \<Rightarrow> umemd_t \<Rightarrow> u8 list \<Rightarrow> int result \<times> umemd_t \<times> u8 list" where
  "postcopy_incoming_umemd_fault_loop finished rd u pipe =
     (case rd of
        RdEINTR \<Rightarrow> (Ok 0, u, pipe)
      | RdError \<Rightarrow> (Error (ERRNO 1), u, pipe)
      | RdAvail n \<Rightarrow>
          (case pipe_read pipe n (PIPE_BUF - length (fault_buf u)) of
             (got, pipe1) \<Rightarrow>
               (if length got = 0 then (Ok 1, u, pipe1)
                else
                  (let buf1 = fault_buf u @ got;
                       nreq = length buf1 div 8
                   in (case umemd_fault_remove (u\<lparr>fault_buf := buf1\<rparr>) (buf_words buf1 nreq) of
                         Inl s \<Rightarrow> (Stop s, u\<lparr>fault_buf := buf1\<rparr>, pipe1)
                       | Inr u1 \<Rightarrow>
                           (let u2 = u1\<lparr>fault_buf := drop (nreq * 8) buf1\<rparr>;
                                r = postcopy_incoming_umem_check_umem_done finished u2
                            in (Ok (if fst r then 1 else 0), snd r, pipe1)))))))"

text \<open>
  \<^verbatim>\<open>postcopy_incoming_umemd_fault_thread\<close>: the calls repeat while they return 0. When the
  list of reads is used up the thread is still waiting in \<^verbatim>\<open>read\<close>: \<open>Ok True\<close>.
  \<open>Ok False\<close> is a thread that has left its loop.
\<close>

fun postcopy_incoming_umemd_fault_thread ::
  "(nat \<Rightarrow> bool) \<Rightarrow> read_ev list \<Rightarrow> umemd_t \<Rightarrow> u8 list \<Rightarrow> bool result \<times> umemd_t \<times> u8 list" where
  "postcopy_incoming_umemd_fault_thread finished [] u pipe = (Ok True, u, pipe)"
| "postcopy_incoming_umemd_fault_thread finished (rd # rds) u pipe =
     (case postcopy_incoming_umemd_fault_loop finished rd u pipe of
        (Ok r, u1, pipe1) \<Rightarrow>
          if r = 0 then postcopy_incoming_umemd_fault_thread finished rds u1 pipe1
          else (Ok False, u1, pipe1)
      | (Error e, u1, pipe1) \<Rightarrow> (Ok False, u1, pipe1)
      | (Stop s, u1, pipe1) \<Rightarrow> (Stop s, u1, pipe1))"

subsection \<open>Alignment across partial reads\<close>

lemma buf_words_take: "buf_words (take (8 * n) buf) n = buf_words buf n"
proof (induction n arbitrary: buf)
  case 0
  then show ?case by simp
next
  case (Suc n)
  have "drop 8 (take (8 * Suc n) buf) = take (8 * n) (drop 8 buf)"
    by (simp add: drop_take)
  then show ?case using Suc.IH[of "drop 8 buf"] by simp
qed

lemma buf_words_append:
  "length a = 8 * m \<Longrightarrow> buf_words (a @ b) (m + n) = buf_words a m @ buf_words b n"
proof (induction m arbitrary: a)
  case 0
  then show ?case by simp
next
  case (Suc m)
  then have "length (drop 8 a) = 8 * m" by simp
  from Suc.IH[OF this] Suc.prems show ?case by simp
qed

lemma buf_words_prefix:
  "length a = 8 * m \<Longrightarrow> buf_words (a @ b) m = buf_words a m"
  using buf_words_append[of a m b 0] by simp

text \<open>
  What holds of the supervisor's loop between rounds, for a pipe that held \<open>P\<close> at the
  start: the bytes forwarded, the bytes kept in the buffer and the bytes still in the pipe
  are \<open>P\<close>, in this order; fewer than 8 bytes are kept; whole offsets only were forwarded;
  and the addresses touched are those of the offsets forwarded.
\<close>

definition fault_loop_inv :: "nat \<Rightarrow> (u64 \<Rightarrow> bool) \<Rightarrow> u8 list \<Rightarrow> fault_loop_state \<Rightarrow> bool" where
  "fault_loop_inv shift ram_ok P s \<longleftrightarrow>
     fl_forwarded s @ fl_buf s @ fl_pipe s = P \<and>
     length (fl_buf s) < 8 \<and> 8 dvd length (fl_forwarded s) \<and>
     fl_touched s =
       filter ram_ok (map (push_bit shift)
         (buf_words (fl_forwarded s) (length (fl_forwarded s) div 8)))"

lemma fault_loop_round_inv:
  assumes inv: "fault_loop_inv shift ram_ok P s"
    and r: "fault_loop_round shift ram_ok rd WrFull s = (go, s')"
  shows "fault_loop_inv shift ram_ok P s'"
proof (cases rd)
  case RdEINTR
  with r inv show ?thesis by (simp add: fault_loop_round_def)
next
  case RdError
  with r inv show ?thesis by (simp add: fault_loop_round_def)
next
  case (RdAvail n)
  define k where "k = min n (PIPE_BUF - length (fl_buf s))"
  define got where "got = take k (fl_pipe s)"
  define buf1 where "buf1 = fl_buf s @ got"
  define nreq where "nreq = length buf1 div 8"
  have pr: "pipe_read (fl_pipe s) n (PIPE_BUF - length (fl_buf s)) = (got, drop k (fl_pipe s))"
    by (simp add: pipe_read_def k_def got_def)
  from inv have P: "fl_forwarded s @ fl_buf s @ fl_pipe s = P" and lb: "length (fl_buf s) < 8"
    and dv: "8 dvd length (fl_forwarded s)"
    and tc: "fl_touched s = filter ram_ok (map (push_bit shift)
         (buf_words (fl_forwarded s) (length (fl_forwarded s) div 8)))"
    by (simp_all add: fault_loop_inv_def)
  show ?thesis
  proof (cases "length got = 0")
    case True
    then have "got = []" by simp
    then have "k = 0 \<or> fl_pipe s = []" by (auto simp: got_def)
    then have "drop k (fl_pipe s) = fl_pipe s" by auto
    with r RdAvail pr True inv show ?thesis
      by (simp add: fault_loop_round_def fault_loop_inv_def)
  next
    case False
    have split: "fl_forwarded s @ buf1 @ drop k (fl_pipe s) = P"
      using P by (simp add: buf1_def got_def)
    show ?thesis
    proof (cases "nreq = 0")
      case True
      then have "length buf1 < 8" by (simp add: nreq_def)
      moreover have "s' = s\<lparr>fl_buf := buf1, fl_pipe := drop k (fl_pipe s)\<rparr>"
        using r RdAvail pr False True
        by (auto simp: fault_loop_round_def Let_def buf1_def[symmetric] nreq_def[symmetric])
      ultimately show ?thesis using split dv tc
        by (simp add: fault_loop_inv_def)
    next
      case nz: False
      have s': "s' = s\<lparr>fl_buf := drop (nreq * 8) buf1, fl_pipe := drop k (fl_pipe s),
                      fl_touched := fl_touched s @ filter ram_ok (map (push_bit shift) (buf_words buf1 nreq)),
                      fl_forwarded := fl_forwarded s @ take (nreq * 8) buf1\<rparr>"
        using r RdAvail pr False nz
        by (auto simp: fault_loop_round_def Let_def buf1_def[symmetric] nreq_def[symmetric])
      have le: "nreq * 8 \<le> length buf1" by (simp add: nreq_def)
      have lt: "length (take (nreq * 8) buf1) = 8 * nreq" using le by simp
      obtain m where m: "length (fl_forwarded s) = 8 * m" using dv by (auto simp: dvd_def)
      have a: "(fl_forwarded s @ take (nreq * 8) buf1) @ drop (nreq * 8) buf1 @ drop k (fl_pipe s) = P"
        using split append_take_drop_id[of "nreq * 8" buf1]
        by (metis append.assoc)
      have b: "length (drop (nreq * 8) buf1) < 8"
        by (simp add: nreq_def)
      have c: "8 dvd length (fl_forwarded s @ take (nreq * 8) buf1)"
        using m lt by simp
      have "buf_words (fl_forwarded s @ take (nreq * 8) buf1) (m + nreq)
            = buf_words (fl_forwarded s) m @ buf_words (take (8 * nreq) buf1) nreq"
        using buf_words_append[OF m] by (simp add: mult.commute)
      then have d: "buf_words (fl_forwarded s @ take (nreq * 8) buf1)
                 (length (fl_forwarded s @ take (nreq * 8) buf1) div 8)
            = buf_words (fl_forwarded s) (length (fl_forwarded s) div 8) @ buf_words buf1 nreq"
        using m lt by (simp add: buf_words_take)
      show ?thesis
        unfolding fault_loop_inv_def s' using a b c d tc by simp
    qed
  qed
qed


lemma fault_loop_inv_loop:
  "fault_loop_inv shift ram_ok P s \<Longrightarrow> list_all (\<lambda>ev. snd ev = WrFull) evs \<Longrightarrow>
   postcopy_incoming_fault_loop shift ram_ok evs s = (go, s') \<Longrightarrow>
   fault_loop_inv shift ram_ok P s'"
proof (induction evs arbitrary: s)
  case Nil
  then show ?case by simp
next
  case (Cons ev evs)
  obtain rd wr where ev: "ev = (rd, wr)" by (cases ev)
  with Cons.prems(2) have wr: "wr = WrFull" and rest: "list_all (\<lambda>ev. snd ev = WrFull) evs"
    by simp_all
  obtain g s1 where r: "fault_loop_round shift ram_ok rd WrFull s = (g, s1)"
    by (cases "fault_loop_round shift ram_ok rd WrFull s")
  from fault_loop_round_inv[OF Cons.prems(1) r] have inv1: "fault_loop_inv shift ram_ok P s1" .
  show ?case
  proof (cases g)
    case True
    with Cons.prems(3) ev wr r have "postcopy_incoming_fault_loop shift ram_ok evs s1 = (go, s')"
      by simp
    from Cons.IH[OF inv1 rest this] show ?thesis .
  next
    case False
    with Cons.prems(3) ev wr r have "s' = s1" by simp
    with inv1 show ?thesis by simp
  qed
qed

text \<open>
  The same for the daemon's reader, started as \<open>u0\<close> on a pipe that held \<open>Q\<close>: the bytes
  \<open>seen\<close> of the offsets processed, the bytes kept and the bytes still in the pipe are
  \<open>Q\<close>; \<open>seen\<close> is whole offsets, and each was removed from the block that holds it.
\<close>

definition umemd_fault_inv :: "umemd_t \<Rightarrow> u8 list \<Rightarrow> umemd_t \<Rightarrow> u8 list \<Rightarrow> bool" where
  "umemd_fault_inv u0 Q u pipe \<longleftrightarrow>
     (\<exists>seen. seen @ fault_buf u @ pipe = Q \<and> 8 dvd length seen \<and>
        map Some (shmem_removed u) =
          map (fault_removal (blocks u0) (host_page_shift u0))
            (buf_words seen (length seen div 8))) \<and>
     length (fault_buf u) < 8 \<and> blocks u = blocks u0 \<and> host_page_shift u = host_page_shift u0"

lemma umemd_fault_remove_ok:
  "umemd_fault_remove u ws = Inr u' \<Longrightarrow>
   \<exists>rs. u' = u\<lparr>shmem_removed := shmem_removed u @ rs\<rparr> \<and>
        map Some rs = map (fault_removal (blocks u) (host_page_shift u)) ws"
proof (induction ws arbitrary: u)
  case Nil
  then show ?case by simp
next
  case (Cons w ws)
  from Cons.prems obtain addr i where a: "shl64 w (host_page_shift u) = Inr addr"
    and b: "block_of_addr (blocks u) addr = Some i"
    and rec: "umemd_fault_remove
                 (u\<lparr>shmem_removed := shmem_removed u @ [(i, addr - blk_offset (blocks u ! i))]\<rparr>) ws
              = Inr u'"
    by (auto split: sum.splits option.splits)
  from Cons.IH[OF rec] obtain rs where
    rs: "u' = u\<lparr>shmem_removed := (shmem_removed u @ [(i, addr - blk_offset (blocks u ! i))]) @ rs\<rparr>"
        "map Some rs = map (fault_removal (blocks u) (host_page_shift u)) ws"
    by auto
  have "fault_removal (blocks u) (host_page_shift u) w = Some (i, addr - blk_offset (blocks u ! i))"
    using a b by (simp add: fault_removal_def)
  with rs show ?case
    by (intro exI[of _ "(i, addr - blk_offset (blocks u ! i)) # rs"]) simp
qed

lemma check_umem_done_frame:
  "blocks (snd (postcopy_incoming_umem_check_umem_done finished u)) = blocks u \<and>
   host_page_shift (snd (postcopy_incoming_umem_check_umem_done finished u)) = host_page_shift u \<and>
   fault_buf (snd (postcopy_incoming_umem_check_umem_done finished u)) = fault_buf u \<and>
   shmem_removed (snd (postcopy_incoming_umem_check_umem_done finished u)) = shmem_removed u"
  by (simp add: postcopy_incoming_umem_check_umem_done_def postcopy_incoming_umem_done_def
        postcopy_incoming_umem_queue_quit_locked_def postcopy_incoming_umem_req_eoc_def Let_def
        split: prod.splits)

lemma umemd_fault_loop_inv:
  assumes inv: "umemd_fault_inv u0 Q u pipe"
    and r: "postcopy_incoming_umemd_fault_loop finished rd u pipe = (Ok ret, u', pipe')"
  shows "umemd_fault_inv u0 Q u' pipe'"
proof (cases rd)
  case RdEINTR
  with r inv show ?thesis by (simp add: postcopy_incoming_umemd_fault_loop_def)
next
  case RdError
  with r show ?thesis by (simp add: postcopy_incoming_umemd_fault_loop_def)
next
  case (RdAvail n)
  define k where "k = min n (PIPE_BUF - length (fault_buf u))"
  define got where "got = take k pipe"
  define buf1 where "buf1 = fault_buf u @ got"
  define nreq where "nreq = length buf1 div 8"
  have pr: "pipe_read pipe n (PIPE_BUF - length (fault_buf u)) = (got, drop k pipe)"
    by (simp add: pipe_read_def k_def got_def)
  from inv obtain seen where P: "seen @ fault_buf u @ pipe = Q" and dv: "8 dvd length seen"
    and tc: "map Some (shmem_removed u) =
          map (fault_removal (blocks u0) (host_page_shift u0)) (buf_words seen (length seen div 8))"
    and lb: "length (fault_buf u) < 8" and bl: "blocks u = blocks u0"
    and hs: "host_page_shift u = host_page_shift u0"
    by (auto simp: umemd_fault_inv_def)
  show ?thesis
  proof (cases "length got = 0")
    case True
    then have "got = []" by simp
    then have "k = 0 \<or> pipe = []" by (auto simp: got_def)
    then have "drop k pipe = pipe" by auto
    with r RdAvail pr True inv show ?thesis
      by (simp add: postcopy_incoming_umemd_fault_loop_def)
  next
    case False
    have split: "seen @ buf1 @ drop k pipe = Q"
      using P by (simp add: buf1_def got_def)
    from r RdAvail pr False obtain u1 where
      rm: "umemd_fault_remove (u\<lparr>fault_buf := buf1\<rparr>) (buf_words buf1 nreq) = Inr u1"
      and u': "u' = snd (postcopy_incoming_umem_check_umem_done finished
                      (u1\<lparr>fault_buf := drop (nreq * 8) buf1\<rparr>))"
      and p': "pipe' = drop k pipe"
      by (auto simp: postcopy_incoming_umemd_fault_loop_def Let_def buf1_def[symmetric]
            nreq_def[symmetric] split: sum.splits)
    from umemd_fault_remove_ok[OF rm] obtain rs where
      u1: "u1 = u\<lparr>fault_buf := buf1, shmem_removed := shmem_removed u @ rs\<rparr>"
      and rs: "map Some rs = map (fault_removal (blocks u0) (host_page_shift u0)) (buf_words buf1 nreq)"
      using bl hs by auto
    note fr = check_umem_done_frame[of finished "u1\<lparr>fault_buf := drop (nreq * 8) buf1\<rparr>"]
    have f1: "fault_buf u' = drop (nreq * 8) buf1" and f2: "shmem_removed u' = shmem_removed u @ rs"
      and f3: "blocks u' = blocks u0" and f4: "host_page_shift u' = host_page_shift u0"
      using fr u' u1 bl hs by simp_all
    have le: "nreq * 8 \<le> length buf1" by (simp add: nreq_def)
    have lt: "length (take (nreq * 8) buf1) = 8 * nreq" using le by simp
    obtain m where m: "length seen = 8 * m" using dv by (auto simp: dvd_def)
    have a: "(seen @ take (nreq * 8) buf1) @ drop (nreq * 8) buf1 @ drop k pipe = Q"
      using split append_take_drop_id[of "nreq * 8" buf1] by (metis append.assoc)
    have b: "length (drop (nreq * 8) buf1) < 8" by (simp add: nreq_def)
    have c: "8 dvd length (seen @ take (nreq * 8) buf1)" using m lt by simp
    have "buf_words (seen @ take (nreq * 8) buf1) (m + nreq)
            = buf_words seen m @ buf_words (take (8 * nreq) buf1) nreq"
      using buf_words_append[OF m] by (simp add: mult.commute)
    then have d: "buf_words (seen @ take (nreq * 8) buf1)
                 (length (seen @ take (nreq * 8) buf1) div 8)
            = buf_words seen (length seen div 8) @ buf_words buf1 nreq"
      using m lt by (simp add: buf_words_take)
    have "map Some (shmem_removed u') =
          map (fault_removal (blocks u0) (host_page_shift u0))
            (buf_words (seen @ take (nreq * 8) buf1) (length (seen @ take (nreq * 8) buf1) div 8))"
      unfolding d f2 using tc rs by simp
    with a c have "\<exists>seen. seen @ fault_buf u' @ pipe' = Q \<and> 8 dvd length seen \<and>
        map Some (shmem_removed u') =
          map (fault_removal (blocks u0) (host_page_shift u0))
            (buf_words seen (length seen div 8))"
      unfolding f1 p' by (intro exI[of _ "seen @ take (nreq * 8) buf1"]) simp
    then show ?thesis unfolding umemd_fault_inv_def using b f1 f3 f4 by simp
  qed
qed

lemma umemd_fault_loop_error:
  "postcopy_incoming_umemd_fault_loop finished rd u pipe = (Error e, u', pipe') \<Longrightarrow>
   u' = u \<and> pipe' = pipe"
  by (auto simp: postcopy_incoming_umemd_fault_loop_def Let_def
           split: read_ev.splits prod.splits if_splits sum.splits)

lemma umemd_fault_thread_inv:
  "umemd_fault_inv u0 Q u pipe \<Longrightarrow>
   postcopy_incoming_umemd_fault_thread finished rds u pipe = (Ok go, u', pipe') \<Longrightarrow>
   umemd_fault_inv u0 Q u' pipe'"
proof (induction rds arbitrary: u pipe)
  case Nil
  then show ?case by simp
next
  case (Cons rd rds)
  obtain r u1 pipe1 where c: "postcopy_incoming_umemd_fault_loop finished rd u pipe = (r, u1, pipe1)"
    by (cases "postcopy_incoming_umemd_fault_loop finished rd u pipe") auto
  show ?case
  proof (cases r)
    case (Ok ret)
    from umemd_fault_loop_inv[OF Cons.prems(1) c[unfolded Ok]]
    have inv1: "umemd_fault_inv u0 Q u1 pipe1" .
    show ?thesis
    proof (cases "ret = 0")
      case True
      with Cons.prems(2) c Ok
      have "postcopy_incoming_umemd_fault_thread finished rds u1 pipe1 = (Ok go, u', pipe')"
        by simp
      from Cons.IH[OF inv1 this] show ?thesis .
    next
      case False
      with Cons.prems(2) c Ok have "u' = u1" "pipe' = pipe1" by simp_all
      with inv1 show ?thesis by simp
    qed
  next
    case (Error e)
    with Cons.prems(2) c have "u' = u1" "pipe' = pipe1" by simp_all
    moreover from umemd_fault_loop_error[OF c[unfolded Error]] have "u1 = u" "pipe1 = pipe" by simp_all
    ultimately show ?thesis using Cons.prems(1) by simp
  next
    case (Stop s)
    with Cons.prems(2) c show ?thesis by simp
  qed
qed

text \<open>
  Claim C10. Both readers of the fault pipes keep the 8-byte alignment across partial reads.
  Whatever sizes the reads return, as long as the writes of the supervisor's loop go through
  and the daemon's reader has not aborted: the bytes processed so far are a whole number of
  u64 offsets; they, followed by the fewer than 8 bytes kept in the buffer, followed by the
  bytes not yet read, are the byte stream of the pipe in its order, so every offset
  processed is one 8-byte group of the stream, none is skipped, none is taken twice and
  none is put together from two; and what was done (guest addresses touched, shared memory
  removed) was done for exactly these offsets, in order.
\<close>

theorem fault_readers_keep_alignment:
  assumes l1: "postcopy_incoming_fault_loop shift ram_ok evs
                 \<lparr>fl_buf = [], fl_pipe = P, fl_touched = [], fl_forwarded = []\<rparr> = (go1, s)"
    and wr: "list_all (\<lambda>ev. snd ev = WrFull) evs"
    and l2: "postcopy_incoming_umemd_fault_thread finished rds u Q = (Ok go2, u', pipe')"
    and u: "fault_buf u = []" "shmem_removed u = []"
  shows "fl_forwarded s @ fl_buf s @ fl_pipe s = P \<and>
         length (fl_buf s) < 8 \<and> 8 dvd length (fl_forwarded s) \<and>
         fl_touched s = filter ram_ok (map (push_bit shift)
            (buf_words (fl_forwarded s) (length (fl_forwarded s) div 8))) \<and>
         (\<exists>seen. seen @ fault_buf u' @ pipe' = Q \<and> 8 dvd length seen \<and>
            map Some (shmem_removed u') =
              map (fault_removal (blocks u) (host_page_shift u))
                (buf_words seen (length seen div 8))) \<and>
         length (fault_buf u') < 8"
proof -
  have "fault_loop_inv shift ram_ok P \<lparr>fl_buf = [], fl_pipe = P, fl_touched = [], fl_forwarded = []\<rparr>"
    by (simp add: fault_loop_inv_def)
  from fault_loop_inv_loop[OF this wr l1] have a: "fault_loop_inv shift ram_ok P s" .
  have "umemd_fault_inv u Q u Q"
    unfolding umemd_fault_inv_def using u by (simp add: exI[of _ "[]"])
  from umemd_fault_thread_inv[OF this l2] have b: "umemd_fault_inv u Q u' pipe'" .
  from a b show ?thesis by (simp add: fault_loop_inv_def umemd_fault_inv_def)
qed

lemma ffs_4096: "ffs 4096 = 13"
  by (simp add: ffs_def ffs_nat.simps)

lemma ffs_1: "ffs 1 = 1"
  by (simp add: ffs_def ffs_nat.simps)

theorem fault_readers_keep_alignment_witness:
  "postcopy_incoming_fault_loop 12 (\<lambda>a. True) [(RdAvail 5, WrFull), (RdAvail 100, WrFull)]
      \<lparr>fl_buf = [], fl_pipe = [1, 0, 0, 0, 0, 0, 0, 0, 2, 0, 0, 0], fl_touched = [], fl_forwarded = []\<rparr>
    = (True, \<lparr>fl_buf = [2, 0, 0, 0], fl_pipe = [], fl_touched = [4096],
              fl_forwarded = [1, 0, 0, 0, 0, 0, 0, 0]\<rparr>) \<and>
   (case postcopy_incoming_umemd_fault_thread (\<lambda>i. False) [RdAvail 3, RdAvail 9]
           (umemd_start 12 4096 False [([65], 0, 0x10000)] [])
           [1, 0, 0, 0, 0, 0, 0, 0, 2, 0, 0, 0] of
      (r, u, pipe) \<Rightarrow> r = Ok True \<and> pipe = [] \<and> fault_buf u = [2, 0, 0, 0] \<and>
                      shmem_removed u = [(0, 4096)])"
proof -
  let ?P = "[1, 0, 0, 0, 0, 0, 0, 0, 2, 0, 0, 0] :: u8 list"
  let ?u = "umemd_start 12 4096 False [([65], 0, 0x10000)] []"
  let ?s = "\<lparr>fl_buf = [2, 0, 0, 0], fl_pipe = [], fl_touched = [4096],
              fl_forwarded = [1, 0, 0, 0, 0, 0, 0, 0]\<rparr> :: fault_loop_state"
  have l1: "postcopy_incoming_fault_loop 12 (\<lambda>a. True) [(RdAvail 5, WrFull), (RdAvail 100, WrFull)]
      \<lparr>fl_buf = [], fl_pipe = ?P, fl_touched = [], fl_forwarded = []\<rparr> = (True, ?s)"
    by (simp add: fault_loop_round_def pipe_read_def PIPE_BUF_def Let_def le64_to_cpu_def
          be64_to_cpu_def)
  have wr: "list_all (\<lambda>ev. snd ev = WrFull) [(RdAvail 5, WrFull), (RdAvail 100, WrFull)]"
    by simp
  have u: "fault_buf ?u = []" "shmem_removed ?u = []" "host_page_shift ?u = 12"
    "blocks ?u = [umem_block_new 12 12 [65] 0 0x10000]"
    by (simp_all add: umemd_start_def postcopy_incoming_prepare_geometry_def Let_def ffs_4096)
  obtain r u' pipe' where l2: "postcopy_incoming_umemd_fault_thread (\<lambda>i. False)
      [RdAvail 3, RdAvail 9] ?u ?P = (r, u', pipe')"
    by (cases "postcopy_incoming_umemd_fault_thread (\<lambda>i. False) [RdAvail 3, RdAvail 9] ?u ?P") auto
  have ev: "r = Ok True \<and> pipe' = [] \<and> fault_buf u' = [2, 0, 0, 0] \<and> shmem_removed u' = [(0, 4096)]"
    using l2 u
    by (auto simp: postcopy_incoming_umemd_fault_loop_def pipe_read_def PIPE_BUF_def Let_def
          le64_to_cpu_def be64_to_cpu_def shl64_def block_of_addr_def umem_block_new_def
          postcopy_incoming_umem_check_umem_done_def split: prod.splits)
  then have l2': "postcopy_incoming_umemd_fault_thread (\<lambda>i. False)
      [RdAvail 3, RdAvail 9] ?u ?P = (Ok True, u', pipe')" using l2 by simp
  from fault_readers_keep_alignment[OF l1 wr l2' u(1) u(2)] l1 l2 ev
  show ?thesis by simp
qed

section \<open>Source side: the outgoing engine\<close>

subsection \<open>State, parameters and the log of what the engine does\<close>

datatype po_state =
    PO_STATE_ACTIVE
  | PO_STATE_EOC_RECEIVED
  | PO_STATE_ALL_PAGES_SENT
  | PO_STATE_COMPLETED
  | PO_STATE_ERROR_RECEIVE

text \<open>\<^verbatim>\<open>RAMBlock\<close>, with the fields this file uses.\<close>

record RAMBlock =
  rb_idstr :: "u8 list"
  rb_offset :: u64
  rb_length :: u64

text \<open>
  What the engine puts on the migration stream \<^verbatim>\<open>ms->file\<close>: a call of
  \<^verbatim>\<open>ram_save_page(f, block, offset)\<close> for a block (by its index in the RAM list) and an
  offset in it, a page pushed by the background walk \<^verbatim>\<open>ram_save_block\<close>, or the
  end-of-stream marker \<^verbatim>\<open>RAM_SAVE_FLAG_EOS\<close>. The page codec itself is another file.
\<close>

datatype stream_write = SavePage nat u64 | BackgroundPage | PutEOS

text \<open>
  The log of an execution, oldest first: the stream writes, and the changes of
  \<^verbatim>\<open>s->state\<close> at the places where the code prints \<^verbatim>\<open>-> PO_STATE_...\<close>.
\<close>

datatype po_event = Wr stream_write | St po_state

text \<open>
  \<^verbatim>\<open>MigrationState\<close> with its \<^verbatim>\<open>PostcopyOutgoingState\<close>: the state, the block of the last
  \<^verbatim>\<open>PAGE\<close> request, the log, the bytes buffered on the read side \<^verbatim>\<open>ms->file_read\<close>, and
  where the background walk was last moved to.
\<close>

record outgoing =
  po_state :: po_state
  last_block_read :: "nat option"
  po_log :: "po_event list"
  file_read :: "u8 list"
  last_seen_block :: "(nat \<times> u64) option"

text \<open>
  What does not change while the engine runs: the RAM blocks, \<^verbatim>\<open>TARGET_PAGE_BITS\<close>, the
  prefault windows \<^verbatim>\<open>ms->params.prefault_forward\<close> and \<^verbatim>\<open>prefault_backward\<close> (as the
  \<^verbatim>\<open>uint64_t\<close> they are compared as), the two capabilities about the background walk, the
  coding of the command byte, and the arrays of offsets that \<^verbatim>\<open>g_new\<close> can have.
\<close>

record outgoing_conf =
  ram_blocks :: "RAMBlock list"
  conf_tpb :: nat
  prefault_forward :: u64
  prefault_backward :: u64
  move_background :: bool
  no_background :: bool
  cmd_dec :: "u8 \<Rightarrow> umem_cmd"
  g_new_avail :: "nat \<Rightarrow> bool"

definition put_stream :: "stream_write \<Rightarrow> outgoing \<Rightarrow> outgoing" where
  "put_stream w s = s\<lparr>po_log := po_log s @ [Wr w]\<rparr>"

definition set_state :: "po_state \<Rightarrow> outgoing \<Rightarrow> outgoing" where
  "set_state st s = s\<lparr>po_state := st, po_log := po_log s @ [St st]\<rparr>"

text \<open>The stream writes of a log, in order.\<close>

fun writes_of :: "po_event list \<Rightarrow> stream_write list" where
  "writes_of [] = []"
| "writes_of (Wr w # es) = w # writes_of es"
| "writes_of (St st # es) = writes_of es"

subsection \<open>Serving a request\<close>

text \<open>\<^verbatim>\<open>postcopy_outgoing_ram_save_page\<close>. The offset argument of the prefault is an \<^verbatim>\<open>int\<close>.\<close>

definition postcopy_outgoing_ram_save_page ::
  "outgoing_conf \<Rightarrow> outgoing \<Rightarrow> u64 \<Rightarrow> bool \<Rightarrow> int \<Rightarrow> stop + outgoing" where
  "postcopy_outgoing_ram_save_page c s pgoffset forward prefault_pgoffset =
     (if \<not> forward \<and> pgoffset < of_int prefault_pgoffset then Inr s
      else
        let pg = (if forward then pgoffset + of_int prefault_pgoffset
                  else pgoffset - of_int prefault_pgoffset);
            offset = push_bit (conf_tpb c) pg
        in case last_block_read s of
             None \<Rightarrow> Inl BadDeref
           | Some b \<Rightarrow>
               if offset \<ge> rb_length (ram_blocks c ! b) then
                 (if forward \<and> prefault_pgoffset > 0 then Inr s else Inl Abort)
               else Inr (put_stream (SavePage b offset) s))"

text \<open>The loop \<^verbatim>\<open>for (i = 0; i < req->nr; i++)\<close> around it.\<close>

fun save_pages :: "outgoing_conf \<Rightarrow> bool \<Rightarrow> int \<Rightarrow> u64 list \<Rightarrow> outgoing \<Rightarrow> stop + outgoing" where
  "save_pages c forward j [] s = Inr s"
| "save_pages c forward j (pg # pgs) s =
     (case postcopy_outgoing_ram_save_page c s pg forward j of
        Inl e \<Rightarrow> Inl e
      | Inr s1 \<Rightarrow> save_pages c forward j pgs s1)"

text \<open>
  The loop \<^verbatim>\<open>for (j = 1; j <= window; j++)\<close> around that, over the values \<open>j\<close> takes.
  \<open>j\<close> is a \<^verbatim>\<open>uint64_t\<close> that is passed as \<^verbatim>\<open>int\<close>.
\<close>

fun prefault_loop :: "outgoing_conf \<Rightarrow> bool \<Rightarrow> u64 list \<Rightarrow> nat list \<Rightarrow> outgoing \<Rightarrow> stop + outgoing" where
  "prefault_loop c forward pgs [] s = Inr s"
| "prefault_loop c forward pgs (j # js) s =
     (case save_pages c forward (int_of_u64 (of_nat j)) pgs s of
        Inl e \<Rightarrow> Inl e
      | Inr s1 \<Rightarrow> prefault_loop c forward pgs js s1)"

text \<open>
  The values of \<open>j\<close>: 1 to the window. A window of \<open>2^64 - 1\<close> (a configured -1) is never
  exceeded and the loop does not end.
\<close>

definition prefault_range :: "u64 \<Rightarrow> stop + nat list" where
  "prefault_range window = (if window = - 1 then Inl Diverges else Inr [1..<Suc (unat window)])"

text \<open>
  Modelled from the spec: \<^verbatim>\<open>ram_find_block\<close> is in another file; it looks the block up
  by its id string, comparing as \<^verbatim>\<open>strncmp\<close> over the given length.
\<close>

fun ram_find_block :: "RAMBlock list \<Rightarrow> u8 list \<Rightarrow> nat \<Rightarrow> nat option" where
  "ram_find_block [] ids len = None"
| "ram_find_block (b # bs) ids len =
     (if strncmp_eq ids (rb_idstr b) len then Some 0
      else map_option Suc (ram_find_block bs ids len))"

definition c_strlen :: "u8 list \<Rightarrow> nat" where
  "c_strlen s = length (takeWhile (\<lambda>ch. ch \<noteq> 0) s)"

text \<open>
  The part of \<^verbatim>\<open>postcopy_outgoing_handle_req\<close> shared by \<^verbatim>\<open>PAGE\<close> and \<^verbatim>\<open>PAGE_CONT\<close>.
  Where it stops without returning (a failed \<^verbatim>\<open>assert\<close>, a NULL \<^verbatim>\<open>last_block_read\<close>, a
  loop without end) the process is gone; the state given with the stop is the one at the
  start of the loop that stopped.
\<close>

definition handle_req_pages :: "outgoing_conf \<Rightarrow> outgoing \<Rightarrow> u64 list \<Rightarrow> int result \<times> outgoing" where
  "handle_req_pages c s pgs =
     (if po_state s = PO_STATE_ALL_PAGES_SENT then (Ok 0, s)
      else case save_pages c True 0 pgs s of
        Inl e \<Rightarrow> (Stop e, s)
      | Inr s1 \<Rightarrow>
          (case prefault_range (prefault_forward c) of
             Inl e \<Rightarrow> (Stop e, s1)
           | Inr fs \<Rightarrow>
               (case prefault_loop c True pgs fs s1 of
                  Inl e \<Rightarrow> (Stop e, s1)
                | Inr s2 \<Rightarrow>
                    (case (if move_background c then
                             (case (pgs, last_block_read s2) of
                                ([], x) \<Rightarrow> Inl BadDeref
                              | (y, None) \<Rightarrow> Inl BadDeref
                              | (y, Some b) \<Rightarrow>
                                  (let last_offset = push_bit (conf_tpb c) (last pgs + prefault_forward c);
                                       lim = rb_length (ram_blocks c ! b) - of_int (TARGET_PAGE_SIZE (conf_tpb c))
                                   in Inr (s2\<lparr>last_seen_block := Some (b, min last_offset lim)\<rparr>)))
                           else Inr s2) of
                       Inl e \<Rightarrow> (Stop e, s2)
                     | Inr s3 \<Rightarrow>
                         (case prefault_range (prefault_backward c) of
                            Inl e \<Rightarrow> (Stop e, s3)
                          | Inr bs \<Rightarrow>
                              (case prefault_loop c False pgs bs s3 of
                                 Inl e \<Rightarrow> (Stop e, s3)
                               | Inr s4 \<Rightarrow> (Ok 0, s4)))))))"

text \<open>
  \<^verbatim>\<open>postcopy_outgoing_handle_req\<close>: 0 to continue, 1 when the end of commands was
  received, \<^verbatim>\<open>-EINVAL\<close> for an unknown block or command.
\<close>

definition postcopy_outgoing_handle_req ::
  "outgoing_conf \<Rightarrow> outgoing \<Rightarrow> QEMUUMemReq \<Rightarrow> int result \<times> outgoing" where
  "postcopy_outgoing_handle_req c s req =
     (case req_cmd req of
        QEMU_UMEM_REQ_EOC \<Rightarrow>
          (if po_state s = PO_STATE_ALL_PAGES_SENT
           then (Ok 1, set_state PO_STATE_COMPLETED s)
           else (Ok 1, set_state PO_STATE_EOC_RECEIVED s))
      | QEMU_UMEM_REQ_PAGE \<Rightarrow>
          (case ram_find_block (ram_blocks c) (req_idstr req) (c_strlen (req_idstr req)) of
             None \<Rightarrow> (Error EINVAL, s)
           | Some b \<Rightarrow> handle_req_pages c (s\<lparr>last_block_read := Some b\<rparr>) (req_pgoffs req))
      | QEMU_UMEM_REQ_PAGE_CONT \<Rightarrow> handle_req_pages c s (req_pgoffs req)
      | QEMU_UMEM_REQ_OTHER b \<Rightarrow> (Error EINVAL, s))"

subsection \<open>What serving a request leaves alone\<close>

text \<open>
  From \<open>s\<close> to \<open>s'\<close> only stream writes happened: the state and the read side are the
  same, and the log grew by writes.
\<close>

definition only_writes :: "outgoing \<Rightarrow> outgoing \<Rightarrow> bool" where
  "only_writes s s' \<longleftrightarrow>
     po_state s' = po_state s \<and> file_read s' = file_read s \<and>
     (\<exists>ws. po_log s' = po_log s @ map Wr ws)"

lemma only_writes_refl: "only_writes s s"
  by (simp add: only_writes_def exI[of _ "[]"])

lemma only_writes_trans:
  assumes "only_writes s s1" "only_writes s1 s2"
  shows "only_writes s s2"
proof -
  from assms obtain ws1 ws2 where "po_log s1 = po_log s @ map Wr ws1"
    "po_log s2 = po_log s1 @ map Wr ws2" by (auto simp: only_writes_def)
  then have "po_log s2 = po_log s @ map Wr (ws1 @ ws2)" by simp
  then have "\<exists>ws. po_log s2 = po_log s @ map Wr ws" ..
  with assms show ?thesis by (simp add: only_writes_def)
qed

lemma only_writes_put_stream: "only_writes s (put_stream w s)"
  by (simp add: only_writes_def put_stream_def exI[of _ "[w]"])

lemma only_writes_last_block_read: "only_writes s (s\<lparr>last_block_read := b\<rparr>)"
  by (simp add: only_writes_def exI[of _ "[]"])

lemma only_writes_last_seen_block: "only_writes s (s\<lparr>last_seen_block := b\<rparr>)"
  by (simp add: only_writes_def exI[of _ "[]"])

lemma save_page_frame:
  assumes "postcopy_outgoing_ram_save_page c s pg fwd j = Inr s'"
  shows "only_writes s s'"
proof -
  from assms have "s' = s \<or> (\<exists>w. s' = put_stream w s)"
    by (auto simp: postcopy_outgoing_ram_save_page_def Let_def split: if_splits option.splits)
  then show ?thesis by (auto intro: only_writes_refl only_writes_put_stream)
qed

lemma save_pages_frame: "save_pages c fwd j pgs s = Inr s' \<Longrightarrow> only_writes s s'"
proof (induction pgs arbitrary: s)
  case Nil
  then show ?case by (simp add: only_writes_refl)
next
  case (Cons pg pgs)
  from Cons.prems obtain s1 where a: "postcopy_outgoing_ram_save_page c s pg fwd j = Inr s1"
    and b: "save_pages c fwd j pgs s1 = Inr s'"
    by (auto split: sum.splits)
  from save_page_frame[OF a] Cons.IH[OF b] show ?case by (rule only_writes_trans)
qed

lemma prefault_loop_frame: "prefault_loop c fwd pgs js s = Inr s' \<Longrightarrow> only_writes s s'"
proof (induction js arbitrary: s)
  case Nil
  then show ?case by (simp add: only_writes_refl)
next
  case (Cons j js)
  from Cons.prems obtain s1 where a: "save_pages c fwd (int_of_u64 (of_nat j)) pgs s = Inr s1"
    and b: "prefault_loop c fwd pgs js s1 = Inr s'"
    by (auto split: sum.splits)
  from save_pages_frame[OF a] Cons.IH[OF b] show ?case by (rule only_writes_trans)
qed

lemma handle_req_pages_frame:
  assumes "handle_req_pages c s pgs = (r, s')"
  shows "only_writes s s'"
proof (cases "po_state s = PO_STATE_ALL_PAGES_SENT")
  case True
  with assms show ?thesis by (simp add: handle_req_pages_def only_writes_refl)
next
  case ns: False
  show ?thesis
  proof (cases "save_pages c True 0 pgs s")
    case (Inl e)
    with assms ns show ?thesis by (simp add: handle_req_pages_def only_writes_refl)
  next
    case (Inr s1)
    note f1 = save_pages_frame[OF Inr]
    show ?thesis
    proof (cases "prefault_range (prefault_forward c)")
      case (Inl e)
      with assms ns Inr f1 show ?thesis by (auto simp: handle_req_pages_def)
    next
      case fs: (Inr fs)
      show ?thesis
      proof (cases "prefault_loop c True pgs fs s1")
        case (Inl e)
        with assms ns Inr fs f1 show ?thesis by (auto simp: handle_req_pages_def)
      next
        case s2: (Inr s2)
        note f2 = only_writes_trans[OF f1 prefault_loop_frame[OF s2]]
        let ?mv = "(if move_background c then
                             (case (pgs, last_block_read s2) of
                                ([], x) \<Rightarrow> Inl BadDeref
                              | (y, None) \<Rightarrow> Inl BadDeref
                              | (y, Some b) \<Rightarrow>
                                  (let last_offset = push_bit (conf_tpb c) (last pgs + prefault_forward c);
                                       lim = rb_length (ram_blocks c ! b) - of_int (TARGET_PAGE_SIZE (conf_tpb c))
                                   in Inr (s2\<lparr>last_seen_block := Some (b, min last_offset lim)\<rparr>)))
                           else Inr s2)"
        show ?thesis
        proof (cases ?mv)
          case (Inl e)
          with assms ns Inr fs s2 have "s' = s2" by (simp add: handle_req_pages_def)
          with f2 show ?thesis by simp
        next
          case s3: (Inr s3)
          then have "s3 = s2 \<or> (\<exists>b. s3 = s2\<lparr>last_seen_block := b\<rparr>)"
            by (auto simp: Let_def split: if_splits list.splits option.splits)
          then have "only_writes s2 s3"
            by (auto intro: only_writes_refl only_writes_last_seen_block)
          note f3 = only_writes_trans[OF f2 this]
          show ?thesis
          proof (cases "prefault_range (prefault_backward c)")
            case (Inl e)
            with assms ns Inr fs s2 s3 have "s' = s3" by (simp add: handle_req_pages_def)
            with f3 show ?thesis by simp
          next
            case bs: (Inr bs)
            show ?thesis
            proof (cases "prefault_loop c False pgs bs s3")
              case (Inl e)
              with assms ns Inr fs s2 s3 bs have "s' = s3" by (simp add: handle_req_pages_def)
              with f3 show ?thesis by simp
            next
              case s4: (Inr s4)
              have "s' = s4" using assms ns Inr fs s2 s3 bs s4 by (simp add: handle_req_pages_def)
              with only_writes_trans[OF f3 prefault_loop_frame[OF s4]] show ?thesis by simp
            qed
          qed
        qed
      qed
    qed
  qed
qed

text \<open>
  A request is answered by writes only, or it is the end of commands and the state
  moves once.
\<close>

lemma handle_req_cases:
  assumes "postcopy_outgoing_handle_req c s req = (r, s')"
  shows "(req_cmd req = QEMU_UMEM_REQ_EOC \<and> r = Ok 1 \<and>
          s' = set_state (if po_state s = PO_STATE_ALL_PAGES_SENT then PO_STATE_COMPLETED
                          else PO_STATE_EOC_RECEIVED) s) \<or>
         (req_cmd req \<noteq> QEMU_UMEM_REQ_EOC \<and> r \<noteq> Ok 1 \<and> only_writes s s')"
proof (cases "req_cmd req")
  case QEMU_UMEM_REQ_EOC
  with assms show ?thesis by (auto simp: postcopy_outgoing_handle_req_def)
next
  case c: QEMU_UMEM_REQ_PAGE
  show ?thesis
  proof (cases "ram_find_block (ram_blocks c) (req_idstr req) (c_strlen (req_idstr req))")
    case None
    with assms c show ?thesis by (auto simp: postcopy_outgoing_handle_req_def only_writes_refl)
  next
    case (Some b)
    with assms c have h: "handle_req_pages c (s\<lparr>last_block_read := Some b\<rparr>) (req_pgoffs req) = (r, s')"
      by (simp add: postcopy_outgoing_handle_req_def)
    from only_writes_trans[OF only_writes_last_block_read handle_req_pages_frame[OF h]]
    have "only_writes s s'" .
    moreover from h have "r \<noteq> Ok 1"
      by (auto simp: handle_req_pages_def split: if_splits sum.splits)
    ultimately show ?thesis using c by simp
  qed
next
  case c: QEMU_UMEM_REQ_PAGE_CONT
  with assms have h: "handle_req_pages c s (req_pgoffs req) = (r, s')"
    by (simp add: postcopy_outgoing_handle_req_def)
  from h have "r \<noteq> Ok 1"
    by (auto simp: handle_req_pages_def split: if_splits sum.splits)
  with handle_req_pages_frame[OF h] c show ?thesis by simp
next
  case (QEMU_UMEM_REQ_OTHER b)
  with assms show ?thesis by (auto simp: postcopy_outgoing_handle_req_def only_writes_refl)
qed

lemma handle_req_file_read:
  assumes "postcopy_outgoing_handle_req c s req = (r, s')"
  shows "file_read s' = file_read s"
  using handle_req_cases[OF assms] by (auto simp: only_writes_def set_state_def)

subsection \<open>What a request is answered with\<close>

text \<open>Page number \<open>pg\<close> lies inside block \<open>b\<close>: its byte offset is below the block length.\<close>

definition in_block :: "outgoing_conf \<Rightarrow> nat \<Rightarrow> nat \<Rightarrow> bool" where
  "in_block c b pg \<longleftrightarrow> pg * 2 ^ conf_tpb c < unat (rb_length (ram_blocks c ! b))"

text \<open>
  The pages of one round: the pages requested; for a forward distance \<open>j\<close> the pages
  \<open>p + j\<close> that lie inside the block; for a backward distance \<open>j\<close> the pages \<open>p - j\<close> that
  are not below page 0. Each for the requested pages \<open>p\<close> in their order.
\<close>

definition requested_writes :: "outgoing_conf \<Rightarrow> nat \<Rightarrow> u64 list \<Rightarrow> stream_write list" where
  "requested_writes c b pgs = map (\<lambda>p. SavePage b (push_bit (conf_tpb c) p)) pgs"

definition forward_writes :: "outgoing_conf \<Rightarrow> nat \<Rightarrow> u64 list \<Rightarrow> nat \<Rightarrow> stream_write list" where
  "forward_writes c b pgs j =
     map (\<lambda>p. SavePage b (push_bit (conf_tpb c) (p + of_nat j)))
       (filter (\<lambda>p. in_block c b (unat p + j)) pgs)"

definition backward_writes :: "outgoing_conf \<Rightarrow> nat \<Rightarrow> u64 list \<Rightarrow> nat \<Rightarrow> stream_write list" where
  "backward_writes c b pgs j =
     map (\<lambda>p. SavePage b (push_bit (conf_tpb c) (p - of_nat j)))
       (filter (\<lambda>p. j \<le> unat p) pgs)"

definition log_add :: "stream_write list \<Rightarrow> outgoing \<Rightarrow> outgoing" where
  "log_add ws s = s\<lparr>po_log := po_log s @ map Wr ws\<rparr>"

lemma log_add_simps [simp]:
  "log_add [] s = s" "log_add ws (log_add vs s) = log_add (vs @ ws) s"
  "last_block_read (log_add ws s) = last_block_read s"
  "po_state (log_add ws s) = po_state s"
  "po_log (log_add ws s) = po_log s @ map Wr ws"
  "put_stream w s = log_add [w] s"
  by (simp_all add: log_add_def put_stream_def)

lemma in_block_offset:
  assumes "in_block c b (unat p)"
  shows "push_bit (conf_tpb c) p < rb_length (ram_blocks c ! b)"
proof -
  have "unat p * 2 ^ conf_tpb c < 2 ^ 64"
    using assms unsigned_less[of "rb_length (ram_blocks c ! b)", where 'a = nat]
    by (simp add: in_block_def)
  from unat_push_bit_nowrap[OF this] assms show ?thesis
    by (simp add: in_block_def word_less_nat_alt)
qed

lemma save_page_requested:
  assumes "last_block_read s = Some b" "in_block c b (unat p)"
  shows "postcopy_outgoing_ram_save_page c s p True 0 = Inr (log_add [SavePage b (push_bit (conf_tpb c) p)] s)"
  using assms in_block_offset[OF assms(2)]
  by (simp add: postcopy_outgoing_ram_save_page_def Let_def)

lemma save_page_forward:
  assumes "last_block_read s = Some b" "0 < j" "j < 2 ^ 31"
    and nw: "(unat p + j) * 2 ^ conf_tpb c < 2 ^ 64"
  shows "postcopy_outgoing_ram_save_page c s p True (int_of_u64 (of_nat j)) =
         Inr (if in_block c b (unat p + j)
              then log_add [SavePage b (push_bit (conf_tpb c) (p + of_nat j))] s else s)"
proof -
  have j: "int_of_u64 (of_nat j) = int j" using assms(3) by (rule int_of_u64_of_nat)
  have "unat p + j < 2 ^ 64"
  proof -
    have "unat p + j \<le> (unat p + j) * 2 ^ conf_tpb c" by simp
    then show ?thesis using nw by (rule le_less_trans)
  qed
  then have u: "unat (p + of_nat j) = unat p + j" by (rule unat_add_of_nat)
  have "unat (push_bit (conf_tpb c) (p + of_nat j)) = (unat p + j) * 2 ^ conf_tpb c"
    using unat_push_bit_nowrap[of "p + of_nat j" "conf_tpb c"] nw u by simp
  then have "rb_length (ram_blocks c ! b) \<le> push_bit (conf_tpb c) (p + of_nat j)
             \<longleftrightarrow> \<not> in_block c b (unat p + j)"
    by (simp add: in_block_def word_le_nat_alt not_less)
  then show ?thesis using assms(1,2) j
    by (simp add: postcopy_outgoing_ram_save_page_def Let_def)
qed

lemma save_page_backward:
  assumes "last_block_read s = Some b" "0 < j" "j < 2 ^ 31" and ib: "in_block c b (unat p)"
  shows "postcopy_outgoing_ram_save_page c s p False (int_of_u64 (of_nat j)) =
         Inr (if j \<le> unat p
              then log_add [SavePage b (push_bit (conf_tpb c) (p - of_nat j))] s else s)"
proof -
  have j: "int_of_u64 (of_nat j) = int j" using assms(3) by (rule int_of_u64_of_nat)
  have j64: "j < 2 ^ 64" using assms(3) by (simp add: order_less_trans[of j "2 ^ 31"])
  have lt: "p < of_nat j \<longleftrightarrow> \<not> j \<le> unat p"
    using of_nat_le_unat[OF j64, of p] by (simp add: not_le[symmetric])
  show ?thesis
  proof (cases "j \<le> unat p")
    case False
    with lt assms(1) j show ?thesis by (simp add: postcopy_outgoing_ram_save_page_def)
  next
    case True
    then have u: "unat (p - of_nat j) = unat p - j" by (rule unat_sub_of_nat)
    have "(unat p - j) * 2 ^ conf_tpb c \<le> unat p * 2 ^ conf_tpb c" by simp
    moreover have "unat p * 2 ^ conf_tpb c < unat (rb_length (ram_blocks c ! b))"
      using ib by (simp add: in_block_def)
    ultimately have "(unat p - j) * 2 ^ conf_tpb c < unat (rb_length (ram_blocks c ! b))"
      by (rule le_less_trans)
    then have "in_block c b (unat (p - of_nat j))" unfolding u in_block_def .
    from in_block_offset[OF this] True lt assms(1) j show ?thesis
      by (simp add: postcopy_outgoing_ram_save_page_def Let_def)
  qed
qed


lemma save_pages_requested:
  "last_block_read s = Some b \<Longrightarrow> list_all (\<lambda>p. in_block c b (unat p)) pgs \<Longrightarrow>
   save_pages c True 0 pgs s = Inr (log_add (requested_writes c b pgs) s)"
proof (induction pgs arbitrary: s)
  case Nil
  then show ?case by (simp add: requested_writes_def)
next
  case (Cons p pgs)
  from Cons.prems have ib: "in_block c b (unat p)" and rest: "list_all (\<lambda>p. in_block c b (unat p)) pgs"
    by simp_all
  have lb: "last_block_read (log_add [SavePage b (push_bit (conf_tpb c) p)] s) = Some b"
    using Cons.prems(1) by simp
  show ?case
    using save_page_requested[OF Cons.prems(1) ib] Cons.IH[OF lb rest]
    by (simp add: requested_writes_def)
qed

lemma save_pages_forward:
  "last_block_read s = Some b \<Longrightarrow> 0 < j \<Longrightarrow> j < 2 ^ 31 \<Longrightarrow>
   list_all (\<lambda>p. (unat p + j) * 2 ^ conf_tpb c < 2 ^ 64) pgs \<Longrightarrow>
   save_pages c True (int_of_u64 (of_nat j)) pgs s = Inr (log_add (forward_writes c b pgs j) s)"
proof (induction pgs arbitrary: s)
  case Nil
  then show ?case by (simp add: forward_writes_def)
next
  case (Cons p pgs)
  from Cons.prems have nw: "(unat p + j) * 2 ^ conf_tpb c < 2 ^ 64"
    and rest: "list_all (\<lambda>p. (unat p + j) * 2 ^ conf_tpb c < 2 ^ 64) pgs"
    by simp_all
  note one = save_page_forward[OF Cons.prems(1) Cons.prems(2) Cons.prems(3) nw]
  show ?case
  proof (cases "in_block c b (unat p + j)")
    case True
    have lb: "last_block_read (log_add [SavePage b (push_bit (conf_tpb c) (p + of_nat j))] s) = Some b"
      using Cons.prems(1) by simp
    from one True Cons.IH[OF lb Cons.prems(2) Cons.prems(3) rest] show ?thesis
      by (simp add: forward_writes_def)
  next
    case False
    from one False Cons.IH[OF Cons.prems(1) Cons.prems(2) Cons.prems(3) rest] show ?thesis
      by (simp add: forward_writes_def)
  qed
qed

lemma save_pages_backward:
  "last_block_read s = Some b \<Longrightarrow> 0 < j \<Longrightarrow> j < 2 ^ 31 \<Longrightarrow>
   list_all (\<lambda>p. in_block c b (unat p)) pgs \<Longrightarrow>
   save_pages c False (int_of_u64 (of_nat j)) pgs s = Inr (log_add (backward_writes c b pgs j) s)"
proof (induction pgs arbitrary: s)
  case Nil
  then show ?case by (simp add: backward_writes_def)
next
  case (Cons p pgs)
  from Cons.prems have ib: "in_block c b (unat p)" and rest: "list_all (\<lambda>p. in_block c b (unat p)) pgs"
    by simp_all
  note one = save_page_backward[OF Cons.prems(1) Cons.prems(2) Cons.prems(3) ib]
  show ?case
  proof (cases "j \<le> unat p")
    case True
    have lb: "last_block_read (log_add [SavePage b (push_bit (conf_tpb c) (p - of_nat j))] s) = Some b"
      using Cons.prems(1) by simp
    from one True Cons.IH[OF lb Cons.prems(2) Cons.prems(3) rest] show ?thesis
      by (simp add: backward_writes_def)
  next
    case False
    from one False Cons.IH[OF Cons.prems(1) Cons.prems(2) Cons.prems(3) rest] show ?thesis
      by (simp add: backward_writes_def)
  qed
qed

lemma prefault_loop_forward:
  "last_block_read s = Some b \<Longrightarrow> list_all (\<lambda>j. 0 < j \<and> j < 2 ^ 31) js \<Longrightarrow>
   list_all (\<lambda>j. list_all (\<lambda>p. (unat p + j) * 2 ^ conf_tpb c < 2 ^ 64) pgs) js \<Longrightarrow>
   prefault_loop c True pgs js s = Inr (log_add (concat (map (forward_writes c b pgs) js)) s)"
proof (induction js arbitrary: s)
  case Nil
  then show ?case by simp
next
  case (Cons j js)
  from Cons.prems have j: "0 < j" "j < 2 ^ 31"
    and nw: "list_all (\<lambda>p. (unat p + j) * 2 ^ conf_tpb c < 2 ^ 64) pgs"
    and r1: "list_all (\<lambda>j. 0 < j \<and> j < 2 ^ 31) js"
    and r2: "list_all (\<lambda>j. list_all (\<lambda>p. (unat p + j) * 2 ^ conf_tpb c < 2 ^ 64) pgs) js"
    by simp_all
  have lb: "last_block_read (log_add (forward_writes c b pgs j) s) = Some b"
    using Cons.prems(1) by simp
  from save_pages_forward[OF Cons.prems(1) j nw] Cons.IH[OF lb r1 r2] show ?case by simp
qed

lemma prefault_loop_backward:
  "last_block_read s = Some b \<Longrightarrow> list_all (\<lambda>j. 0 < j \<and> j < 2 ^ 31) js \<Longrightarrow>
   list_all (\<lambda>p. in_block c b (unat p)) pgs \<Longrightarrow>
   prefault_loop c False pgs js s = Inr (log_add (concat (map (backward_writes c b pgs) js)) s)"
proof (induction js arbitrary: s)
  case Nil
  then show ?case by simp
next
  case (Cons j js)
  from Cons.prems have j: "0 < j" "j < 2 ^ 31"
    and r1: "list_all (\<lambda>j. 0 < j \<and> j < 2 ^ 31) js"
    by simp_all
  have lb: "last_block_read (log_add (backward_writes c b pgs j) s) = Some b"
    using Cons.prems(1) by simp
  from save_pages_backward[OF Cons.prems(1) j Cons.prems(3)] Cons.IH[OF lb r1 Cons.prems(3)]
  show ?case by simp
qed

lemma prefault_range_small:
  assumes "unat w < 2 ^ 31"
  shows "prefault_range w = Inr [1..<Suc (unat w)]"
    and "list_all (\<lambda>j. 0 < j \<and> j < 2 ^ 31) [1..<Suc (unat w)]"
proof -
  have "w \<noteq> - 1"
  proof
    assume "w = - 1"
    then have "unat w = 2 ^ 64 - 1" by (simp add: unsigned_minus_1_eq_mask mask_eq_exp_minus_1)
    with assms show False by simp
  qed
  then show "prefault_range w = Inr [1..<Suc (unat w)]" by (simp add: prefault_range_def)
  show "list_all (\<lambda>j. 0 < j \<and> j < 2 ^ 31) [1..<Suc (unat w)]"
    using assms by (auto simp: list_all_iff)
qed

lemma handle_req_pages_order:
  assumes lb: "last_block_read s = Some b"
    and st: "po_state s \<noteq> PO_STATE_ALL_PAGES_SENT"
    and ne: "pgs \<noteq> []"
    and ib: "list_all (\<lambda>p. in_block c b (unat p)) pgs"
    and F: "unat (prefault_forward c) < 2 ^ 31" and B: "unat (prefault_backward c) < 2 ^ 31"
    and nw: "list_all (\<lambda>p. (unat p + unat (prefault_forward c)) * 2 ^ conf_tpb c < 2 ^ 64) pgs"
  shows "\<exists>s'. handle_req_pages c s pgs = (Ok 0, s') \<and> po_state s' = po_state s \<and>
           last_block_read s' = Some b \<and>
           po_log s' = po_log s @ map Wr
             (requested_writes c b pgs
              @ concat (map (forward_writes c b pgs) [1..<Suc (unat (prefault_forward c))])
              @ concat (map (backward_writes c b pgs) [1..<Suc (unat (prefault_backward c))]))"
proof -
  let ?fs = "[1..<Suc (unat (prefault_forward c))]"
  let ?bs = "[1..<Suc (unat (prefault_backward c))]"
  define s1 where "s1 = log_add (requested_writes c b pgs) s"
  define s2 where "s2 = log_add (concat (map (forward_writes c b pgs) ?fs)) s1"
  define s3 where "s3 = (if move_background c
     then s2\<lparr>last_seen_block := Some (b, min (push_bit (conf_tpb c) (last pgs + prefault_forward c))
                 (rb_length (ram_blocks c ! b) - of_int (TARGET_PAGE_SIZE (conf_tpb c))))\<rparr>
     else s2)"
  define s4 where "s4 = log_add (concat (map (backward_writes c b pgs) ?bs)) s3"
  have r1: "save_pages c True 0 pgs s = Inr s1"
    unfolding s1_def using lb ib by (rule save_pages_requested)
  have lb1: "last_block_read s1 = Some b" using lb by (simp add: s1_def)
  have nwj: "list_all (\<lambda>j. list_all (\<lambda>p. (unat p + j) * 2 ^ conf_tpb c < 2 ^ 64) pgs) ?fs"
  proof -
    have "(unat p + j) * 2 ^ conf_tpb c < 2 ^ 64"
      if "p \<in> set pgs" "j \<le> unat (prefault_forward c)" for p j
    proof -
      have "(unat p + j) * 2 ^ conf_tpb c \<le> (unat p + unat (prefault_forward c)) * 2 ^ conf_tpb c"
        using that(2) by simp
      moreover have "(unat p + unat (prefault_forward c)) * 2 ^ conf_tpb c < 2 ^ 64"
        using nw that(1) by (simp add: list_all_iff)
      ultimately show ?thesis by (rule le_less_trans)
    qed
    then show ?thesis by (auto simp: list_all_iff)
  qed
  have r2: "prefault_loop c True pgs ?fs s1 = Inr s2"
    unfolding s2_def using lb1 prefault_range_small(2)[OF F] nwj by (rule prefault_loop_forward)
  have lb2: "last_block_read s2 = Some b" using lb1 by (simp add: s2_def)
  obtain p ps where pgs: "pgs = p # ps" using ne by (cases pgs) auto
  have r3: "(if move_background c then
               (case (pgs, last_block_read s2) of
                  ([], x) \<Rightarrow> Inl BadDeref
                | (y, None) \<Rightarrow> Inl BadDeref
                | (y, Some b) \<Rightarrow>
                    (let last_offset = push_bit (conf_tpb c) (last pgs + prefault_forward c);
                         lim = rb_length (ram_blocks c ! b) - of_int (TARGET_PAGE_SIZE (conf_tpb c))
                     in Inr (s2\<lparr>last_seen_block := Some (b, min last_offset lim)\<rparr>)))
             else Inr s2) = Inr s3"
    unfolding s3_def lb2 pgs by (simp add: Let_def)
  have lb3: "last_block_read s3 = Some b" using lb2 by (simp add: s3_def)
  have r4: "prefault_loop c False pgs ?bs s3 = Inr s4"
    unfolding s4_def using lb3 prefault_range_small(2)[OF B] ib by (rule prefault_loop_backward)
  have "handle_req_pages c s pgs = (Ok 0, s4)"
    unfolding handle_req_pages_def
    using st r1 r2 r3 r4 prefault_range_small(1)[OF F] prefault_range_small(1)[OF B]
    by simp
  moreover have "po_state s4 = po_state s" "last_block_read s4 = Some b"
    "po_log s4 = po_log s @ map Wr
             (requested_writes c b pgs
              @ concat (map (forward_writes c b pgs) ?fs)
              @ concat (map (backward_writes c b pgs) ?bs))"
    using lb by (simp_all add: s4_def s3_def s2_def s1_def)
  ultimately show ?thesis by blast
qed


lemma handle_req_pages_all_sent:
  "po_state s = PO_STATE_ALL_PAGES_SENT \<Longrightarrow> handle_req_pages c s pgs = (Ok 0, s)"
  by (simp add: handle_req_pages_def)

text \<open>
  Claim C5, as the code has it. While the source is not in \<^verbatim>\<open>PO_STATE_ALL_PAGES_SENT\<close>,
  servicing a \<^verbatim>\<open>PAGE\<close> request for a known block and pages inside it, with prefault
  windows below \<open>2^31\<close> and no page number whose byte offset passes \<open>2^64\<close>, returns 0,
  keeps the state, remembers the block and sends, in this order: the requested pages in
  their order; then for each forward distance \<open>j\<close> from 1 to \<^verbatim>\<open>prefault_forward\<close> the pages
  \<open>p + j\<close>, only those inside the block; then for each backward distance \<open>j\<close> from 1
  to \<^verbatim>\<open>prefault_backward\<close> the pages \<open>p - j\<close>, only those not below page 0. Nothing else
  is put on the stream. A \<^verbatim>\<open>PAGE_CONT\<close> request is served the same way for the block
  remembered. In \<^verbatim>\<open>PO_STATE_ALL_PAGES_SENT\<close> a \<^verbatim>\<open>PAGE\<close> request for a known block
  returns 0, remembers the block and changes nothing else: nothing is sent; a
  \<^verbatim>\<open>PAGE_CONT\<close> request returns 0 and changes nothing. In any state a \<^verbatim>\<open>PAGE\<close> request
  for an unknown block returns \<^verbatim>\<open>-EINVAL\<close> and changes nothing.
\<close>

theorem handle_req_page_order:
  "(req_cmd req = QEMU_UMEM_REQ_PAGE \<and>
    ram_find_block (ram_blocks c) (req_idstr req) (c_strlen (req_idstr req)) = Some b \<and>
    po_state s \<noteq> PO_STATE_ALL_PAGES_SENT \<and> req_pgoffs req \<noteq> [] \<and>
    list_all (\<lambda>p. in_block c b (unat p)) (req_pgoffs req) \<and>
    unat (prefault_forward c) < 2 ^ 31 \<and> unat (prefault_backward c) < 2 ^ 31 \<and>
    list_all (\<lambda>p. (unat p + unat (prefault_forward c)) * 2 ^ conf_tpb c < 2 ^ 64) (req_pgoffs req)
    \<longrightarrow>
    (\<exists>s'. postcopy_outgoing_handle_req c s req = (Ok 0, s') \<and> po_state s' = po_state s \<and>
           last_block_read s' = Some b \<and>
           po_log s' = po_log s @ map Wr
             (requested_writes c b (req_pgoffs req)
              @ concat (map (forward_writes c b (req_pgoffs req))
                          [1..<Suc (unat (prefault_forward c))])
              @ concat (map (backward_writes c b (req_pgoffs req))
                          [1..<Suc (unat (prefault_backward c))])))) \<and>
   (req_cmd req = QEMU_UMEM_REQ_PAGE_CONT \<and> last_block_read s = Some b \<and>
    po_state s \<noteq> PO_STATE_ALL_PAGES_SENT \<and> req_pgoffs req \<noteq> [] \<and>
    list_all (\<lambda>p. in_block c b (unat p)) (req_pgoffs req) \<and>
    unat (prefault_forward c) < 2 ^ 31 \<and> unat (prefault_backward c) < 2 ^ 31 \<and>
    list_all (\<lambda>p. (unat p + unat (prefault_forward c)) * 2 ^ conf_tpb c < 2 ^ 64) (req_pgoffs req)
    \<longrightarrow>
    (\<exists>s'. postcopy_outgoing_handle_req c s req = (Ok 0, s') \<and> po_state s' = po_state s \<and>
           last_block_read s' = Some b \<and>
           po_log s' = po_log s @ map Wr
             (requested_writes c b (req_pgoffs req)
              @ concat (map (forward_writes c b (req_pgoffs req))
                          [1..<Suc (unat (prefault_forward c))])
              @ concat (map (backward_writes c b (req_pgoffs req))
                          [1..<Suc (unat (prefault_backward c))])))) \<and>
   (req_cmd req = QEMU_UMEM_REQ_PAGE \<and>
    ram_find_block (ram_blocks c) (req_idstr req) (c_strlen (req_idstr req)) = Some b \<and>
    po_state s = PO_STATE_ALL_PAGES_SENT \<longrightarrow>
    postcopy_outgoing_handle_req c s req = (Ok 0, s\<lparr>last_block_read := Some b\<rparr>)) \<and>
   (req_cmd req = QEMU_UMEM_REQ_PAGE_CONT \<and> po_state s = PO_STATE_ALL_PAGES_SENT \<longrightarrow>
    postcopy_outgoing_handle_req c s req = (Ok 0, s)) \<and>
   (req_cmd req = QEMU_UMEM_REQ_PAGE \<and>
    ram_find_block (ram_blocks c) (req_idstr req) (c_strlen (req_idstr req)) = None \<longrightarrow>
    postcopy_outgoing_handle_req c s req = (Error EINVAL, s))"
proof (intro conjI impI)
  assume a: "req_cmd req = QEMU_UMEM_REQ_PAGE \<and>
    ram_find_block (ram_blocks c) (req_idstr req) (c_strlen (req_idstr req)) = Some b \<and>
    po_state s \<noteq> PO_STATE_ALL_PAGES_SENT \<and> req_pgoffs req \<noteq> [] \<and>
    list_all (\<lambda>p. in_block c b (unat p)) (req_pgoffs req) \<and>
    unat (prefault_forward c) < 2 ^ 31 \<and> unat (prefault_backward c) < 2 ^ 31 \<and>
    list_all (\<lambda>p. (unat p + unat (prefault_forward c)) * 2 ^ conf_tpb c < 2 ^ 64) (req_pgoffs req)"
  have "last_block_read (s\<lparr>last_block_read := Some b\<rparr>) = Some b"
    and "po_state (s\<lparr>last_block_read := Some b\<rparr>) \<noteq> PO_STATE_ALL_PAGES_SENT"
    using a by simp_all
  from handle_req_pages_order[OF this, of "req_pgoffs req" c] a
  show "\<exists>s'. postcopy_outgoing_handle_req c s req = (Ok 0, s') \<and> po_state s' = po_state s \<and>
           last_block_read s' = Some b \<and>
           po_log s' = po_log s @ map Wr
             (requested_writes c b (req_pgoffs req)
              @ concat (map (forward_writes c b (req_pgoffs req))
                          [1..<Suc (unat (prefault_forward c))])
              @ concat (map (backward_writes c b (req_pgoffs req))
                          [1..<Suc (unat (prefault_backward c))]))"
    by (simp add: postcopy_outgoing_handle_req_def)
next
  assume a: "req_cmd req = QEMU_UMEM_REQ_PAGE_CONT \<and> last_block_read s = Some b \<and>
    po_state s \<noteq> PO_STATE_ALL_PAGES_SENT \<and> req_pgoffs req \<noteq> [] \<and>
    list_all (\<lambda>p. in_block c b (unat p)) (req_pgoffs req) \<and>
    unat (prefault_forward c) < 2 ^ 31 \<and> unat (prefault_backward c) < 2 ^ 31 \<and>
    list_all (\<lambda>p. (unat p + unat (prefault_forward c)) * 2 ^ conf_tpb c < 2 ^ 64) (req_pgoffs req)"
  then have "last_block_read s = Some b" "po_state s \<noteq> PO_STATE_ALL_PAGES_SENT" by simp_all
  from handle_req_pages_order[OF this, of "req_pgoffs req" c] a
  show "\<exists>s'. postcopy_outgoing_handle_req c s req = (Ok 0, s') \<and> po_state s' = po_state s \<and>
           last_block_read s' = Some b \<and>
           po_log s' = po_log s @ map Wr
             (requested_writes c b (req_pgoffs req)
              @ concat (map (forward_writes c b (req_pgoffs req))
                          [1..<Suc (unat (prefault_forward c))])
              @ concat (map (backward_writes c b (req_pgoffs req))
                          [1..<Suc (unat (prefault_backward c))]))"
    by (simp add: postcopy_outgoing_handle_req_def)
next
  assume "req_cmd req = QEMU_UMEM_REQ_PAGE \<and>
    ram_find_block (ram_blocks c) (req_idstr req) (c_strlen (req_idstr req)) = Some b \<and>
    po_state s = PO_STATE_ALL_PAGES_SENT"
  then show "postcopy_outgoing_handle_req c s req = (Ok 0, s\<lparr>last_block_read := Some b\<rparr>)"
    by (simp add: postcopy_outgoing_handle_req_def handle_req_pages_all_sent)
next
  assume "req_cmd req = QEMU_UMEM_REQ_PAGE_CONT \<and> po_state s = PO_STATE_ALL_PAGES_SENT"
  then show "postcopy_outgoing_handle_req c s req = (Ok 0, s)"
    by (simp add: postcopy_outgoing_handle_req_def handle_req_pages_all_sent)
next
  assume "req_cmd req = QEMU_UMEM_REQ_PAGE \<and>
    ram_find_block (ram_blocks c) (req_idstr req) (c_strlen (req_idstr req)) = None"
  then show "postcopy_outgoing_handle_req c s req = (Error EINVAL, s)"
    by (simp add: postcopy_outgoing_handle_req_def)
qed


text \<open>
  A block \<open>A\<close> of ten pages, windows 2 forward and 1 backward. Page 5 is answered with
  the pages 5, 6, 7, 4; a \<^verbatim>\<open>PAGE_CONT\<close> for page 9 with the pages 9 and 8 (10 and 11 lie
  past the block); in \<^verbatim>\<open>PO_STATE_ALL_PAGES_SENT\<close> a \<^verbatim>\<open>PAGE\<close> and a \<^verbatim>\<open>PAGE_CONT\<close> for
  page 3 send nothing; a \<^verbatim>\<open>PAGE\<close> for the unknown block \<open>B\<close> is refused.
\<close>

theorem handle_req_page_order_witness:
  "(case postcopy_outgoing_handle_req
     \<lparr>ram_blocks = [\<lparr>rb_idstr = [65], rb_offset = 0, rb_length = 0xA000\<rparr>], conf_tpb = 12,
      prefault_forward = 2, prefault_backward = 1, move_background = False,
      no_background = False, cmd_dec = (\<lambda>b. QEMU_UMEM_REQ_OTHER b), g_new_avail = (\<lambda>n. True)\<rparr>
     \<lparr>po_state = PO_STATE_ACTIVE, last_block_read = None, po_log = [], file_read = [],
      last_seen_block = None\<rparr>
     \<lparr>req_cmd = QEMU_UMEM_REQ_PAGE, req_idstr = [65], req_pgoffs = [5]\<rparr> of
     (r, s') \<Rightarrow>
       r = Ok 0 \<and> po_state s' = PO_STATE_ACTIVE \<and> last_block_read s' = Some 0 \<and>
       po_log s' = [Wr (SavePage 0 0x5000), Wr (SavePage 0 0x6000), Wr (SavePage 0 0x7000),
                    Wr (SavePage 0 0x4000)]) \<and>
   (case postcopy_outgoing_handle_req
     \<lparr>ram_blocks = [\<lparr>rb_idstr = [65], rb_offset = 0, rb_length = 0xA000\<rparr>], conf_tpb = 12,
      prefault_forward = 2, prefault_backward = 1, move_background = False,
      no_background = False, cmd_dec = (\<lambda>b. QEMU_UMEM_REQ_OTHER b), g_new_avail = (\<lambda>n. True)\<rparr>
     \<lparr>po_state = PO_STATE_ACTIVE, last_block_read = Some 0, po_log = [], file_read = [],
      last_seen_block = None\<rparr>
     \<lparr>req_cmd = QEMU_UMEM_REQ_PAGE_CONT, req_idstr = [], req_pgoffs = [9]\<rparr> of
     (r, s') \<Rightarrow>
       r = Ok 0 \<and> po_state s' = PO_STATE_ACTIVE \<and> last_block_read s' = Some 0 \<and>
       po_log s' = [Wr (SavePage 0 0x9000), Wr (SavePage 0 0x8000)]) \<and>
   postcopy_outgoing_handle_req
     \<lparr>ram_blocks = [\<lparr>rb_idstr = [65], rb_offset = 0, rb_length = 0xA000\<rparr>], conf_tpb = 12,
      prefault_forward = 2, prefault_backward = 1, move_background = False,
      no_background = False, cmd_dec = (\<lambda>b. QEMU_UMEM_REQ_OTHER b), g_new_avail = (\<lambda>n. True)\<rparr>
     \<lparr>po_state = PO_STATE_ALL_PAGES_SENT, last_block_read = None, po_log = [], file_read = [],
      last_seen_block = None\<rparr>
     \<lparr>req_cmd = QEMU_UMEM_REQ_PAGE, req_idstr = [65], req_pgoffs = [3]\<rparr>
    = (Ok 0, \<lparr>po_state = PO_STATE_ALL_PAGES_SENT, last_block_read = Some 0, po_log = [],
             file_read = [], last_seen_block = None\<rparr>) \<and>
   postcopy_outgoing_handle_req
     \<lparr>ram_blocks = [\<lparr>rb_idstr = [65], rb_offset = 0, rb_length = 0xA000\<rparr>], conf_tpb = 12,
      prefault_forward = 2, prefault_backward = 1, move_background = False,
      no_background = False, cmd_dec = (\<lambda>b. QEMU_UMEM_REQ_OTHER b), g_new_avail = (\<lambda>n. True)\<rparr>
     \<lparr>po_state = PO_STATE_ALL_PAGES_SENT, last_block_read = Some 0, po_log = [], file_read = [],
      last_seen_block = None\<rparr>
     \<lparr>req_cmd = QEMU_UMEM_REQ_PAGE_CONT, req_idstr = [], req_pgoffs = [3]\<rparr>
    = (Ok 0, \<lparr>po_state = PO_STATE_ALL_PAGES_SENT, last_block_read = Some 0, po_log = [],
             file_read = [], last_seen_block = None\<rparr>) \<and>
   postcopy_outgoing_handle_req
     \<lparr>ram_blocks = [\<lparr>rb_idstr = [65], rb_offset = 0, rb_length = 0xA000\<rparr>], conf_tpb = 12,
      prefault_forward = 2, prefault_backward = 1, move_background = False,
      no_background = False, cmd_dec = (\<lambda>b. QEMU_UMEM_REQ_OTHER b), g_new_avail = (\<lambda>n. True)\<rparr>
     \<lparr>po_state = PO_STATE_ACTIVE, last_block_read = None, po_log = [], file_read = [],
      last_seen_block = None\<rparr>
     \<lparr>req_cmd = QEMU_UMEM_REQ_PAGE, req_idstr = [66], req_pgoffs = [3]\<rparr>
    = (Error EINVAL, \<lparr>po_state = PO_STATE_ACTIVE, last_block_read = None, po_log = [],
                     file_read = [], last_seen_block = None\<rparr>)"
proof -
  let ?c = "\<lparr>ram_blocks = [\<lparr>rb_idstr = [65], rb_offset = 0, rb_length = 0xA000\<rparr>], conf_tpb = 12,
      prefault_forward = 2, prefault_backward = 1, move_background = False,
      no_background = False, cmd_dec = (\<lambda>b. QEMU_UMEM_REQ_OTHER b), g_new_avail = (\<lambda>n. True)\<rparr>"
  let ?sn = "\<lparr>po_state = PO_STATE_ACTIVE, last_block_read = None, po_log = [], file_read = [],
      last_seen_block = None\<rparr>"
  let ?sz = "\<lparr>po_state = PO_STATE_ACTIVE, last_block_read = Some 0, po_log = [], file_read = [],
      last_seen_block = None\<rparr>"
  let ?an = "\<lparr>po_state = PO_STATE_ALL_PAGES_SENT, last_block_read = None, po_log = [], file_read = [],
      last_seen_block = None\<rparr>"
  let ?az = "\<lparr>po_state = PO_STATE_ALL_PAGES_SENT, last_block_read = Some 0, po_log = [], file_read = [],
      last_seen_block = None\<rparr>"
  let ?req = "\<lparr>req_cmd = QEMU_UMEM_REQ_PAGE, req_idstr = [65], req_pgoffs = [5]\<rparr>"
  let ?cont = "\<lparr>req_cmd = QEMU_UMEM_REQ_PAGE_CONT, req_idstr = [], req_pgoffs = [9]\<rparr>"
  let ?reqc = "\<lparr>req_cmd = QEMU_UMEM_REQ_PAGE, req_idstr = [65], req_pgoffs = [3]\<rparr>"
  let ?contc = "\<lparr>req_cmd = QEMU_UMEM_REQ_PAGE_CONT, req_idstr = [], req_pgoffs = [3]\<rparr>"
  let ?unk = "\<lparr>req_cmd = QEMU_UMEM_REQ_PAGE, req_idstr = [66], req_pgoffs = [3]\<rparr>"
  have blk: "ram_find_block (ram_blocks ?c) [65] (c_strlen [65]) = Some 0"
    "ram_find_block (ram_blocks ?c) [66] (c_strlen [66]) = None"
    by (simp_all add: strncmp_eq_def cstr_def c_strlen_def)
  have "unat (2 :: u64) = 2" "unat (1 :: u64) = 1" by simp_all
  then have up: "[1..<Suc (unat (2 :: u64))] = [1, 2]" "[1..<Suc (unat (1 :: u64))] = [1]"
    by (simp_all add: upt_conv_Cons)
  from handle_req_page_order[where c = ?c and s = ?sn and req = ?req and b = 0] blk(1)
  obtain s' where r: "postcopy_outgoing_handle_req ?c ?sn ?req = (Ok 0, s')"
    and p: "po_state s' = PO_STATE_ACTIVE" "last_block_read s' = Some 0"
    and l: "po_log s' = map Wr
             (requested_writes ?c 0 [5]
              @ concat (map (forward_writes ?c 0 [5]) [1..<Suc (unat (2 :: u64))])
              @ concat (map (backward_writes ?c 0 [5]) [1..<Suc (unat (1 :: u64))]))"
    by (auto simp: in_block_def)
  have "po_log s' = [Wr (SavePage 0 0x5000), Wr (SavePage 0 0x6000), Wr (SavePage 0 0x7000),
                 Wr (SavePage 0 0x4000)]"
    unfolding l up
    by (simp add: requested_writes_def forward_writes_def backward_writes_def in_block_def)
  with r p have one: "(case postcopy_outgoing_handle_req ?c ?sn ?req of
     (r, s') \<Rightarrow>
       r = Ok 0 \<and> po_state s' = PO_STATE_ACTIVE \<and> last_block_read s' = Some 0 \<and>
       po_log s' = [Wr (SavePage 0 0x5000), Wr (SavePage 0 0x6000), Wr (SavePage 0 0x7000),
                    Wr (SavePage 0 0x4000)])" by simp
  from handle_req_page_order[where c = ?c and s = ?sz and req = ?cont and b = 0]
  obtain t' where r2: "postcopy_outgoing_handle_req ?c ?sz ?cont = (Ok 0, t')"
    and p2: "po_state t' = PO_STATE_ACTIVE" "last_block_read t' = Some 0"
    and l2: "po_log t' = map Wr
             (requested_writes ?c 0 [9]
              @ concat (map (forward_writes ?c 0 [9]) [1..<Suc (unat (2 :: u64))])
              @ concat (map (backward_writes ?c 0 [9]) [1..<Suc (unat (1 :: u64))]))"
    by (auto simp: in_block_def)
  have "po_log t' = [Wr (SavePage 0 0x9000), Wr (SavePage 0 0x8000)]"
    unfolding l2 up
    by (simp add: requested_writes_def forward_writes_def backward_writes_def in_block_def)
  with r2 p2 have two: "(case postcopy_outgoing_handle_req ?c ?sz ?cont of
     (r, s') \<Rightarrow>
       r = Ok 0 \<and> po_state s' = PO_STATE_ACTIVE \<and> last_block_read s' = Some 0 \<and>
       po_log s' = [Wr (SavePage 0 0x9000), Wr (SavePage 0 0x8000)])" by simp
  from handle_req_page_order[where c = ?c and s = ?an and req = ?reqc and b = 0] blk(1)
  have three: "postcopy_outgoing_handle_req ?c ?an ?reqc = (Ok 0, ?az)" by simp
  from handle_req_page_order[where c = ?c and s = ?az and req = ?contc and b = 0]
  have four: "postcopy_outgoing_handle_req ?c ?az ?contc = (Ok 0, ?az)" by simp
  from handle_req_page_order[where c = ?c and s = ?sn and req = ?unk and b = 0] blk(2)
  have five: "postcopy_outgoing_handle_req ?c ?sn ?unk = (Error EINVAL, ?sn)" by simp
  from one two three four five show ?thesis by (intro conjI)
qed

text \<open>
  Against claim C5 as the specification words it: in \<^verbatim>\<open>PO_STATE_ALL_PAGES_SENT\<close> a
  \<^verbatim>\<open>PAGE\<close> request for page 5 of a ten-page block is accepted and nothing is sent, neither
  the page nor its neighbours.
\<close>

theorem handle_req_page_all_sent_nothing:
  "postcopy_outgoing_handle_req
     \<lparr>ram_blocks = [\<lparr>rb_idstr = [65], rb_offset = 0, rb_length = 0xA000\<rparr>], conf_tpb = 12,
      prefault_forward = 2, prefault_backward = 1, move_background = False,
      no_background = False, cmd_dec = (\<lambda>b. QEMU_UMEM_REQ_OTHER b), g_new_avail = (\<lambda>n. True)\<rparr>
     \<lparr>po_state = PO_STATE_ALL_PAGES_SENT, last_block_read = None, po_log = [], file_read = [],
      last_seen_block = None\<rparr>
     \<lparr>req_cmd = QEMU_UMEM_REQ_PAGE, req_idstr = [65], req_pgoffs = [5]\<rparr>
   = (Ok 0,
      \<lparr>po_state = PO_STATE_ALL_PAGES_SENT, last_block_read = Some 0, po_log = [],
       file_read = [], last_seen_block = None\<rparr>)"
  by (simp add: postcopy_outgoing_handle_req_def handle_req_pages_def
        strncmp_eq_def cstr_def c_strlen_def)

subsection \<open>The receive handler, the background walk and the scheduler\<close>

text \<open>
  The loop \<^verbatim>\<open>do { ... } while (ret == 0)\<close> of \<^verbatim>\<open>postcopy_outgoing_recv_handler\<close>: parse
  a request from what is buffered, serve it, again. \<^verbatim>\<open>-EAGAIN\<close> from the parser ends
  the loop with 0.
\<close>

function recv_handler_loop :: "outgoing_conf \<Rightarrow> outgoing \<Rightarrow> int result \<times> outgoing" where
  "recv_handler_loop c s =
     (case postcopy_outgoing_recv_req (cmd_dec c) (g_new_avail c) (file_read s)
             \<lparr>req_cmd = cmd_dec c 0, req_idstr = [], req_pgoffs = []\<rparr> of
        (Error e, f) \<Rightarrow> (if e = EAGAIN then Ok 0 else Error e, s\<lparr>file_read := f\<rparr>)
      | (Stop x, f) \<Rightarrow> (Stop x, s\<lparr>file_read := f\<rparr>)
      | (Ok req, f) \<Rightarrow>
          (case postcopy_outgoing_handle_req c (s\<lparr>file_read := f\<rparr>) req of
             (Ok ret, s1) \<Rightarrow> if ret = 0 then recv_handler_loop c s1 else (Ok ret, s1)
           | (Error e, s1) \<Rightarrow> (Error e, s1)
           | (Stop x, s1) \<Rightarrow> (Stop x, s1)))"
  by pat_completeness auto

termination
proof (relation "measure (\<lambda>(c, s). length (file_read s))")
  show "wf (measure (\<lambda>(c, s). length (file_read s)))" by simp
next
  fix c s x1 f req x s1 ret
  assume r: "(x1, f) = postcopy_outgoing_recv_req (cmd_dec c) (g_new_avail c) (file_read s)
                 \<lparr>req_cmd = cmd_dec c 0, req_idstr = [], req_pgoffs = []\<rparr>"
    and x1: "x1 = Ok req"
    and h: "(x, s1) = postcopy_outgoing_handle_req c (s\<lparr>file_read := f\<rparr>) req"
  from r x1 have "length f < length (file_read s)" by (simp add: recv_req_shorter[OF sym])
  moreover from handle_req_file_read[OF h[symmetric]] have "file_read s1 = f" by simp
  ultimately show "((c, s1), (c, s)) \<in> measure (\<lambda>(c, s). length (file_read s))" by simp
qed

declare recv_handler_loop.simps [simp del]

text \<open>\<^verbatim>\<open>postcopy_outgoing_recv_handler\<close>, with its two assertions.\<close>

definition postcopy_outgoing_recv_handler :: "outgoing_conf \<Rightarrow> outgoing \<Rightarrow> stop + outgoing" where
  "postcopy_outgoing_recv_handler c s =
     (if \<not> (po_state s = PO_STATE_ACTIVE \<or> po_state s = PO_STATE_ALL_PAGES_SENT) then Inl Abort
      else case recv_handler_loop c s of
        (Stop x, s1) \<Rightarrow> Inl x
      | (Ok ret, s1) \<Rightarrow> Inr s1
      | (Error e, s1) \<Rightarrow>
          (case po_state s1 of
             PO_STATE_ACTIVE \<Rightarrow> Inr (set_state PO_STATE_ERROR_RECEIVE s1)
           | PO_STATE_ALL_PAGES_SENT \<Rightarrow> Inr (set_state PO_STATE_COMPLETED s1)
           | _ \<Rightarrow> Inl Abort))"

text \<open>\<^verbatim>\<open>postcopy_outgoing_ram_all_sent\<close>.\<close>

definition postcopy_outgoing_ram_all_sent :: "outgoing \<Rightarrow> stop + outgoing" where
  "postcopy_outgoing_ram_all_sent s =
     (if po_state s \<noteq> PO_STATE_ACTIVE then Inl Abort
      else Inr (put_stream PutEOS (set_state PO_STATE_ALL_PAGES_SENT s)))"

text \<open>
  One turn of the loop \<^verbatim>\<open>while (qemu_file_rate_limit(f) == 0)\<close> of the background walk,
  as its surroundings decide it: \<^verbatim>\<open>ram_save_block\<close> found no more blocks, or it sent a
  page and the loop is then left (a request is pending, the socket would block, or the
  time is up) or not. Where the list of turns ends the rate limit is reached.
\<close>

datatype bg_ev = BgNoMoreBlocks | BgPage bool

fun background_loop :: "bg_ev list \<Rightarrow> outgoing \<Rightarrow> stop + outgoing" where
  "background_loop [] s = Inr s"
| "background_loop (BgNoMoreBlocks # evs) s = postcopy_outgoing_ram_all_sent s"
| "background_loop (BgPage leave # evs) s =
     (let s1 = put_stream BackgroundPage s
      in if leave then Inr s1 else background_loop evs s1)"

text \<open>
  \<^verbatim>\<open>postcopy_outgoing_ram_save_background\<close>; \<open>remaining_zero\<close> is
  \<^verbatim>\<open>ram_bytes_remaining() == 0\<close>. The return value -1 is \<open>Error (ERRNO 1)\<close>.
\<close>

definition postcopy_outgoing_ram_save_background ::
  "outgoing_conf \<Rightarrow> bool \<Rightarrow> bg_ev list \<Rightarrow> outgoing \<Rightarrow> int result \<times> outgoing" where
  "postcopy_outgoing_ram_save_background c remaining_zero evs s =
     (case po_state s of
        PO_STATE_EOC_RECEIVED \<Rightarrow> (Ok 0, set_state PO_STATE_COMPLETED (put_stream PutEOS s))
      | PO_STATE_ERROR_RECEIVE \<Rightarrow> (Error (ERRNO 1), s)
      | PO_STATE_ACTIVE \<Rightarrow>
          (if no_background c then
             (if remaining_zero then
                (case postcopy_outgoing_ram_all_sent s of
                   Inl x \<Rightarrow> (Stop x, s) | Inr s1 \<Rightarrow> (Ok 0, s1))
              else (Ok 0, s))
           else
             (case background_loop evs s of
                Inl x \<Rightarrow> (Stop x, s) | Inr s1 \<Rightarrow> (Ok 0, s1)))
      | _ \<Rightarrow> (Stop Abort, s))"

text \<open>
  What one call of \<^verbatim>\<open>postcopy_outgoing_loop\<close> meets: the bytes that have arrived on the
  read side by then, whether the rate limit is reached, what \<^verbatim>\<open>select\<close> returns (for a
  descriptor that was put into its set), and what the background walk meets. Last,
  whether a file error is pending after it.
\<close>

datatype select_ev = SelectEINTR | SelectError | SelectReady bool bool

record tick =
  t_arrived :: "u8 list"
  t_rate_limited :: bool
  t_select :: select_ev
  t_remaining_zero :: bool
  t_background :: "bg_ev list"
  t_file_error :: bool

text \<open>\<^verbatim>\<open>postcopy_outgoing_loop\<close>.\<close>

definition postcopy_outgoing_loop :: "outgoing_conf \<Rightarrow> tick \<Rightarrow> outgoing \<Rightarrow> int result \<times> outgoing" where
  "postcopy_outgoing_loop c t s0 =
     (let s = s0\<lparr>file_read := file_read s0 @ t_arrived t\<rparr>;
          read_set = (po_state s = PO_STATE_ACTIVE \<or> po_state s = PO_STATE_ALL_PAGES_SENT);
          write_set = ((po_state s = PO_STATE_ACTIVE \<or> po_state s = PO_STATE_EOC_RECEIVED)
                       \<and> \<not> t_rate_limited t)
      in case t_select t of
           SelectEINTR \<Rightarrow> (Ok 0, s)
         | SelectError \<Rightarrow> (Error (ERRNO 1), s)
         | SelectReady readable writable \<Rightarrow>
             if read_set \<and> readable then
               (case postcopy_outgoing_recv_handler c s of
                  Inl x \<Rightarrow> (Stop x, s) | Inr s1 \<Rightarrow> (Ok 0, s1))
             else if write_set \<and> writable then
               postcopy_outgoing_ram_save_background c (t_remaining_zero t) (t_background t) s
             else (Ok 0, s))"

text \<open>\<^verbatim>\<open>postcopy_outgoing_file\<close>.\<close>

definition postcopy_outgoing_file :: "outgoing_conf \<Rightarrow> tick \<Rightarrow> outgoing \<Rightarrow> int result \<times> outgoing" where
  "postcopy_outgoing_file c t s =
     (case postcopy_outgoing_loop c t s of
        (ret, s1) \<Rightarrow> (if t_file_error t then (case ret of Stop x \<Rightarrow> Stop x | _ \<Rightarrow> Error (ERRNO 1))
                      else ret, s1))"

text \<open>
  \<^verbatim>\<open>postcopy_outgoing_begin\<close>, the clean bitmap it may send being part of the stream
  before this log starts.
\<close>

definition postcopy_outgoing_begin :: "u8 list \<Rightarrow> outgoing" where
  "postcopy_outgoing_begin buffered =
     \<lparr>po_state = PO_STATE_ACTIVE, last_block_read = None, po_log = [],
      file_read = buffered, last_seen_block = None\<rparr>"

text \<open>
  \<^verbatim>\<open>postcopy_outgoing\<close> over a socket (not RDMA): the loop
  \<^verbatim>\<open>while (s->state != PO_STATE_ERROR_RECEIVE && s->state != PO_STATE_COMPLETED)\<close>,
  run over what its calls meet. The result is \<open>None\<close> when the loop is still running
  after the last of them.
\<close>

fun outgoing_while :: "outgoing_conf \<Rightarrow> int result \<Rightarrow> tick list \<Rightarrow> outgoing \<Rightarrow> int result option \<times> outgoing" where
  "outgoing_while c ret [] s =
     (if po_state s \<noteq> PO_STATE_ERROR_RECEIVE \<and> po_state s \<noteq> PO_STATE_COMPLETED
      then (None, s) else (Some ret, s))"
| "outgoing_while c ret (t # ts) s =
     (if po_state s \<noteq> PO_STATE_ERROR_RECEIVE \<and> po_state s \<noteq> PO_STATE_COMPLETED then
        (case postcopy_outgoing_file c t s of
           (Ok r, s1) \<Rightarrow> outgoing_while c (Ok r) ts s1
         | (ret1, s1) \<Rightarrow> (Some ret1, s1))
      else (Some ret, s))"

definition postcopy_outgoing :: "outgoing_conf \<Rightarrow> tick list \<Rightarrow> outgoing \<Rightarrow> int result option \<times> outgoing" where
  "postcopy_outgoing c ts s = outgoing_while c (Ok 0) ts s"

text \<open>
  What the log holds after the first \<^verbatim>\<open>-> PO_STATE_EOC_RECEIVED\<close>, if the state was
  entered.
\<close>

fun after_eoc_received :: "po_event list \<Rightarrow> po_event list option" where
  "after_eoc_received [] = None"
| "after_eoc_received (e # es) =
     (if e = St PO_STATE_EOC_RECEIVED then Some es else after_eoc_received es)"

subsection \<open>After the end of commands\<close>

lemma writes_of_append: "writes_of (xs @ ys) = writes_of xs @ writes_of ys"
  by (induction xs rule: writes_of.induct) simp_all

lemma writes_of_map_Wr: "writes_of (map Wr ws) = ws"
  by (induction ws) simp_all

lemma after_eoc_received_append:
  "after_eoc_received (xs @ ys) =
     (case after_eoc_received xs of None \<Rightarrow> after_eoc_received ys | Some es \<Rightarrow> Some (es @ ys))"
  by (induction xs) simp_all

lemma after_eoc_received_writes: "after_eoc_received (map Wr ws) = None"
  by (induction ws) simp_all

text \<open>
  The invariant of the engine: the log has no \<^verbatim>\<open>-> PO_STATE_EOC_RECEIVED\<close> unless the
  state is \<^verbatim>\<open>EOC_RECEIVED\<close> with nothing written since, or \<^verbatim>\<open>COMPLETED\<close> with the
  end-of-stream marker written since.
\<close>

definition eoc_inv :: "outgoing \<Rightarrow> bool" where
  "eoc_inv s \<longleftrightarrow>
     (case after_eoc_received (po_log s) of
        None \<Rightarrow> po_state s \<noteq> PO_STATE_EOC_RECEIVED
      | Some es \<Rightarrow> (po_state s = PO_STATE_EOC_RECEIVED \<and> writes_of es = []) \<or>
                   (po_state s = PO_STATE_COMPLETED \<and> writes_of es = [PutEOS]))"

definition before_eoc :: "outgoing \<Rightarrow> bool" where
  "before_eoc s \<longleftrightarrow>
     (po_state s = PO_STATE_ACTIVE \<or> po_state s = PO_STATE_ALL_PAGES_SENT) \<and>
     after_eoc_received (po_log s) = None"

lemma before_eoc_inv: "before_eoc s \<Longrightarrow> eoc_inv s"
  by (auto simp: before_eoc_def eoc_inv_def)

lemma eoc_inv_before:
  "eoc_inv s \<Longrightarrow> po_state s = PO_STATE_ACTIVE \<or> po_state s = PO_STATE_ALL_PAGES_SENT \<Longrightarrow> before_eoc s"
  by (auto simp: before_eoc_def eoc_inv_def split: option.splits)

lemma before_eoc_only_writes:
  assumes "before_eoc s" "only_writes s s'"
  shows "before_eoc s'"
proof -
  from assms(2) obtain ws where "po_state s' = po_state s" "po_log s' = po_log s @ map Wr ws"
    by (auto simp: only_writes_def)
  with assms(1) show ?thesis
    by (simp add: before_eoc_def after_eoc_received_append after_eoc_received_writes)
qed

lemma before_eoc_file_read: "before_eoc (s\<lparr>file_read := f\<rparr>) = before_eoc s"
  by (simp add: before_eoc_def)

lemma eoc_inv_file_read: "eoc_inv (s\<lparr>file_read := f\<rparr>) = eoc_inv s"
  by (simp add: eoc_inv_def split: option.split)

lemma handle_req_inv:
  assumes b: "before_eoc s" and h: "postcopy_outgoing_handle_req c s req = (r, s')"
  shows "eoc_inv s' \<and> (r \<noteq> Ok 1 \<longrightarrow> before_eoc s')"
  using handle_req_cases[OF h]
proof
  assume a: "req_cmd req = QEMU_UMEM_REQ_EOC \<and> r = Ok 1 \<and>
          s' = set_state (if po_state s = PO_STATE_ALL_PAGES_SENT then PO_STATE_COMPLETED
                          else PO_STATE_EOC_RECEIVED) s"
  with b show ?thesis
    by (auto simp: before_eoc_def eoc_inv_def set_state_def after_eoc_received_append)
next
  assume a: "req_cmd req \<noteq> QEMU_UMEM_REQ_EOC \<and> r \<noteq> Ok 1 \<and> only_writes s s'"
  with before_eoc_only_writes[OF b] have "before_eoc s'" by simp
  then show ?thesis by (simp add: before_eoc_inv)
qed

lemma recv_handler_loop_inv:
  "before_eoc s \<Longrightarrow> recv_handler_loop c s = (r, s') \<Longrightarrow>
   eoc_inv s' \<and> (r \<noteq> Ok 1 \<longrightarrow> before_eoc s')"
proof (induction c s rule: recv_handler_loop.induct)
  case (1 c s)
  let ?R = "\<lparr>req_cmd = cmd_dec c 0, req_idstr = [], req_pgoffs = []\<rparr>"
  obtain x1 f where p: "postcopy_outgoing_recv_req (cmd_dec c) (g_new_avail c) (file_read s) ?R = (x1, f)"
    by (cases "postcopy_outgoing_recv_req (cmd_dec c) (g_new_avail c) (file_read s) ?R")
  have bf: "before_eoc (s\<lparr>file_read := f\<rparr>)" using "1.prems"(1) by (simp add: before_eoc_file_read)
  show ?case
  proof (cases x1)
    case (Ok req)
    obtain x s1 where h: "postcopy_outgoing_handle_req c (s\<lparr>file_read := f\<rparr>) req = (x, s1)"
      by (cases "postcopy_outgoing_handle_req c (s\<lparr>file_read := f\<rparr>) req")
    note hi = handle_req_inv[OF bf h]
    show ?thesis
    proof (cases "x = Ok 0")
      case True
      with hi have b1: "before_eoc s1" by simp
      from "1.prems"(2) p Ok h True have "recv_handler_loop c s1 = (r, s')"
        by (subst (asm) recv_handler_loop.simps) simp
      from "1.IH"[OF p[symmetric] Ok h[symmetric] _ _ b1 this] True show ?thesis by simp
    next
      case False
      with "1.prems"(2) p Ok h have "r = x \<and> s' = s1"
        by (subst (asm) recv_handler_loop.simps) (auto split: result.splits if_splits)
      with hi show ?thesis by simp
    qed
  next
    case (Error e)
    with "1.prems"(2) p have "s' = s\<lparr>file_read := f\<rparr>"
      by (subst (asm) recv_handler_loop.simps) simp
    with bf show ?thesis by (simp add: before_eoc_inv)
  next
    case (Stop x)
    with "1.prems"(2) p have "s' = s\<lparr>file_read := f\<rparr>"
      by (subst (asm) recv_handler_loop.simps) simp
    with bf show ?thesis by (simp add: before_eoc_inv)
  qed
qed

lemma before_eoc_set_state:
  "before_eoc s \<Longrightarrow> st \<noteq> PO_STATE_EOC_RECEIVED \<Longrightarrow> eoc_inv (set_state st s)"
  by (simp add: before_eoc_def eoc_inv_def set_state_def after_eoc_received_append)

lemma recv_handler_inv:
  assumes "eoc_inv s" "postcopy_outgoing_recv_handler c s = Inr s'"
  shows "eoc_inv s'"
proof -
  from assms(2) have st: "po_state s = PO_STATE_ACTIVE \<or> po_state s = PO_STATE_ALL_PAGES_SENT"
    by (auto simp: postcopy_outgoing_recv_handler_def split: if_splits)
  note b = eoc_inv_before[OF assms(1) st]
  obtain r s1 where l: "recv_handler_loop c s = (r, s1)" by (cases "recv_handler_loop c s")
  note li = recv_handler_loop_inv[OF b l]
  show ?thesis
  proof (cases r)
    case (Ok ret)
    with assms(2) st l have "s' = s1" by (auto simp: postcopy_outgoing_recv_handler_def)
    with li show ?thesis by simp
  next
    case (Error e)
    with li have b1: "before_eoc s1" by simp
    from Error assms(2) st l have "s' = set_state PO_STATE_ERROR_RECEIVE s1 \<or>
        s' = set_state PO_STATE_COMPLETED s1"
      by (auto simp: postcopy_outgoing_recv_handler_def split: po_state.splits)
    with b1 show ?thesis by (auto intro: before_eoc_set_state)
  next
    case (Stop x)
    with assms(2) st l show ?thesis by (auto simp: postcopy_outgoing_recv_handler_def)
  qed
qed

lemma ram_all_sent_inv:
  assumes "before_eoc s" "postcopy_outgoing_ram_all_sent s = Inr s'"
  shows "eoc_inv s'"
  using assms
  by (auto simp: postcopy_outgoing_ram_all_sent_def before_eoc_def eoc_inv_def set_state_def
        log_add_def after_eoc_received_append split: if_splits)

lemma background_loop_inv:
  "before_eoc s \<Longrightarrow> background_loop evs s = Inr s' \<Longrightarrow> eoc_inv s'"
proof (induction evs s rule: background_loop.induct)
  case (1 s)
  then show ?case by (simp add: before_eoc_inv)
next
  case (2 evs s)
  then show ?case by (simp add: ram_all_sent_inv)
next
  case (3 leave evs s)
  have b1: "before_eoc (put_stream BackgroundPage s)"
    using before_eoc_only_writes[OF "3.prems"(1) only_writes_put_stream] .
  show ?case
  proof (cases leave)
    case True
    with "3.prems"(2) b1 show ?thesis by (simp add: before_eoc_inv Let_def del: log_add_simps)
  next
    case False
    with "3.prems"(2) have "background_loop evs (put_stream BackgroundPage s) = Inr s'"
      by (simp add: Let_def del: log_add_simps)
    from "3.IH"[OF refl False b1 this] show ?thesis .
  qed
qed

lemma ram_save_background_inv:
  assumes i: "eoc_inv s" and r: "postcopy_outgoing_ram_save_background c z evs s = (r, s')"
  shows "eoc_inv s'"
proof (cases "po_state s")
  case PO_STATE_ACTIVE
  note b = eoc_inv_before[OF i disjI1[OF PO_STATE_ACTIVE]]
  from r PO_STATE_ACTIVE have "s' = s \<or> postcopy_outgoing_ram_all_sent s = Inr s' \<or>
     background_loop evs s = Inr s'"
    by (auto simp: postcopy_outgoing_ram_save_background_def split: if_splits sum.splits)
  with i b show ?thesis by (auto intro: ram_all_sent_inv background_loop_inv)
next
  case PO_STATE_EOC_RECEIVED
  with r have "s' = set_state PO_STATE_COMPLETED (put_stream PutEOS s)"
    by (simp add: postcopy_outgoing_ram_save_background_def del: log_add_simps)
  with i PO_STATE_EOC_RECEIVED show ?thesis
    by (auto simp: eoc_inv_def set_state_def log_add_def after_eoc_received_append
          writes_of_append split: option.splits)
next
  case PO_STATE_ALL_PAGES_SENT
  with r i show ?thesis by (simp add: postcopy_outgoing_ram_save_background_def)
next
  case PO_STATE_COMPLETED
  with r i show ?thesis by (simp add: postcopy_outgoing_ram_save_background_def)
next
  case PO_STATE_ERROR_RECEIVE
  with r i show ?thesis by (simp add: postcopy_outgoing_ram_save_background_def)
qed

lemma outgoing_loop_inv:
  assumes i: "eoc_inv s" and r: "postcopy_outgoing_loop c t s = (r, s')"
  shows "eoc_inv s'"
proof -
  let ?s = "s\<lparr>file_read := file_read s @ t_arrived t\<rparr>"
  have i1: "eoc_inv ?s" using i by (simp add: eoc_inv_file_read)
  from r have "s' = ?s \<or> postcopy_outgoing_recv_handler c ?s = Inr s' \<or>
     (\<exists>r. postcopy_outgoing_ram_save_background c (t_remaining_zero t) (t_background t) ?s = (r, s'))"
    by (auto simp: postcopy_outgoing_loop_def Let_def split: select_ev.splits if_splits sum.splits)
  with i1 show ?thesis by (auto intro: recv_handler_inv ram_save_background_inv)
qed

lemma outgoing_file_inv:
  assumes i: "eoc_inv s" and r: "postcopy_outgoing_file c t s = (r, s')"
  shows "eoc_inv s'"
proof -
  from r obtain r1 where "postcopy_outgoing_loop c t s = (r1, s')"
    by (auto simp: postcopy_outgoing_file_def split: prod.splits)
  from outgoing_loop_inv[OF i this] show ?thesis .
qed

lemma outgoing_while_inv:
  "eoc_inv s \<Longrightarrow> outgoing_while c ret ts s = (r, s') \<Longrightarrow> eoc_inv s'"
proof (induction ts arbitrary: s ret)
  case Nil
  then show ?case by (auto split: if_splits)
next
  case (Cons t ts)
  show ?case
  proof (cases "po_state s \<noteq> PO_STATE_ERROR_RECEIVE \<and> po_state s \<noteq> PO_STATE_COMPLETED")
    case False
    with Cons.prems show ?thesis by auto
  next
    case True
    obtain r1 s1 where f: "postcopy_outgoing_file c t s = (r1, s1)"
      by (cases "postcopy_outgoing_file c t s")
    note i1 = outgoing_file_inv[OF Cons.prems(1) f]
    show ?thesis
    proof (cases r1)
      case (Ok x)
      with Cons.prems(2) True f have "outgoing_while c (Ok x) ts s1 = (r, s')" by simp
      from Cons.IH[OF i1 this] show ?thesis .
    next
      case (Error e)
      with Cons.prems(2) True f i1 show ?thesis by auto
    next
      case (Stop x)
      with Cons.prems(2) True f i1 show ?thesis by auto
    qed
  qed
qed

lemma begin_inv: "eoc_inv (postcopy_outgoing_begin buffered)"
  by (simp add: eoc_inv_def postcopy_outgoing_begin_def)




section \<open>Source side: the clean bitmap\<close>

text \<open>
  Modelled from the spec: \<^verbatim>\<open>postcopy_bitmap_to_uint64\<close> is in another file; with a 64-bit
  \<^verbatim>\<open>unsigned long\<close> the \<^verbatim>\<open>uint64_t\<close> of a bitmap word is the word.
\<close>

definition postcopy_bitmap_to_uint64 :: "u64 \<Rightarrow> u64" where
  "postcopy_bitmap_to_uint64 w = w"

text \<open>
  The word put for the pages from \<open>i\<close> on when the block starts at a multiple of 64:
  \<^verbatim>\<open>~postcopy_bitmap_to_uint64(&bitmap[BIT_WORD(i)])\<close>. The migration bitmap
  \<^verbatim>\<open>migration_bitmap_get()\<close> is the dirty bitmap, indexed by the page number in the RAM
  address space; a read past its end is \<open>BadDeref\<close>.
\<close>

definition clean_word_aligned :: "u64 list \<Rightarrow> u64 \<Rightarrow> stop + u64" where
  "clean_word_aligned bitmap i =
     (if unat i div 64 < length bitmap
      then Inr (NOT (postcopy_bitmap_to_uint64 (bitmap ! (unat i div 64))))
      else Inl BadDeref)"

text \<open>
  The word put otherwise: \<^verbatim>\<open>bitmap_zero(tmp, 64)\<close>, then
  \<^verbatim>\<open>for (j = 0; j < 63; j++) if (!test_bit(i + j, bitmap)) set_bit(j, tmp)\<close>.
\<close>

definition clean_word_unaligned :: "u64 list \<Rightarrow> u64 \<Rightarrow> stop + u64" where
  "clean_word_unaligned bitmap i =
     (if unat (i + 62) div 64 < length bitmap \<and> unat i div 64 < length bitmap
      then Inr (postcopy_bitmap_to_uint64
             (hd (fold (\<lambda>j tmp. if \<not> test_bit (unat (i + of_nat j)) bitmap then set_bit j tmp else tmp)
                    [0..<63] (bitmap_new 64))))
      else Inl BadDeref)"

text \<open>
  The last word, for the pages from \<^verbatim>\<open>end_uint64\<close> to \<^verbatim>\<open>end\<close>:
  \<^verbatim>\<open>for (i = end_uint64; i < end; i++) if (!test_bit(i, bitmap)) set_bit(i - end_uint64, tmp)\<close>.
\<close>

definition clean_word_tail :: "u64 list \<Rightarrow> u64 \<Rightarrow> u64 \<Rightarrow> stop + u64" where
  "clean_word_tail bitmap end_uint64 end_pg =
     (if unat (end_pg - 1) div 64 < length bitmap
      then Inr (postcopy_bitmap_to_uint64
             (hd (fold (\<lambda>i tmp. if \<not> test_bit i bitmap then set_bit (i - unat end_uint64) tmp else tmp)
                    [unat end_uint64..<unat end_pg] (bitmap_new 64))))
      else Inl BadDeref)"

text \<open>
  The loop \<^verbatim>\<open>for (i = start; i < end_uint64; i += 64)\<close> around either word. \<open>i\<close> is a
  \<^verbatim>\<open>uint64_t\<close>: where \<^verbatim>\<open>i += 64\<close> wraps the loop does not end.
\<close>

lemma words_loop_step:
  fixes i e :: u64
  assumes "i < e" "\<not> i + 64 < i"
  shows "unat e - unat (i + 64) < unat e - unat i"
proof -
  from assms(2) have "i \<le> i + 64" by simp
  then have "unat (i + 64) = unat i + unat (64 :: u64)" by (simp add: unat_plus_simple)
  moreover from assms(1) have "unat i < unat e" by (simp add: word_less_nat_alt)
  ultimately show ?thesis by simp
qed

function words_loop :: "(u64 \<Rightarrow> stop + u64) \<Rightarrow> u64 \<Rightarrow> u64 \<Rightarrow> stop + u64 list" where
  "words_loop word i e =
     (if i < e then
        (case word i of
           Inl x \<Rightarrow> Inl x
         | Inr w \<Rightarrow>
             if i + 64 < i then Inl Diverges
             else (case words_loop word (i + 64) e of
                     Inl x \<Rightarrow> Inl x
                   | Inr ws \<Rightarrow> Inr (w # ws)))
      else Inr [])"
  by pat_completeness auto

termination
  by (relation "measure (\<lambda>(word, i, e). unat e - unat i)") (auto intro: words_loop_step)

declare words_loop.simps [simp del]

text \<open>The words put for one block.\<close>

definition clean_bitmap_words :: "nat \<Rightarrow> u64 list \<Rightarrow> RAMBlock \<Rightarrow> stop + u64 list" where
  "clean_bitmap_words tpb bitmap block =
     (let start = drop_bit tpb (rb_offset block);
          end_pg = drop_bit tpb (rb_offset block + rb_length block);
          end_uint64 = start + ((end_pg - start) AND NOT 63)
      in case words_loop (if unat start mod 64 = 0 then clean_word_aligned bitmap
                          else clean_word_unaligned bitmap) start end_uint64 of
           Inl x \<Rightarrow> Inl x
         | Inr ws \<Rightarrow>
             if end_uint64 < end_pg then
               (case clean_word_tail bitmap end_uint64 end_pg of
                  Inl x \<Rightarrow> Inl x
                | Inr w \<Rightarrow> Inr (ws @ [w]))
             else Inr ws)"

text \<open>
  \<^verbatim>\<open>postcopy_outgoing_send_clean_bitmap\<close>: the bytes put on the stream, a record for each
  block and the terminator.
\<close>

fun send_clean_bitmap_blocks :: "nat \<Rightarrow> u64 list \<Rightarrow> RAMBlock list \<Rightarrow> stop + u8 list" where
  "send_clean_bitmap_blocks tpb bitmap [] = Inr []"
| "send_clean_bitmap_blocks tpb bitmap (block # later) =
     (case clean_bitmap_words tpb bitmap block of
        Inl x \<Rightarrow> Inl x
      | Inr ws \<Rightarrow>
          (case send_clean_bitmap_blocks tpb bitmap later of
             Inl x \<Rightarrow> Inl x
           | Inr rest \<Rightarrow>
               Inr (of_nat (c_strlen (rb_idstr block))
                    # take (c_strlen (rb_idstr block)) (rb_idstr block)
                    @ put_be64 (rb_offset block) @ put_be64 (rb_length block)
                    @ put_be64 (postcopy_bitmap_length tpb (rb_length block))
                    @ concat (map put_be64 ws) @ rest)))"

definition postcopy_outgoing_send_clean_bitmap :: "nat \<Rightarrow> u64 list \<Rightarrow> RAMBlock list \<Rightarrow> stop + u8 list" where
  "postcopy_outgoing_send_clean_bitmap tpb bitmap bs =
     (case send_clean_bitmap_blocks tpb bitmap bs of
        Inl x \<Rightarrow> Inl x
      | Inr bytes \<Rightarrow> Inr (bytes @ [0] @ put_be64 0 @ put_be64 0 @ put_be64 0))"

text \<open>
  The complement of the dirty bitmap for the 64 pages from \<open>i\<close> on: bit \<open>j\<close> is set
  exactly if page \<open>i + j\<close> is not dirty.
\<close>

definition clean_word_expected :: "u64 list \<Rightarrow> nat \<Rightarrow> u64" where
  "clean_word_expected bitmap i =
     fold (\<lambda>j w. if \<not> test_bit (i + j) bitmap then w OR push_bit j 1 else w) [0..<64] 0"

subsection \<open>The words of a block that does not start at a multiple of 64\<close>

lemma set_bit_low:
  assumes "nr < 63" "length tmp = 1" "\<not> bit (hd tmp) 63"
  shows "length (set_bit nr tmp) = 1 \<and> \<not> bit (hd (set_bit nr tmp)) 63"
proof -
  from assms(2) obtain w where t: "tmp = [w]" by (cases tmp) auto
  from assms(1) have "nr div 64 = 0" "nr mod 64 = nr" by simp_all
  then have "set_bit nr tmp = [w OR push_bit nr 1]" using t by (simp add: set_bit_def)
  moreover have "\<not> bit (w OR push_bit nr (1 :: u64)) 63"
    using assms(1,3) t by (simp add: bit_simps)
  ultimately show ?thesis by simp
qed

lemma fold_set_bit_low:
  assumes "\<forall>j \<in> set js. g j < 63" "length tmp = 1" "\<not> bit (hd tmp) 63"
  shows "length (fold (\<lambda>j tmp. if p j then set_bit (g j) tmp else tmp) js tmp) = 1 \<and>
         \<not> bit (hd (fold (\<lambda>j tmp. if p j then set_bit (g j) tmp else tmp) js tmp)) 63"
  using assms
proof (induction js arbitrary: tmp)
  case Nil
  then show ?case by simp
next
  case (Cons j js)
  let ?t = "if p j then set_bit (g j) tmp else tmp"
  have "length ?t = 1 \<and> \<not> bit (hd ?t) 63"
    using Cons.prems set_bit_low[of "g j" tmp] by simp
  with Cons.IH[of ?t] Cons.prems(1) show ?case by simp
qed

lemma bitmap_new_64: "bitmap_new 64 = [0]"
  by (simp add: bitmap_new_def)

lemma clean_word_unaligned_bit_63:
  assumes "clean_word_unaligned bitmap i = Inr w"
  shows "\<not> bit w 63"
proof -
  from assms have "w = hd (fold (\<lambda>j tmp. if \<not> test_bit (unat (i + of_nat j)) bitmap then set_bit j tmp else tmp)
                    [0..<63] (bitmap_new 64))"
    by (auto simp: clean_word_unaligned_def postcopy_bitmap_to_uint64_def split: if_splits)
  with fold_set_bit_low[of "[0..<63]" "\<lambda>j. j" "bitmap_new 64"
         "\<lambda>j. \<not> test_bit (unat (i + of_nat j)) bitmap"]
  show ?thesis by (simp add: bitmap_new_64)
qed

lemma words_loop_unaligned_bit_63:
  "words_loop (clean_word_unaligned bitmap) i e = Inr ws \<Longrightarrow> w \<in> set ws \<Longrightarrow> \<not> bit w 63"
proof (induction "clean_word_unaligned bitmap" i e arbitrary: ws rule: words_loop.induct)
  case (1 i e)
  show ?case
  proof (cases "i < e")
    case False
    with "1.prems" show ?thesis by (subst (asm) words_loop.simps) simp
  next
    case True
    from "1.prems"(1) True obtain w0 ws0 where
      w0: "clean_word_unaligned bitmap i = Inr w0" and nw: "\<not> i + 64 < i"
      and r: "words_loop (clean_word_unaligned bitmap) (i + 64) e = Inr ws0"
      and ws: "ws = w0 # ws0"
      by (subst (asm) words_loop.simps) (auto split: sum.splits if_splits)
    from "1.prems"(2) ws have "w = w0 \<or> w \<in> set ws0" by auto
    then show ?thesis
    proof
      assume "w = w0"
      with clean_word_unaligned_bit_63[OF w0] show ?thesis by simp
    next
      assume "w \<in> set ws0"
      from "1.hyps"[OF True w0 nw r this] show ?thesis .
    qed
  qed
qed

lemma and_not_63:
  fixes x :: u64
  shows "x - (x AND NOT 63) = x AND 63"
proof -
  have m: "(63 :: u64) = mask 6" by (simp add: mask_eq_exp_minus_1)
  have "x AND NOT (mask 6) = push_bit 6 (drop_bit 6 x)"
    by (rule bit_word_eqI) (auto simp: bit_simps)
  moreover have "x AND mask 6 = take_bit 6 x" by (simp add: take_bit_eq_mask)
  moreover have "push_bit 6 (drop_bit 6 x) + take_bit 6 x = x" by (rule bits_ident)
  ultimately show ?thesis unfolding m by (metis add_diff_cancel_left')
qed

lemma end_uint64_tail:
  fixes start end_pg :: u64
  assumes "start + ((end_pg - start) AND NOT 63) < end_pg"
  shows "unat end_pg - unat (start + ((end_pg - start) AND NOT 63)) \<le> 63"
proof -
  let ?x = "end_pg - start"
  let ?e = "start + (?x AND NOT 63)"
  have "end_pg - ?e = ?x - (?x AND NOT 63)" by (simp only: diff_diff_eq)
  then have "end_pg - ?e = ?x AND 63" by (simp only: and_not_63)
  moreover have "?x AND 63 \<le> 63" by (rule word_and_le1)
  ultimately have "unat (end_pg - ?e) \<le> unat (63 :: u64)"
    by (simp only: word_le_nat_alt)
  moreover from assms have "unat (end_pg - ?e) = unat end_pg - unat ?e"
    by (simp only: unat_sub word_less_nat_alt word_le_nat_alt less_imp_le)
  moreover have "unat (63 :: u64) = 63" by simp
  ultimately show ?thesis by (simp only:)
qed

lemma clean_word_tail_bit_63:
  assumes "clean_word_tail bitmap end_uint64 end_pg = Inr w"
    and "unat end_pg - unat end_uint64 \<le> 63"
  shows "\<not> bit w 63"
proof -
  from assms(1) have "w = hd (fold (\<lambda>i tmp. if \<not> test_bit i bitmap then set_bit (i - unat end_uint64) tmp else tmp)
                    [unat end_uint64..<unat end_pg] (bitmap_new 64))"
    by (auto simp: clean_word_tail_def postcopy_bitmap_to_uint64_def split: if_splits)
  moreover have "\<forall>i \<in> set [unat end_uint64..<unat end_pg]. i - unat end_uint64 < 63"
    using assms(2) by auto
  ultimately show ?thesis
    using fold_set_bit_low[of "[unat end_uint64..<unat end_pg]" "\<lambda>i. i - unat end_uint64"
         "bitmap_new 64" "\<lambda>i. \<not> test_bit i bitmap"]
    by (simp add: bitmap_new_64)
qed

text \<open>
  Claim C3 says that every word of the preamble is the complement of the dirty bitmap for
  its 64 target pages, whether or not the first page of the block is a multiple of 64.
  The code does not do that: for a block whose first page is not a multiple of 64 the
  inner loop is \<^verbatim>\<open>for (j = 0; j < 63; j++)\<close>, so bit 63 of every word it puts is clear,
  whatever the dirty bitmap holds for that page.
\<close>

theorem clean_bitmap_unaligned_bit_63:
  assumes "unat (drop_bit tpb (rb_offset block)) mod 64 \<noteq> 0"
    and "clean_bitmap_words tpb bitmap block = Inr ws"
    and "w \<in> set ws"
  shows "\<not> bit w 63"
proof -
  define start where "start = drop_bit tpb (rb_offset block)"
  define end_pg where "end_pg = drop_bit tpb (rb_offset block + rb_length block)"
  define end_uint64 where "end_uint64 = start + ((end_pg - start) AND NOT 63)"
  from assms(1,2) obtain ws0 where
    l: "words_loop (clean_word_unaligned bitmap) start end_uint64 = Inr ws0"
    and t: "(\<not> end_uint64 < end_pg \<and> ws = ws0) \<or>
            (end_uint64 < end_pg \<and> (\<exists>w1. clean_word_tail bitmap end_uint64 end_pg = Inr w1 \<and> ws = ws0 @ [w1]))"
    unfolding clean_bitmap_words_def start_def end_pg_def end_uint64_def Let_def
    by (auto split: sum.splits if_splits)
  from t assms(3) have "w \<in> set ws0 \<or>
     (end_uint64 < end_pg \<and> clean_word_tail bitmap end_uint64 end_pg = Inr w)" by auto
  then show ?thesis
  proof
    assume "w \<in> set ws0"
    with words_loop_unaligned_bit_63[OF l] show ?thesis .
  next
    assume a: "end_uint64 < end_pg \<and> clean_word_tail bitmap end_uint64 end_pg = Inr w"
    then have "end_uint64 < end_pg" ..
    then have le: "unat end_pg - unat end_uint64 \<le> 63"
      unfolding end_uint64_def by (rule end_uint64_tail)
    from a have "clean_word_tail bitmap end_uint64 end_pg = Inr w" ..
    then show ?thesis using le by (rule clean_word_tail_bit_63)
  qed
qed

text \<open>
  With 4 KiB target pages and nothing dirty, a block of 64 pages at offset \<^verbatim>\<open>0x1000\<close>
  (first page 1) gets the word \<^verbatim>\<open>0x7FFFFFFFFFFFFFFF\<close>: page 64 is not dirty and its bit
  is clear, where the complement of the dirty bitmap for the pages 1 to 64 is all ones.
  The same block at offset 0 gets all ones.
\<close>

theorem clean_bitmap_unaligned_bit_63_witness:
  "clean_bitmap_words 12 [0, 0] \<lparr>rb_idstr = [65], rb_offset = 0x1000, rb_length = 0x40000\<rparr>
     = Inr [0x7FFFFFFFFFFFFFFF] \<and>
   \<not> bit (0x7FFFFFFFFFFFFFFF :: u64) 63 \<and>
   \<not> test_bit 64 [0, 0] \<and>
   clean_word_expected [0, 0] 1 = 0xFFFFFFFFFFFFFFFF \<and>
   clean_bitmap_words 12 [0, 0] \<lparr>rb_idstr = [65], rb_offset = 0, rb_length = 0x40000\<rparr>
     = Inr [0xFFFFFFFFFFFFFFFF]"
proof -
  have a: "clean_bitmap_words 12 [0, 0] \<lparr>rb_idstr = [65], rb_offset = 0x1000, rb_length = 0x40000\<rparr>
     = Inr [0x7FFFFFFFFFFFFFFF]"
    by code_simp
  have b: "clean_word_expected [0, 0] 1 = 0xFFFFFFFFFFFFFFFF"
    by code_simp
  have c: "clean_bitmap_words 12 [0, 0] \<lparr>rb_idstr = [65], rb_offset = 0, rb_length = 0x40000\<rparr>
     = Inr [0xFFFFFFFFFFFFFFFF]"
    by code_simp
  have d: "\<not> test_bit 64 [0, 0]" by (simp add: test_bit_def)
  have e: "unat (drop_bit 12 (rb_offset \<lparr>rb_idstr = [65], rb_offset = 0x1000, rb_length = 0x40000\<rparr>)) mod 64 \<noteq> 0"
    by (simp add: drop_bit_eq_div unat_div)
  from clean_bitmap_unaligned_bit_63[OF e a] have "\<not> bit (0x7FFFFFFFFFFFFFFF :: u64) 63" by simp
  with a b c d show ?thesis by simp
qed

end
